(* ===== verification/Dev_Prelude.thy ===== *)
theory Dev_Prelude
  imports Main "HOL-Library.Word" "HOL-Library.Monad_Syntax"
begin

text \<open>
  Shared vocabulary of the development: machine integers and their conversions, searches
  in and sub-ranges of \<open>std::string\<close>, decimal output, and the generic lemmas on them that
  the component theories share. Byte buffers of the C code are in the theory Buffers.
\<close>

unbundle bit_operations_syntax

named_theorems buf_simps \<open>lengths and components of byte buffers\<close>

type_synonym byte = "8 word"
type_synonym u16 = "16 word"
type_synonym u32 = "32 word"
type_synonym u64 = "64 word"

subsection \<open>C and C++ integers\<close>

text \<open>Conversion of a \<open>size_t\<close> to a 32-bit \<open>int\<close>.\<close>

definition int_of_size :: "nat \<Rightarrow> int" where
  "int_of_size n = sint (word_of_nat n :: 32 word)"

definition npos :: nat where
  "npos = 2 ^ 64 - 1"

lemma int_of_size_small: "n < 2 ^ 31 \<Longrightarrow> int_of_size n = int n"
  by (simp add: int_of_size_def signed_of_nat signed_take_bit_int_eq_self)

lemma int_of_size_npos [simp]: "int_of_size npos = -1"
  by (simp add: int_of_size_def npos_def signed_of_nat)


subsection \<open>TLS records and versions\<close>

text \<open>Types, greatest lengths and versions (include/openssl/ssl3.h and tls1.h).\<close>

definition SSL3_RT_APPLICATION_DATA :: int where "SSL3_RT_APPLICATION_DATA = 23"
definition SSL3_RT_ALERT :: int where "SSL3_RT_ALERT = 21"
definition SSL3_RT_HANDSHAKE :: int where "SSL3_RT_HANDSHAKE = 22"
definition SSL3_RT_HEADER_LENGTH :: nat where "SSL3_RT_HEADER_LENGTH = 5"
definition SSL3_RT_MAX_PLAIN_LENGTH :: nat where "SSL3_RT_MAX_PLAIN_LENGTH = 16384"
definition SSL3_RT_MAX_COMPRESSED_LENGTH :: nat where
  "SSL3_RT_MAX_COMPRESSED_LENGTH = SSL3_RT_MAX_PLAIN_LENGTH + 1024"
definition SSL3_RT_MAX_ENCRYPTED_LENGTH :: nat where
  "SSL3_RT_MAX_ENCRYPTED_LENGTH = (256 + 64) + SSL3_RT_MAX_COMPRESSED_LENGTH"
definition SSL3_VERSION :: int where "SSL3_VERSION = 0x0300"
definition TLS1_VERSION :: int where "TLS1_VERSION = 0x0301"

subsection \<open>std::string: searching and sub-ranges\<close>

text \<open>
  \<open>find_first_of\<close> and \<open>find_last_of\<close> return \<open>npos\<close> when no character matches.
  \<open>string_range s a b\<close> is \<open>std::string(s.begin() + a, s.begin() + b)\<close>: it is
  undefined (None) unless both iterators lie in the string and are in order.
\<close>

definition find_first_of :: "string \<Rightarrow> string \<Rightarrow> nat" where
  "find_first_of s cs =
     (let i = length (takeWhile (\<lambda>c. c \<notin> set cs) s) in if i < length s then i else npos)"

definition find_last_of :: "string \<Rightarrow> string \<Rightarrow> nat" where
  "find_last_of s cs =
     (let r = takeWhile (\<lambda>c. c \<notin> set cs) (rev s)
      in if length r < length s then length s - 1 - length r else npos)"

definition string_range :: "string \<Rightarrow> int \<Rightarrow> int \<Rightarrow> string option" where
  "string_range s a b =
     (if 0 \<le> a \<and> a \<le> b \<and> b \<le> int (length s)
      then Some (take (nat (b - a)) (drop (nat a) s)) else None)"

lemma find_first_of_append:
  assumes "\<forall>c \<in> set xs. c \<notin> set cs" and "y \<in> set cs"
  shows "find_first_of (xs @ y # ys) cs = length xs"
  using assms by (simp add: find_first_of_def takeWhile_append2 cong: if_cong)

lemma find_first_of_le:
  "find_first_of s cs = npos \<or> find_first_of s cs < length s \<and> s ! find_first_of s cs \<in> set cs"
proof (cases "length (takeWhile (\<lambda>c. c \<notin> set cs) s) < length s")
  case True
  from nth_length_takeWhile [OF True] True show ?thesis
    by (simp add: find_first_of_def Let_def)
next
  case False
  then show ?thesis by (simp add: find_first_of_def)
qed

lemma find_last_of_append:
  assumes "\<forall>c \<in> set ys. c \<notin> set cs" and "y \<in> set cs"
  shows "find_last_of (xs @ y # ys) cs = length xs"
proof -
  have "takeWhile (\<lambda>c. c \<notin> set cs) (rev ys @ y # rev xs) = rev ys"
    using assms by (subst takeWhile_append2) auto
  then show ?thesis by (simp add: find_last_of_def)
qed

lemma find_last_of_none:
  assumes "\<forall>c \<in> set s. c \<notin> set cs"
  shows "find_last_of s cs = npos"
proof -
  have "takeWhile (\<lambda>c. c \<notin> set cs) (rev s) = rev s"
    using assms by (simp add: takeWhile_eq_all_conv)
  then show ?thesis
    unfolding find_last_of_def Let_def by (simp only: length_rev less_irrefl if_False)
qed

lemma find_last_of_le:
  "find_last_of s cs = npos \<or>
   (find_last_of s cs < length s \<and> (\<exists>c \<in> set s. c \<in> set cs))"
proof (cases "\<exists>c \<in> set s. c \<in> set cs")
  case True
  from split_list_last_prop [OF this]
  obtain xs y ys where s: "s = xs @ y # ys" and y: "y \<in> set cs" "\<forall>c \<in> set ys. c \<notin> set cs"
    by blast
  then show ?thesis by (auto simp: s find_last_of_append)
next
  case False
  then show ?thesis by (simp add: find_last_of_none)
qed

lemma string_range_Some:
  "string_range s a b = Some t \<longleftrightarrow>
     0 \<le> a \<and> a \<le> b \<and> b \<le> int (length s) \<and> t = take (nat (b - a)) (drop (nat a) s)"
  by (auto simp: string_range_def)

lemma string_range_prefix: "n \<le> length s \<Longrightarrow> string_range s 0 (int n) = Some (take n s)"
  by (simp add: string_range_def)

lemma string_range_mid:
  "length xs = a \<Longrightarrow> b = a + length ys \<Longrightarrow>
   string_range (xs @ ys @ zs) (int a) (int b) = Some ys"
  by (simp add: string_range_def)

lemma last_four:
  assumes "length h > 3"
  shows "\<exists>p a b c d. h = p @ [a, b, c, d]"
proof -
  have "length (drop (length h - 4) h) = Suc (Suc (Suc (Suc 0)))"
    using assms by simp
  then obtain a b c d where "drop (length h - 4) h = [a, b, c, d]"
    by (auto simp only: length_Suc_conv length_0_conv)
  then show ?thesis
    by (metis append_take_drop_id)
qed

subsection \<open>Decimal output\<close>

text \<open>\<open>std::to_string\<close> of an unsigned value.\<close>

definition digit_char :: "nat \<Rightarrow> char" where
  "digit_char d = char_of (48 + d)"

fun to_string :: "nat \<Rightarrow> string" where
  "to_string n = (if n < 10 then [digit_char n] else to_string (n div 10) @ [digit_char (n mod 10)])"

declare to_string.simps [simp del]

definition string_value :: "string \<Rightarrow> nat" where
  "string_value s = foldl (\<lambda>v c. 10 * v + (of_char c - 48)) 0 s"

lemma of_char_digit_char: "d < 10 \<Longrightarrow> (of_char (digit_char d) :: nat) = 48 + d"
  by (simp add: digit_char_def)

lemma string_value_to_string [simp]: "string_value (to_string n) = n"
proof (induction n rule: to_string.induct)
  case (1 n)
  show ?case
  proof (cases "n < 10")
    case True
    then show ?thesis
      by (simp add: to_string.simps [of n] string_value_def of_char_digit_char)
  next
    case False
    then show ?thesis using 1
      by (simp add: to_string.simps [of n] string_value_def of_char_digit_char)
  qed
qed

lemma to_string_inject [simp]: "to_string m = to_string n \<longleftrightarrow> m = n"
  by (metis string_value_to_string)

lemma to_string_digits: "c \<in> set (to_string n) \<Longrightarrow> 48 \<le> (of_char c :: nat) \<and> of_char c < (58 :: nat)"
proof (induction n rule: to_string.induct)
  case (1 n)
  then show ?case
    by (cases "n < 10") (auto simp: to_string.simps [of n] of_char_digit_char)
qed

end
