(* ===== verification/Http_Session.thy ===== *)
theory Http_Session
  imports Dev_Prelude
begin

text \<open>
  The data of one client request: \<open>HTTP_Header_parser\<close> (http_header_parser.h and .cpp)
  and \<open>ClientSession\<close> (clientsession.h and .cpp). Qt is not part of the repository, so
  the Qt functions the server calls are the fields of the record \<open>qt_env\<close>, a
  parameter of every definition that uses them; a \<open>QString\<close> is a list of UTF-16 units.
\<close>

subsection \<open>The Qt functions and the file system behind them\<close>

type_synonym qstring = "16 word list"

record file_info =
  absoluteFilePath :: qstring
  fileName :: qstring
  isDir :: bool

record qt_env =
  fromStdString :: "string \<Rightarrow> qstring"
  toStdString :: "qstring \<Rightarrow> string"
  q_replace :: "qstring \<Rightarrow> qstring \<Rightarrow> qstring \<Rightarrow> qstring"
  toHtmlEscaped :: "qstring \<Rightarrow> qstring"
  fromNativeSeparators :: "qstring \<Rightarrow> qstring"
  existsFile :: "qstring \<Rightarrow> qstring \<Rightarrow> bool"
  mimeName :: "qstring \<Rightarrow> qstring \<Rightarrow> string"
  fileSize :: "qstring \<Rightarrow> qstring \<Rightarrow> int"
  fileRead :: "qstring \<Rightarrow> qstring \<Rightarrow> int \<Rightarrow> nat \<Rightarrow> string"
  setCurrent :: "qstring \<Rightarrow> qstring \<Rightarrow> qstring option"
  entryInfoList :: "qstring \<Rightarrow> file_info list"

text \<open>
  The functions on files and directories take the process's current directory first.
  \<open>existsFile\<close> is \<open>check_file.exists() && check_file.isFile()\<close>, \<open>fileRead cwd p pos n\<close>
  the bytes a read of \<open>n\<close> bytes at \<open>pos\<close> delivers (fewer at the end of the file, none
  when the file could not be opened), \<open>setCurrent\<close> the new current directory or None
  when the change failed.
\<close>

subsection \<open>The request parser\<close>

record http_header_parser =
  request_header :: string
  request_path :: qstring
  is_dirty :: bool

definition new_HTTP_Header_parser :: http_header_parser where
  "new_HTTP_Header_parser = \<lparr>request_header = [], request_path = [], is_dirty = True\<rparr>"

definition CRLF :: string where
  "CRLF = [CHR 0x0D, CHR 0x0A]"

text \<open>
  \<open>HTTP_Header_parser::parse\<close>: None where the code builds a string from an iterator
  range that is not a range of the string (undefined behaviour; in practice
  \<open>std::length_error\<close> or a crash).
\<close>

definition parse :: "'m qt_env_scheme \<Rightarrow> http_header_parser \<Rightarrow> (int \<times> http_header_parser) option" where
  "parse qt p =
     (if is_dirty p then do {
        let request = request_header p;
        let rv = int_of_size (find_first_of request CRLF);
        get_line \<leftarrow> string_range request 4 (rv - 1);
        let last_space = int_of_size (find_last_of get_line '' '');
        url \<leftarrow> string_range get_line 0 last_space;
        Some (0, p\<lparr>request_path :=
                     q_replace qt (fromStdString qt url) (fromStdString qt ''%20'')
                       (fromStdString qt '' ''),
                   is_dirty := False\<rparr>)
      } else Some (0, p))"

subsection \<open>The client session\<close>

record client_session =
  socket :: int
  fds_index :: int
  keep_alive :: bool
  ewouldblock_flag :: bool
  send_message :: string
  send_message_has_more_bytes :: bool
  send_message_index :: int
  send_message_header_size :: int
  request :: http_header_parser
  cache_iterator :: "qstring option"
  is_cached :: bool

text \<open>
  The default member initialisers of the class. \<open>socket\<close> is left uninitialised by the
  constructor and is its argument here; \<open>cache_iterator\<close> is the key the iterator
  points at, None for \<open>end()\<close> and for the singular iterator of a new session.
\<close>

definition new_ClientSession :: "int \<Rightarrow> client_session" where
  "new_ClientSession sd =
     \<lparr>socket = sd, fds_index = 0, keep_alive = True, ewouldblock_flag = False,
      send_message = [], send_message_has_more_bytes = False, send_message_index = 0,
      send_message_header_size = 0, request = new_HTTP_Header_parser,
      cache_iterator = None, is_cached = False\<rparr>"

text \<open>A session as the poll thread hands it on: nothing sent, nothing parsed yet.\<close>

definition fresh_session :: "client_session \<Rightarrow> bool" where
  "fresh_session s \<longleftrightarrow> keep_alive s \<and> \<not> ewouldblock_flag s \<and> send_message s = [] \<and>
     \<not> send_message_has_more_bytes s \<and> send_message_index s = 0 \<and>
     send_message_header_size s = 0 \<and> \<not> is_cached s \<and> is_dirty (request s)"

lemma fresh_new_ClientSession [simp]: "fresh_session (new_ClientSession sd)"
  by (simp add: fresh_session_def new_ClientSession_def new_HTTP_Header_parser_def)

lemma fresh_session_header [simp]:
  "fresh_session (s\<lparr>request := (request s)\<lparr>request_header := h\<rparr>\<rparr>) = fresh_session s"
  "fresh_session (s\<lparr>fds_index := i\<rparr>) = fresh_session s"
  by (simp_all add: fresh_session_def)

subsection \<open>What the parser computes\<close>

text \<open>
  The request line the parser can cut: its first CR or LF is at index 5 or later and a
  space lies between index 4 and the character before the last one of the line (the code
  drops that character, \<open>rv - 1\<close>).
\<close>

definition request_line_ok :: "string \<Rightarrow> bool" where
  "request_line_ok h =
     (let i = find_first_of h CRLF
      in i \<noteq> npos \<and> 5 \<le> i \<and> CHR '' '' \<in> set (take (i - 5) (drop 4 h)))"

lemma string_range_line:
  assumes "5 \<le> i" "i < length h" "i < 2 ^ 31"
  shows "string_range h 4 (int_of_size i - 1) = Some (take (i - 5) (drop 4 h))"
proof -
  have eq: "int_of_size i = int i"
    using assms(3) by (rule int_of_size_small)
  have "nat (int i - 1 - 4) = i - 5"
    using assms(1) by simp
  then show ?thesis
    using assms(1,2) unfolding eq by (simp add: string_range_def)
qed

lemma find_last_of_int:
  assumes "length l < 2 ^ 31"
  shows "int_of_size (find_last_of l cs) = -1 \<and> (\<forall>c \<in> set l. c \<notin> set cs) \<or>
         int_of_size (find_last_of l cs) = int (find_last_of l cs) \<and>
         find_last_of l cs < length l \<and> (\<exists>c \<in> set l. c \<in> set cs)"
proof (cases "\<exists>c \<in> set l. c \<in> set cs")
  case True
  from split_list_last_prop [OF this]
  obtain xs y ys where l: "l = xs @ y # ys" and y: "y \<in> set cs" "\<forall>c \<in> set ys. c \<notin> set cs"
    by blast
  then have "find_last_of l cs = length xs" by (simp add: find_last_of_append)
  then show ?thesis using assms l y by (auto simp: int_of_size_small)
next
  case False
  then show ?thesis by (simp add: find_last_of_none)
qed

lemma string_range_last_space:
  assumes "length l < 2 ^ 31"
  shows "(string_range l 0 (int_of_size (find_last_of l '' '')) \<noteq> None) = (CHR '' '' \<in> set l)"
  using find_last_of_int [OF assms, of "'' ''"] by (elim disjE) (auto simp: string_range_def)

lemma parse_clean: "\<not> is_dirty p \<Longrightarrow> parse qt p = Some (0, p)"
  by (simp add: parse_def)

lemma parse_result_clean: "parse qt p = Some (rv, q) \<Longrightarrow> parse qt q = Some (0, q)"
  by (auto simp: parse_def Let_def bind_eq_Some_conv split: if_splits)

text \<open>
  On a well-formed request line the parser returns the part between the method and
  the last space, with percent-20 replaced through Qt, and marks the header clean. The
  path may contain spaces, and the last character of the version is dropped unread.
\<close>

lemma parse_get_line:
  assumes dirty: "is_dirty p"
    and hdr: "request_header p = ''GET '' @ path @ '' '' @ version @ [c] @ CRLF @ rest"
    and path: "\<forall>x \<in> set path. x \<notin> set CRLF"
    and version: "\<forall>x \<in> set version. x \<notin> set CRLF \<and> x \<noteq> CHR '' ''"
    and c: "c \<notin> set CRLF"
    and len: "length (request_header p) < 2 ^ 31"
  shows "parse qt p =
    Some (0, p\<lparr>request_path := q_replace qt (fromStdString qt path) (fromStdString qt ''%20'')
                                (fromStdString qt '' ''),
               is_dirty := False\<rparr>)"
proof -
  let ?line = "''GET '' @ path @ '' '' @ version @ [c]"
  let ?h = "request_header p"
  have first: "find_first_of ?h CRLF = length ?line"
  proof -
    have "\<forall>x \<in> set ?line. x \<notin> set CRLF"
      using path version c by (auto simp: CRLF_def)
    moreover have "?h = ?line @ CHR 0x0D # ([CHR 0x0A] @ rest)"
      by (simp add: hdr CRLF_def)
    ultimately show ?thesis
      by (metis find_first_of_append CRLF_def list.set_intros(1))
  qed
  have i: "length ?line < length ?h" by (simp add: hdr CRLF_def)
  have cut: "take (length ?line - 5) (drop 4 ?h) = path @ '' '' @ version"
    by (simp add: hdr)
  have range: "string_range ?h 4 (int_of_size (find_first_of ?h CRLF) - 1) = Some (path @ '' '' @ version)"
    using string_range_line [of "length ?line" ?h] i len unfolding first cut by simp
  have last: "find_last_of (path @ '' '' @ version) '' '' = length path"
    using version find_last_of_append [of version "'' ''" "CHR '' ''" path] by auto
  have small: "length path < 2 ^ 31" using len by (simp add: hdr)
  have url: "string_range (path @ '' '' @ version) 0
               (int_of_size (find_last_of (path @ '' '' @ version) '' '')) = Some path"
    unfolding last int_of_size_small [OF small] by (simp add: string_range_prefix)
  show ?thesis
    unfolding parse_def Let_def using dirty range url by simp
qed

text \<open>
  C36: exactly the requests whose first line is \<open>request_line_ok\<close> are parsed; on every
  other complete request (for instance an empty line) the parser builds a string from a
  reversed iterator range.
\<close>

lemma parse_defined_iff:
  assumes dirty: "is_dirty p" and len: "length (request_header p) < 2 ^ 31"
  shows "(parse qt p \<noteq> None) = request_line_ok (request_header p)"
proof -
  let ?h = "request_header p" and ?i = "find_first_of (request_header p) CRLF"
  consider "?i = npos" | "?i \<noteq> npos" "?i < length ?h" "?i < 5" | "?i \<noteq> npos" "?i < length ?h" "5 \<le> ?i"
    using find_first_of_le [of ?h CRLF] by linarith
  then show ?thesis
  proof cases
    case 1
    then show ?thesis using dirty
      by (simp add: parse_def request_line_ok_def string_range_def)
  next
    case 2
    then have "int_of_size ?i = int ?i" by (simp add: int_of_size_small)
    then show ?thesis using dirty 2
      by (simp add: parse_def request_line_ok_def string_range_def)
  next
    case 3
    let ?l = "take (?i - 5) (drop 4 ?h)"
    have r: "string_range ?h 4 (int_of_size ?i - 1) = Some ?l"
      using 3 len by (intro string_range_line) simp_all
    have l: "length ?l < 2 ^ 31" using len by simp
    let ?u = "string_range ?l 0 (int_of_size (find_last_of ?l '' ''))"
    have "(?u \<noteq> None) = (CHR '' '' \<in> set ?l)"
      using l by (rule string_range_last_space)
    moreover have "(parse qt p \<noteq> None) = (?u \<noteq> None)"
      using dirty r by (cases ?u) (simp_all add: parse_def)
    moreover have "request_line_ok ?h = (CHR '' '' \<in> set ?l)"
      using 3 by (simp add: request_line_ok_def)
    ultimately show ?thesis by simp
  qed
qed

subsection \<open>Instances\<close>

text \<open>
  A concrete environment, in which the theorems are applied to a request: file names are
  not translated, there is one file, \<open>/a\<close>, with the given content, and one directory.
\<close>

definition sample_qt :: "string \<Rightarrow> qt_env" where
  "sample_qt content =
     \<lparr>fromStdString = (\<lambda>s. map (\<lambda>c. word_of_nat (of_char c)) s),
      toStdString = (\<lambda>q. map (\<lambda>w. char_of (unat w)) q),
      q_replace = (\<lambda>s a b. s), toHtmlEscaped = (\<lambda>s. s), fromNativeSeparators = (\<lambda>s. s),
      existsFile = (\<lambda>d p. p = [47, 97]), mimeName = (\<lambda>d p. ''text/plain''),
      fileSize = (\<lambda>d p. int (length content)), fileRead = (\<lambda>d p pos n. take n (drop (nat pos) content)),
      setCurrent = (\<lambda>d p. None), entryInfoList = (\<lambda>d. [])\<rparr>"

definition sample_header :: http_header_parser where
  "sample_header = new_HTTP_Header_parser\<lparr>request_header := ''GET /a HTTP/1.1'' @ CRLF @ CRLF\<rparr>"

lemma parse_sample: "parse (sample_qt content) sample_header =
    Some (0, sample_header\<lparr>request_path := [47, 97], is_dirty := False\<rparr>)"
proof -
  have i: "find_first_of (request_header sample_header) CRLF = 15"
    by (simp add: sample_header_def CRLF_def find_first_of_def)
  have l: "find_last_of ''/a HTTP/1.'' '' '' = 2"
    by (simp add: find_last_of_def)
  have h: "request_header sample_header = ''GET /a HTTP/1.1'' @ CRLF @ CRLF" "is_dirty sample_header"
    by (simp_all add: sample_header_def new_HTTP_Header_parser_def)
  show ?thesis
    unfolding parse_def Let_def i
    by (simp add: h string_range_def int_of_size_small CRLF_def l sample_qt_def)
qed

lemma parse_get_line_witness:
  "parse (sample_qt []) sample_header =
     Some (0, sample_header\<lparr>request_path := q_replace (sample_qt []) (fromStdString (sample_qt []) ''/a'')
                (fromStdString (sample_qt []) ''%20'') (fromStdString (sample_qt []) '' ''), is_dirty := False\<rparr>)"
  by (rule parse_get_line [where path = "''/a''" and version = "''HTTP/1.''" and c = "CHR ''1''" and rest = CRLF])
    (simp_all add: sample_header_def new_HTTP_Header_parser_def CRLF_def)

lemma parse_defined_iff_witness:
  "parse (sample_qt []) (new_HTTP_Header_parser\<lparr>request_header := CRLF @ CRLF\<rparr>) = None"
  using parse_defined_iff [of "new_HTTP_Header_parser\<lparr>request_header := CRLF @ CRLF\<rparr>" "sample_qt []"]
  by (simp add: new_HTTP_Header_parser_def CRLF_def request_line_ok_def find_first_of_def del: not_None_eq)

end
