(* ===== verification/Message_Composer.thy ===== *)
theory Message_Composer
  imports Http_Session
begin

text \<open>
  \<open>MessageComposer\<close> (message_composer.cpp, the do-nothing base class) and
  \<open>HTML_MessageComposer\<close> (html_messagecomposer.cpp), which collects the fragments of a
  request per socket until the request ends with an empty line and then hands the
  session to the message processor. The locale \<open>data_sink\<close> is the virtual interface the
  poll server calls; both classes are instances of it.
\<close>

subsection \<open>State and operations\<close>

text \<open>
  \<open>messages\<close> is the map from socket to partial session; \<open>outbox\<close> the sessions passed to
  \<open>msg_processor_->onNewClientMessage\<close>, in the order of the calls.
\<close>

record composer =
  messages :: "int \<rightharpoonup> client_session"
  outbox :: "client_session list"

definition new_composer :: composer where
  "new_composer = \<lparr>messages = Map.empty, outbox = []\<rparr>"

text \<open>
  \<open>verifyMessageComplete\<close>, called with an iterator to an existing entry, here its key
  and value.
\<close>

definition ends_with_empty_line :: "string \<Rightarrow> bool" where
  "ends_with_empty_line h \<longleftrightarrow>
     length h > 3 \<and> h ! (length h - 1) = CHR 0x0A \<and> h ! (length h - 2) = CHR 0x0D \<and>
     h ! (length h - 3) = CHR 0x0A \<and> h ! (length h - 4) = CHR 0x0D"

definition verifyMessageComplete :: "int \<Rightarrow> client_session \<Rightarrow> composer \<Rightarrow> bool \<times> composer" where
  "verifyMessageComplete sd s c =
     (if ends_with_empty_line (request_header (request s))
      then (True, c\<lparr>messages := (messages c)(sd := None), outbox := outbox c @ [s]\<rparr>)
      else (False, c))"

text \<open>
  \<open>onClientDataArrived\<close>: the first fragment copies \<open>data_size\<close> bytes of the receive
  buffer, every later fragment the whole buffer (\<open>data.begin()\<close> to \<open>data.end()\<close>).
\<close>

definition onClientDataArrived ::
  "int \<Rightarrow> int \<Rightarrow> string \<Rightarrow> nat \<Rightarrow> composer \<Rightarrow> composer" where
  "onClientDataArrived sd idx data data_size c =
     (case messages c sd of
        None \<Rightarrow>
          let tmp = new_ClientSession sd;
              tmp = tmp\<lparr>fds_index := idx\<rparr>;
              tmp = tmp\<lparr>request := (request tmp)\<lparr>request_header :=
                       request_header (request tmp) @ take data_size data\<rparr>\<rparr>
          in snd (verifyMessageComplete sd tmp (c\<lparr>messages := (messages c)(sd \<mapsto> tmp)\<rparr>))
      | Some stored \<Rightarrow>
          let stored = stored\<lparr>request := (request stored)\<lparr>request_header :=
                       request_header (request stored) @ data\<rparr>\<rparr>
          in snd (verifyMessageComplete sd stored (c\<lparr>messages := (messages c)(sd \<mapsto> stored)\<rparr>)))"

text \<open>The two notification methods have empty bodies in both classes.\<close>

definition onNewClientConnect :: "composer \<Rightarrow> composer" where
  "onNewClientConnect c = c"

definition onClientDisconnect :: "composer \<Rightarrow> composer" where
  "onClientDisconnect c = c"

definition base_onClientDataArrived ::
  "int \<Rightarrow> int \<Rightarrow> string \<Rightarrow> nat \<Rightarrow> composer \<Rightarrow> composer" where
  "base_onClientDataArrived sd idx data data_size c = c"

subsection \<open>The interface of the poll server\<close>

text \<open>
  What the poll server relies on: data of one socket neither changes the partial request
  of another socket nor takes back a session already handed on.
\<close>

locale data_sink =
  fixes on_data :: "int \<Rightarrow> int \<Rightarrow> string \<Rightarrow> nat \<Rightarrow> 's \<Rightarrow> 's"
    and partial :: "'s \<Rightarrow> int \<Rightarrow> client_session option"
    and handed :: "'s \<Rightarrow> client_session list"
  assumes on_data_other: "sd' \<noteq> sd \<Longrightarrow> partial (on_data sd i buf n st) sd' = partial st sd'"
    and on_data_handed: "\<exists>new. handed (on_data sd i buf n st) = handed st @ new"
begin

text \<open>A run of the interface over the reads of one socket.\<close>

lemma fold_other:
  "sd' \<noteq> sd \<Longrightarrow> partial (fold (\<lambda>(buf, n). on_data sd i buf n) reads st) sd' = partial st sd'"
  by (induction reads arbitrary: st) (auto simp: on_data_other)

lemma fold_handed:
  "\<exists>new. handed (fold (\<lambda>(buf, n). on_data sd i buf n) reads st) = handed st @ new"
proof (induction reads arbitrary: st)
  case Nil
  then show ?case by simp
next
  case (Cons r reads)
  obtain buf n where r: "r = (buf, n)" by force
  from on_data_handed obtain a where "handed (on_data sd i buf n st) = handed st @ a" by blast
  moreover from Cons.IH obtain b where
    "handed (fold (\<lambda>(buf, n). on_data sd i buf n) reads (on_data sd i buf n st)) =
     handed (on_data sd i buf n st) @ b" by blast
  ultimately show ?case by (simp add: r)
qed

end

interpretation base_sink: data_sink base_onClientDataArrived messages outbox
  by unfold_locales (simp_all add: base_onClientDataArrived_def)

interpretation html_sink: data_sink onClientDataArrived messages outbox
  by unfold_locales
    (auto simp: onClientDataArrived_def verifyMessageComplete_def Let_def split: option.split)

subsection \<open>Behaviour on every branch\<close>

lemma onClientDataArrived_None:
  assumes "messages c sd = None"
  shows "onClientDataArrived sd idx data n c =
    (let s = (new_ClientSession sd)\<lparr>fds_index := idx,
               request := new_HTTP_Header_parser\<lparr>request_header := take n data\<rparr>\<rparr>
     in if ends_with_empty_line (take n data)
        then c\<lparr>messages := (messages c)(sd := None), outbox := outbox c @ [s]\<rparr>
        else c\<lparr>messages := (messages c)(sd \<mapsto> s)\<rparr>)"
  using assms
  by (auto simp: onClientDataArrived_def verifyMessageComplete_def Let_def
      new_ClientSession_def new_HTTP_Header_parser_def)

lemma onClientDataArrived_Some:
  assumes "messages c sd = Some s"
  shows "onClientDataArrived sd idx data n c =
    (let s' = s\<lparr>request := (request s)\<lparr>request_header := request_header (request s) @ data\<rparr>\<rparr>
     in if ends_with_empty_line (request_header (request s) @ data)
        then c\<lparr>messages := (messages c)(sd := None), outbox := outbox c @ [s']\<rparr>
        else c\<lparr>messages := (messages c)(sd \<mapsto> s')\<rparr>)"
  using assms by (auto simp: onClientDataArrived_def verifyMessageComplete_def Let_def)

lemma ends_with_empty_line_append:
  "length ys > 3 \<Longrightarrow> ends_with_empty_line (xs @ ys) = ends_with_empty_line ys"
  by (auto simp: ends_with_empty_line_def nth_append)

lemma ends_with_empty_line_iff:
  "ends_with_empty_line h \<longleftrightarrow> (\<exists>p. h = p @ CRLF @ CRLF)"
proof
  assume h: "ends_with_empty_line h"
  then have "length h > 3" by (simp add: ends_with_empty_line_def)
  then obtain p a b c d where "h = p @ [a, b, c, d]"
    using last_four by blast
  with h have "h = p @ CRLF @ CRLF"
    by (simp add: ends_with_empty_line_def CRLF_def nth_append)
  then show "\<exists>p. h = p @ CRLF @ CRLF" by blast
next
  assume "\<exists>p. h = p @ CRLF @ CRLF"
  then show "ends_with_empty_line h"
    by (auto simp: ends_with_empty_line_def CRLF_def nth_append)
qed

text \<open>
  The invariant of the collected fragments: the partial session of a socket belongs to
  that socket, has not been touched by a dispatcher and is not yet a whole request;
  everything handed on is a fresh session whose request ends with an empty line.
\<close>

definition composer_inv :: "composer \<Rightarrow> bool" where
  "composer_inv c \<longleftrightarrow>
     (\<forall>sd s. messages c sd = Some s \<longrightarrow>
        socket s = sd \<and> fresh_session s \<and> \<not> ends_with_empty_line (request_header (request s))) \<and>
     (\<forall>s \<in> set (outbox c). fresh_session s \<and> ends_with_empty_line (request_header (request s)))"

lemma composer_inv_new: "composer_inv new_composer"
  by (simp add: composer_inv_def new_composer_def)

lemma fresh_arrived [simp]:
  "fresh_session ((new_ClientSession sd)\<lparr>fds_index := i,
     request := new_HTTP_Header_parser\<lparr>request_header := h\<rparr>\<rparr>)"
  by (simp add: fresh_session_def new_ClientSession_def new_HTTP_Header_parser_def)

lemma socket_new_ClientSession [simp]: "socket (new_ClientSession sd) = sd"
  by (simp add: new_ClientSession_def)

text \<open>
  The composer invariant is kept by every arrival of data, whatever the buffer holds.
\<close>

lemma onClientDataArrived_inv:
  assumes "composer_inv c"
  shows "composer_inv (onClientDataArrived sd idx data n c)"
proof (cases "messages c sd")
  case None
  then show ?thesis using assms
    by (auto simp: onClientDataArrived_None composer_inv_def Let_def)
next
  case (Some s)
  then have "fresh_session (s\<lparr>request := (request s)\<lparr>request_header := h\<rparr>\<rparr>)" for h
    using assms by (simp add: composer_inv_def)
  then show ?thesis using assms Some
    by (auto simp: onClientDataArrived_Some composer_inv_def Let_def)
qed

text \<open>
  A request that arrives in one read, however long the receive buffer, is handed to
  the message processor at once, with the socket and the poll index of the connection and
  exactly the bytes received, and leaves nothing behind for that socket.
\<close>

lemma single_read_delivered:
  assumes "messages c sd = None" and "take n data = req @ CRLF @ CRLF"
  shows "\<exists>s. onClientDataArrived sd idx data n c =
               c\<lparr>messages := (messages c)(sd := None), outbox := outbox c @ [s]\<rparr> \<and>
             fresh_session s \<and> socket s = sd \<and> fds_index s = idx \<and>
             request_header (request s) = req @ CRLF @ CRLF"
proof -
  have "ends_with_empty_line (take n data)"
    using assms(2) by (auto simp: ends_with_empty_line_iff)
  then show ?thesis
    using assms by (intro exI conjI)
      (auto simp: onClientDataArrived_None Let_def new_ClientSession_def new_HTTP_Header_parser_def fresh_session_def)
qed

text \<open>
  From the second read of a request on, the code looks at the whole receive buffer
  instead of the bytes received. Whatever number of bytes arrived, if the buffer itself
  does not end with an empty line the request stays incomplete, nothing is handed on,
  and the stored request grows by the size of the buffer.
\<close>

lemma later_read_ignores_size:
  assumes "messages c sd = Some s" and "length data > 3" and "\<not> ends_with_empty_line data"
  shows "outbox (onClientDataArrived sd idx data n c) = outbox c \<and>
         (\<exists>s'. messages (onClientDataArrived sd idx data n c) sd = Some s' \<and>
               request_header (request s') = request_header (request s) @ data)"
  using assms by (simp add: onClientDataArrived_Some Let_def ends_with_empty_line_append)

subsection \<open>Instances\<close>

lemma onClientDataArrived_inv_witness:
  "composer_inv (onClientDataArrived 5 1 ''GET /'' 5 new_composer)"
  by (rule onClientDataArrived_inv [OF composer_inv_new])

lemma single_read_delivered_witness:
  "\<exists>s. outbox (onClientDataArrived 5 1 (''GET /a HTTP/1.1'' @ CRLF @ CRLF @ ''zz'') 19 new_composer) = [s] \<and>
       request_header (request s) = ''GET /a HTTP/1.1'' @ CRLF @ CRLF"
  using single_read_delivered [of new_composer 5 19 "''GET /a HTTP/1.1'' @ CRLF @ CRLF @ ''zz''"
      "''GET /a HTTP/1.1''" 1]
  by (auto simp: new_composer_def CRLF_def)

lemma later_read_ignores_size_witness:
  "outbox (onClientDataArrived 5 1 (CRLF @ CRLF @ ''old'') 4
     (new_composer\<lparr>messages := [5 \<mapsto> new_ClientSession 5]\<rparr>)) = []"
  using later_read_ignores_size [of "new_composer\<lparr>messages := [5 \<mapsto> new_ClientSession 5]\<rparr>" 5
      "new_ClientSession 5" "CRLF @ CRLF @ ''old''" 1 4]
  by (simp add: new_composer_def CRLF_def ends_with_empty_line_def)

end
