(* ===== verification/Poll_Server.thy ===== *)
theory Poll_Server
  imports Message_Composer "HOL-Library.Word"
begin

unbundle bit_operations_syntax

text \<open>
  \<open>PollServer\<close> (poll_server.cpp): start-up of the listening socket, the table of polled
  descriptors and one iteration of the \<open>poll\<close> loop. The results of the system calls are
  parameters: a record per iteration, and for start-up the sign of each call. The values of the constants are
  those of Linux (\<open>EAGAIN = EWOULDBLOCK\<close>).
\<close>

subsection \<open>State\<close>

record pollfd =
  fd :: int
  events :: "16 word"
  revents :: "16 word"

definition POLLIN :: "16 word" where "POLLIN = 0x1"
definition listen_events :: "16 word" where "listen_events = 0x3D"

definition MAX_FDS :: nat where "MAX_FDS = 100000"
definition RECV_BUFFER :: nat where "RECV_BUFFER = 65535"

text \<open>
  \<open>closed\<close> is the log of the descriptors given to \<open>close\<close>. The receive buffer keeps the
  bytes of earlier reads.
\<close>

record poll_server =
  fds :: "nat \<Rightarrow> pollfd"
  nfds :: nat
  compress_array :: bool
  recv_buffer :: string
  msgComposer :: composer
  closed :: "int list"

text \<open>Failure values: \<open>exit(-1)\<close>, with the descriptors closed, and an access outside \<open>fds\<close>.\<close>

datatype fault = Exit "int list" | OutOfBounds

definition set_fd :: "nat \<Rightarrow> int \<Rightarrow> poll_server \<Rightarrow> poll_server" where
  "set_fd i d st = st\<lparr>fds := (fds st)(i := (fds st i)\<lparr>fd := d\<rparr>)\<rparr>"

definition set_revents :: "nat \<Rightarrow> 16 word \<Rightarrow> poll_server \<Rightarrow> poll_server" where
  "set_revents i r st = st\<lparr>fds := (fds st)(i := (fds st i)\<lparr>revents := r\<rparr>)\<rparr>"

definition set_events :: "nat \<Rightarrow> 16 word \<Rightarrow> poll_server \<Rightarrow> poll_server" where
  "set_events i r st = st\<lparr>fds := (fds st)(i := (fds st i)\<lparr>events := r\<rparr>)\<rparr>"

definition close_sd :: "int \<Rightarrow> poll_server \<Rightarrow> poll_server" where
  "close_sd d st = st\<lparr>closed := closed st @ [d]\<rparr>"

subsection \<open>Start-up\<close>

text \<open>
  The system calls of \<open>start\<close> up to \<open>listen\<close>: the descriptor \<open>socket\<close> returns and whether
  the others succeed. \<open>disableNagleAlgorithm\<close> ignores failure.
\<close>

record startup_env =
  socket_rc :: int
  setsockopt_ok :: bool
  ioctl_ok :: bool
  bind_ok :: bool
  listen_ok :: bool

definition start_init :: "startup_env \<Rightarrow> composer \<Rightarrow> fault + poll_server" where
  "start_init env c =
     (let listen_sd = socket_rc env in
      if listen_sd < 0 then Inl (Exit [])
      else if \<not> setsockopt_ok env then Inl (Exit [listen_sd])
      else if \<not> ioctl_ok env then Inl (Exit [listen_sd])
      else if \<not> bind_ok env then Inl (Exit [listen_sd])
      else if \<not> listen_ok env then Inl (Exit [listen_sd])
      else Inr \<lparr>fds = (\<lambda>_. \<lparr>fd = 0, events = 0, revents = 0\<rparr>)
                        (0 := \<lparr>fd = listen_sd, events = listen_events, revents = 0\<rparr>),
                nfds = 1, compress_array = False,
                recv_buffer = replicate RECV_BUFFER (CHR 0x00),
                msgComposer = c, closed = []\<rparr>)"

subsection \<open>Closing sessions\<close>

text \<open>\<open>checkClosedSessions\<close> over the queue \<open>qclients_close\<close>, which it empties.\<close>

fun checkClosedSessions :: "client_session list \<Rightarrow> poll_server \<Rightarrow> fault + poll_server" where
  "checkClosedSessions [] st = Inr st"
| "checkClosedSessions (c # cs) st =
     (if fds_index c < 0 \<or> int MAX_FDS \<le> fds_index c then Inl OutOfBounds
      else let i = nat (fds_index c) in
           if fd (fds st i) = socket c
           then checkClosedSessions cs
                  (set_events i 0 (set_revents i 0 (set_fd i (-1) (close_sd (socket c) st))))
           else checkClosedSessions cs st)"

subsection \<open>Accepting\<close>

text \<open>
  The results of the successive \<open>accept\<close> calls: the descriptor and whether making it
  non-blocking succeeds. The list is followed by a call that fails.
\<close>

fun accept_loop :: "(int \<times> bool) list \<Rightarrow> poll_server \<Rightarrow> fault + poll_server" where
  "accept_loop [] st = Inr st"
| "accept_loop ((new_sd, nonblock_ok) # rest) st =
     (if new_sd < 0 then Inr st
      else if new_sd = 0 then Inr st
      else if \<not> nonblock_ok then Inl (Exit (closed st @ [new_sd]))
      else if MAX_FDS \<le> nfds st then Inl OutOfBounds
      else let n = nfds st;
               st = set_events n POLLIN (set_fd n new_sd st)
           in accept_loop rest (st\<lparr>nfds := n + 1\<rparr>))"

subsection \<open>Receiving\<close>

text \<open>
  The data of the successive \<open>recv\<close> calls, then how the reading ends: the call would
  block, fails otherwise, or the peer has closed.
\<close>

datatype recv_stop = WouldBlock | RecvError | RecvClosed

fun recv_loop :: "nat \<Rightarrow> string list \<Rightarrow> recv_stop \<Rightarrow> poll_server \<Rightarrow> bool \<times> poll_server" where
  "recv_loop i [] stop st = (stop \<noteq> WouldBlock, st)"
| "recv_loop i (d # ds) stop st =
     (let data = take RECV_BUFFER d;
          rc = length data
      in if rc = 0 then (True, st)
         else let buf = data @ drop rc (recv_buffer st);
                  st = st\<lparr>recv_buffer := buf\<rparr>;
                  st = st\<lparr>msgComposer :=
                         onClientDataArrived (fd (fds st i)) (int i) buf rc (msgComposer st)\<rparr>
              in recv_loop i ds stop st)"

subsection \<open>One iteration\<close>

record poll_env =
  poll_rc :: int
  poll_einval :: bool
  poll_revents :: "nat \<Rightarrow> 16 word"
  accepts :: "(int \<times> bool) list"
  reads :: "nat \<Rightarrow> string list \<times> recv_stop"

definition handle_fd :: "int \<Rightarrow> poll_env \<Rightarrow> nat \<Rightarrow> poll_server \<Rightarrow> fault + poll_server" where
  "handle_fd listen_sd env i st =
     (if revents (fds st i) = 0 then Inr st
      else if revents (fds st i) AND POLLIN = 0 then
        (let st = (if fd (fds st i) > 0
                   then set_fd i (-1) (close_sd (fd (fds st i)) st) else st);
             st = st\<lparr>compress_array := True\<rparr>
         in Inr (set_revents i 0 st))
      else if fd (fds st i) = listen_sd then accept_loop (accepts env) st
      else
        (let (close_conn, st) = recv_loop i (fst (reads env i)) (snd (reads env i)) st
         in if close_conn
            then let st = (if fd (fds st i) > 0 then close_sd (fd (fds st i)) st else st);
                     st = set_revents i 0 (set_fd i (-1) st)
                 in Inr (st\<lparr>compress_array := True\<rparr>)
            else Inr st))"

fun handle_all :: "int \<Rightarrow> poll_env \<Rightarrow> nat list \<Rightarrow> poll_server \<Rightarrow> fault + poll_server" where
  "handle_all listen_sd env [] st = Inr st"
| "handle_all listen_sd env (i # is) st =
     (case handle_fd listen_sd env i st of
        Inl e \<Rightarrow> Inl e | Inr st' \<Rightarrow> handle_all listen_sd env is st')"

text \<open>
  The inner loop of the compression copies \<open>fds[j+1]\<close> to \<open>fds[j]\<close> for \<open>j\<close> from \<open>i\<close> to
  \<open>nfds - 1\<close>, so it reads \<open>fds[nfds]\<close>; the outer loop goes on at \<open>i + 1\<close>.
\<close>

function shift_loop :: "nat \<Rightarrow> nat \<Rightarrow> (nat \<Rightarrow> 'f) \<Rightarrow> nat \<Rightarrow> 'f" where
  "shift_loop j n f = (if j < n then shift_loop (j + 1) n (f(j := f (j + 1))) else f)"
  by pat_completeness auto
termination by (relation "measure (\<lambda>(j, n, f). n - j)") auto

function compress_loop :: "nat \<Rightarrow> nat \<Rightarrow> (nat \<Rightarrow> pollfd) \<Rightarrow> fault + nat \<times> (nat \<Rightarrow> pollfd)" where
  "compress_loop i n f =
     (if i < n then
        if fd (f i) = -1 then
          if MAX_FDS \<le> n then Inl OutOfBounds
          else compress_loop (i + 1) (n - 1) (shift_loop i n f)
        else compress_loop (i + 1) n f
      else Inr (n, f))"
  by pat_completeness auto
termination by (relation "measure (\<lambda>(i, n, f). n - i)") auto

declare shift_loop.simps [simp del] compress_loop.simps [simp del]

definition compress :: "poll_server \<Rightarrow> fault + poll_server" where
  "compress st =
     (if compress_array st
      then (case compress_loop 0 (nfds st) (fds st) of
              Inl e \<Rightarrow> Inl e
            | Inr (n, f) \<Rightarrow> Inr (st\<lparr>compress_array := False, nfds := n, fds := f\<rparr>))
      else Inr st)"

text \<open>
  \<open>poll\<close> writes \<open>revents\<close> when it succeeds and leaves the table alone when it fails. After
  a failure the code still scans the table.
\<close>

definition after_poll :: "poll_env \<Rightarrow> poll_server \<Rightarrow> poll_server" where
  "after_poll env st =
     (if poll_rc env < 0 then st
      else st\<lparr>fds := (\<lambda>i. if i < nfds st then (fds st i)\<lparr>revents := poll_revents env i\<rparr>
                          else fds st i)\<rparr>)"

definition poll_iteration ::
  "int \<Rightarrow> poll_env \<Rightarrow> client_session list \<Rightarrow> poll_server \<Rightarrow> fault + poll_server" where
  "poll_iteration listen_sd env qclients_close st =
     (case checkClosedSessions qclients_close (after_poll env st) of
        Inl e \<Rightarrow> Inl e
      | Inr st \<Rightarrow>
          let st = (if poll_rc env < 0 \<and> poll_einval env then st\<lparr>compress_array := True\<rparr> else st)
          in if poll_rc env = 0 then Inr st
             else (case handle_all listen_sd env [0..<nfds st] st of
                     Inl e \<Rightarrow> Inl e
                   | Inr st \<Rightarrow> compress st))"

subsection \<open>Compression\<close>

text \<open>The table as a list, and what the loops do to it.\<close>

definition table :: "poll_server \<Rightarrow> pollfd list" where
  "table st = map (fds st) [0..<nfds st]"

fun compress_list :: "pollfd list \<Rightarrow> pollfd list" where
  "compress_list [] = []"
| "compress_list (x # xs) =
     (if fd x = -1 then (case xs of [] \<Rightarrow> [] | y # ys \<Rightarrow> y # compress_list ys)
      else x # compress_list xs)"

lemma shift_loop_eq:
  "shift_loop j n f = (\<lambda>k. if j \<le> k \<and> k < n then f (k + 1) else f k)"
proof (induction j n f rule: shift_loop.induct)
  case (1 j n f)
  show ?case
  proof (cases "j < n")
    case True
    then have "shift_loop j n f = shift_loop (j + 1) n (f(j := f (j + 1)))"
      by (subst shift_loop.simps) simp
    also have "\<dots> = (\<lambda>k. if j \<le> k \<and> k < n then f (k + 1) else f k)"
      unfolding "1.IH" [OF True] using True by (rule_tac ext) auto
    finally show ?thesis .
  next
    case False
    then show ?thesis by (intro ext) (subst shift_loop.simps, auto)
  qed
qed

lemma map_shift:
  assumes "i < n"
  shows "map (shift_loop i n f) [Suc i..<n - 1] = map f [Suc (Suc i)..<n]"
proof -
  have "map (shift_loop i n f) [Suc i..<n - 1] = map (f \<circ> Suc) [Suc i..<n - 1]"
    by (auto simp: shift_loop_eq)
  also have "\<dots> = map f (map Suc [Suc i..<n - 1])" by simp
  also have "map Suc [Suc i..<n - 1] = [Suc (Suc i)..<n]"
    using assms by (cases n) (simp_all add: map_Suc_upt)
  finally show ?thesis .
qed

lemma compress_loop_list:
  assumes "n \<le> MAX_FDS" and "compress_loop i n f = Inr (n', f')" and "i \<le> n"
  shows "n' \<le> n \<and> i \<le> n' \<and> (\<forall>k < i. f' k = f k) \<and>
         map f' [i..<n'] = compress_list (map f [i..<n])"
  using assms
proof (induction i n f rule: compress_loop.induct)
  case (1 i n f)
  show ?case
  proof (cases "i < n")
    case False
    with "1.prems" have "i = n" by simp
    with "1.prems" show ?thesis by (simp add: compress_loop.simps [of n n f])
  next
    case True
    then have split: "map f [i..<n] = f i # map f [Suc i..<n]" by (simp add: upt_conv_Cons)
    show ?thesis
    proof (cases "fd (f i) = -1")
      case False
      with True "1.prems" have r: "compress_loop (i + 1) n f = Inr (n', f')"
        by (simp add: compress_loop.simps [of i n f])
      from "1.IH"(2) [OF True False "1.prems"(1) r] True
      have ih: "n' \<le> n \<and> Suc i \<le> n' \<and> (\<forall>k < Suc i. f' k = f k) \<and>
         map f' [Suc i..<n'] = compress_list (map f [Suc i..<n])" by simp
      then have "map f' [i..<n'] = f i # map f' [Suc i..<n']" by (simp add: upt_conv_Cons)
      with ih split False show ?thesis by auto
    next
      case dead: True
      let ?g = "shift_loop i n f"
      from True dead "1.prems" have cap: "\<not> MAX_FDS \<le> n"
        and r: "compress_loop (i + 1) (n - 1) ?g = Inr (n', f')"
        by (auto simp: compress_loop.simps [of i n f] split: if_splits)
      show ?thesis
      proof (cases "Suc i < n")
        case False
        with True have n: "n = Suc i" by simp
        have "compress_loop (Suc i) i g = Inr (i, g)" for g
          by (subst compress_loop.simps) simp
        with r n have "n' = i" "f' = ?g" by auto
        with n split dead show ?thesis by (simp add: shift_loop_eq)
      next
        case two: True
        then have "n - 1 \<le> MAX_FDS" "i + 1 \<le> n - 1" using "1.prems"(1) by simp_all
        from "1.IH"(1) [OF True dead cap this(1) r this(2)]
        have ih: "n' \<le> n - 1 \<and> Suc i \<le> n' \<and> (\<forall>k < Suc i. f' k = ?g k) \<and>
           map f' [Suc i..<n'] = compress_list (map ?g [Suc i..<n - 1])" by simp
        have "map f [Suc i..<n] = f (Suc i) # map f [Suc (Suc i)..<n]"
          using two by (simp add: upt_conv_Cons)
        moreover have "map f' [i..<n'] = f' i # map f' [Suc i..<n']"
          using ih by (simp add: upt_conv_Cons)
        moreover have "f' i = f (Suc i)" using ih two by (simp add: shift_loop_eq)
        ultimately show ?thesis
          using ih split dead True map_shift [OF True, of f] by (auto simp: shift_loop_eq)
      qed
    qed
  qed
qed

lemma compress_loop_returns: "n < MAX_FDS \<Longrightarrow> \<exists>r. compress_loop i n f = Inr r"
proof (induction i n f rule: compress_loop.induct)
  case (1 i n f)
  then show ?case by (subst compress_loop.simps) auto
qed

lemma compress_list_live: "filter (\<lambda>x. fd x \<noteq> -1) (compress_list xs) = filter (\<lambda>x. fd x \<noteq> -1) xs"
  by (induction xs rule: compress_list.induct) (auto split: list.split)

lemma compress_list_set: "set (compress_list xs) \<subseteq> set xs"
  by (induction xs rule: compress_list.induct) (auto split: list.split)

lemma compress_table:
  assumes "compress_array st" and "nfds st < MAX_FDS"
  shows "\<exists>st'. compress st = Inr st' \<and> table st' = compress_list (table st) \<and>
               \<not> compress_array st' \<and> nfds st' \<le> nfds st \<and> closed st' = closed st \<and>
               msgComposer st' = msgComposer st"
proof -
  obtain n f where r: "compress_loop 0 (nfds st) (fds st) = Inr (n, f)"
    using compress_loop_returns [OF assms(2), of 0 "fds st"] by auto
  with compress_loop_list [OF _ r] assms show ?thesis
    by (simp add: compress_def table_def)
qed

text \<open>
  C27: on a table that is not full the compression returns, keeps the live descriptors in
  their order and is the list function that drops a dead entry and skips the next one.
\<close>

lemma compress_keeps_live:
  assumes "compress_array st" and "nfds st < MAX_FDS"
  shows "\<exists>st'. compress st = Inr st' \<and> table st' = compress_list (table st) \<and>
    filter (\<lambda>x. fd x \<noteq> -1) (table st') = filter (\<lambda>x. fd x \<noteq> -1) (table st) \<and>
    \<not> compress_array st'"
  using compress_table [OF assms] by (auto simp: compress_list_live)

lemma compress_list_no_adjacent:
  "(\<forall>k. Suc k < length xs \<longrightarrow> fd (xs ! k) = -1 \<longrightarrow> fd (xs ! Suc k) \<noteq> -1) \<Longrightarrow>
   \<forall>x \<in> set (compress_list xs). fd x \<noteq> -1"
proof (induction xs rule: compress_list.induct)
  case 1
  then show ?case by simp
next
  case (2 x xs)
  have tl: "\<forall>k. Suc k < length xs \<longrightarrow> fd (xs ! k) = -1 \<longrightarrow> fd (xs ! Suc k) \<noteq> -1"
    using "2.prems" by (metis Suc_less_eq length_Cons nth_Cons_Suc)
  show ?case
  proof (cases "fd x = -1")
    case False
    with "2.IH"(2) [OF False tl] show ?thesis by simp
  next
    case True
    show ?thesis
    proof (cases xs)
      case (Cons y ys)
      have y: "fd y \<noteq> -1" using "2.prems" True Cons
        by (metis Suc_less_eq length_Cons nth_Cons_0 nth_Cons_Suc zero_less_Suc)
      have "\<forall>k. Suc k < length ys \<longrightarrow> fd (ys ! k) = -1 \<longrightarrow> fd (ys ! Suc k) \<noteq> -1"
        using tl Cons by (metis Suc_less_eq length_Cons nth_Cons_Suc)
      with "2.IH"(1) [OF True Cons] y True Cons show ?thesis by simp
    qed (use True in simp)
  qed
qed

text \<open>
  Two neighbouring dead entries are not both removed: after a dead entry is squeezed
  out the loop steps over the entry moved into its place, so the second one stays in the
  table with the flag cleared.
\<close>

lemma adjacent_dead_survives:
  assumes "compress_array st" and "nfds st < MAX_FDS"
    and "table st = xs @ [x, y] @ ys" and "fd x = -1" and "fd y = -1"
    and "\<forall>z \<in> set xs. fd z \<noteq> -1"
  shows "\<exists>st'. compress st = Inr st' \<and> table st' = xs @ y # compress_list ys \<and>
               \<not> compress_array st'"
proof -
  have "compress_list (zs @ [x, y] @ ys) = zs @ y # compress_list ys"
    if "\<forall>z \<in> set zs. fd z \<noteq> -1" for zs
    using that assms(4) by (induction zs) auto
  with compress_table [OF assms(1,2)] assms(3,6) show ?thesis by auto
qed

subsection \<open>Live descriptors\<close>

definition live :: "poll_server \<Rightarrow> int list" where
  "live st = filter (\<lambda>d. d \<noteq> -1) (map fd (table st))"

text \<open>
  The invariant of the table: it fits, live descriptors are positive and occur once, and
  the entries behind the table are unused.
\<close>

definition table_ok :: "poll_server \<Rightarrow> bool" where
  "table_ok st \<longleftrightarrow> nfds st \<le> MAX_FDS \<and> distinct (live st) \<and> (\<forall>d \<in> set (live st). 0 < d) \<and>
     (\<forall>i \<ge> nfds st. fd (fds st i) = 0)"

text \<open>
  How a part of an iteration changes the table, when the kernel returns the new
  descriptors \<open>A\<close>: what it closes, it closes once and no longer polls, and no descriptor
  is forgotten without having been closed.
\<close>

definition evolves :: "poll_server \<Rightarrow> int set \<Rightarrow> poll_server \<Rightarrow> bool" where
  "evolves st A st' \<longleftrightarrow> table_ok st' \<and>
     (\<exists>cl. closed st' = closed st @ cl \<and> distinct cl \<and> set cl \<subseteq> set (live st) \<union> A \<and>
        set cl \<inter> set (live st') = {} \<and> set (live st') \<subseteq> set (live st) \<union> A \<and>
        set (live st) \<subseteq> set (live st') \<union> set cl)"

lemma evolves_refl: "table_ok st \<Longrightarrow> evolves st A st"
  by (auto simp: evolves_def)

lemma evolves_same:
  "table_ok st' \<Longrightarrow> closed st' = closed st \<Longrightarrow> set (live st') = set (live st) \<Longrightarrow> evolves st A st'"
  by (auto simp: evolves_def)

lemma evolves_trans_left:
  assumes "evolves st A st1" and "evolves st1 {} st2"
  shows "evolves st A st2"
proof -
  from assms(1) obtain c1 where 1: "closed st1 = closed st @ c1" "distinct c1"
    "set c1 \<subseteq> set (live st) \<union> A" "set c1 \<inter> set (live st1) = {}"
    "set (live st1) \<subseteq> set (live st) \<union> A" "set (live st) \<subseteq> set (live st1) \<union> set c1"
    by (auto simp: evolves_def)
  from assms(2) obtain c2 where 2: "closed st2 = closed st1 @ c2" "distinct c2" "table_ok st2"
    "set c2 \<subseteq> set (live st1)" "set c2 \<inter> set (live st2) = {}"
    "set (live st2) \<subseteq> set (live st1)" "set (live st1) \<subseteq> set (live st2) \<union> set c2"
    by (auto simp: evolves_def)
  show ?thesis unfolding evolves_def
  proof (intro conjI exI [of _ "c1 @ c2"])
    have "set c1 \<inter> set c2 = {}" using 1(3,4) 2(4) by blast
    with 1(2) 2(2) show "distinct (c1 @ c2)" by simp
    show "set (c1 @ c2) \<inter> set (live st2) = {}" unfolding set_append
      using 1(3,4) 2(5,6) by blast
  qed (use 1 2 in auto)
qed

lemma evolves_trans_right:
  assumes "evolves st {} st1" and "evolves st1 A st2" and "A \<inter> set (live st) = {}"
  shows "evolves st A st2"
proof -
  from assms(1) obtain c1 where 1: "closed st1 = closed st @ c1" "distinct c1"
    "set c1 \<subseteq> set (live st)" "set c1 \<inter> set (live st1) = {}"
    "set (live st1) \<subseteq> set (live st)" "set (live st) \<subseteq> set (live st1) \<union> set c1"
    by (auto simp: evolves_def)
  from assms(2) obtain c2 where 2: "closed st2 = closed st1 @ c2" "distinct c2" "table_ok st2"
    "set c2 \<subseteq> set (live st1) \<union> A" "set c2 \<inter> set (live st2) = {}"
    "set (live st2) \<subseteq> set (live st1) \<union> A" "set (live st1) \<subseteq> set (live st2) \<union> set c2"
    by (auto simp: evolves_def)
  show ?thesis unfolding evolves_def
  proof (intro conjI exI [of _ "c1 @ c2"])
    have "set c1 \<inter> set c2 = {}" using 1(3,4) 2(4) assms(3) by blast
    with 1(2) 2(2) show "distinct (c1 @ c2)" by simp
    show "set (c1 @ c2) \<inter> set (live st2) = {}" unfolding set_append
      using 1(3,4) 2(5,6) assms(3) by blast
  qed (use 1 2 in auto)
qed

lemma live_cong:
  assumes "nfds st' = nfds st" and "\<forall>i < nfds st. fd (fds st' i) = fd (fds st i)"
  shows "live st' = live st"
proof -
  have "map fd (table st') = map fd (table st)" using assms by (simp add: table_def)
  then show ?thesis by (simp add: live_def)
qed

lemma table_split:
  assumes "i < nfds st"
  shows "table st = map (fds st) [0..<i] @ fds st i # map (fds st) [Suc i..<nfds st]"
proof -
  have "[0..<nfds st] = [0..<i] @ [i..<nfds st]"
    using assms by (metis le_add_same_cancel1 less_imp_le_nat upt_add_eq_append
        ordered_cancel_comm_monoid_diff_class.add_diff_inverse zero_le)
  also have "[i..<nfds st] = i # [Suc i..<nfds st]" using assms by (rule upt_conv_Cons)
  finally show ?thesis by (simp add: table_def)
qed

text \<open>Killing entry \<open>i\<close> removes exactly its descriptor from the live ones.\<close>

lemma live_kill:
  assumes "i < nfds st" and "distinct (live st)"
    and "nfds st' = nfds st" and "\<forall>k < nfds st. fd (fds st' k) = (if k = i then -1 else fd (fds st k))"
  shows "live st' = remove1 (fd (fds st i)) (live st) \<and> distinct (live st')"
proof -
  let ?l = "filter (\<lambda>d. d \<noteq> -1) (map (fd \<circ> fds st) [0..<i])"
  let ?r = "filter (\<lambda>d. d \<noteq> -1) (map (fd \<circ> fds st) [Suc i..<nfds st])"
  have a: "live st = ?l @ (if fd (fds st i) = -1 then [] else [fd (fds st i)]) @ ?r"
    by (simp add: live_def table_split [OF assms(1)])
  have l: "map (fd \<circ> fds st') [0..<i] = map (fd \<circ> fds st) [0..<i]"
    "map (fd \<circ> fds st') [Suc i..<nfds st] = map (fd \<circ> fds st) [Suc i..<nfds st]"
    using assms(1,4) by auto
  have b: "live st' = ?l @ ?r"
    using assms(1,3,4) table_split [of i st'] by (simp add: live_def l)
  from assms(2) show ?thesis unfolding a b
    by (auto simp: remove1_append)
qed

lemma fields_set [simp]:
  "nfds (set_fd i d st) = nfds st" "nfds (set_revents i r st) = nfds st"
  "nfds (set_events i r st) = nfds st" "nfds (close_sd d st) = nfds st"
  "closed (set_fd i d st) = closed st" "closed (set_revents i r st) = closed st"
  "closed (set_events i r st) = closed st" "closed (close_sd d st) = closed st @ [d]"
  "msgComposer (set_fd i d st) = msgComposer st" "msgComposer (set_revents i r st) = msgComposer st"
  "msgComposer (set_events i r st) = msgComposer st" "msgComposer (close_sd d st) = msgComposer st"
  "fds (close_sd d st) = fds st"
  "fd (fds (set_fd i d st) k) = (if k = i then d else fd (fds st k))"
  "fd (fds (set_revents i r st) k) = fd (fds st k)"
  "fd (fds (set_events i r st) k) = fd (fds st k)"
  by (simp_all add: set_fd_def set_revents_def set_events_def close_sd_def)

lemma live_upd [simp]:
  "live (st\<lparr>compress_array := b\<rparr>) = live st" "live (st\<lparr>recv_buffer := w\<rparr>) = live st"
  "live (st\<lparr>msgComposer := m\<rparr>) = live st" "live (set_revents i r st) = live st"
  "live (set_events i r st) = live st" "live (close_sd d st) = live st"
  by (rule live_cong; simp)+

text \<open>
  One step of the server changes the table in one of these ways: nothing, an entry dies
  with its descriptor closed, or accepted descriptors are appended.
\<close>

lemma recv_loop_Cons:
  "take RECV_BUFFER d \<noteq> [] \<Longrightarrow> recv_loop i (d # ds) stop st =
     (let buf = take RECV_BUFFER d @ drop (length (take RECV_BUFFER d)) (recv_buffer st)
      in recv_loop i ds stop (st\<lparr>recv_buffer := buf, msgComposer :=
           onClientDataArrived (fd (fds st i)) (int i) buf (length (take RECV_BUFFER d))
             (msgComposer st)\<rparr>))"
  by (simp add: Let_def)

lemma recv_loop_Cons_empty:
  "take RECV_BUFFER d = [] \<Longrightarrow> recv_loop i (d # ds) stop st = (True, st)"
  by (simp add: Let_def)

declare recv_loop.simps(2) [simp del]

lemma recv_loop_frame:
  "recv_loop i ds stop st = (b, st') \<Longrightarrow>
     fds st' = fds st \<and> nfds st' = nfds st \<and> closed st' = closed st \<and>
     compress_array st' = compress_array st"
proof (induction ds arbitrary: st)
  case (Cons d ds)
  show ?case
  proof (cases "take RECV_BUFFER d = []")
    case False
    let ?buf = "take RECV_BUFFER d @ drop (length (take RECV_BUFFER d)) (recv_buffer st)"
    let ?st1 = "st\<lparr>recv_buffer := ?buf, msgComposer := onClientDataArrived (fd (fds st i)) (int i) ?buf
                  (length (take RECV_BUFFER d)) (msgComposer st)\<rparr>"
    have "recv_loop i ds stop ?st1 = (b, st')"
      using Cons.prems unfolding recv_loop_Cons [OF False] Let_def .
    from Cons.IH [OF this] show ?thesis by simp
  qed (use Cons.prems in \<open>simp add: recv_loop_Cons_empty\<close>)
qed simp

lemma accept_loop_evolves:
  assumes "accept_loop acc st = Inr st'" and "table_ok st"
    and "distinct (map fst acc)" and "set (map fst acc) \<inter> set (live st) = {}"
  shows "table_ok st' \<and> closed st' = closed st \<and> nfds st \<le> nfds st' \<and>
         (\<forall>k < nfds st. fd (fds st' k) = fd (fds st k)) \<and>
         (\<exists>new. live st' = live st @ new \<and> set new \<subseteq> set (map fst acc))"
  using assms
proof (induction acc arbitrary: st)
  case Nil
  then show ?case by simp
next
  case (Cons a acc)
  obtain sd ok where a: "a = (sd, ok)" by force
  show ?case
  proof (cases "sd \<le> 0")
    case True
    with Cons.prems(1,2) a show ?thesis by (cases "sd = 0") auto
  next
    case False
    let ?st1 = "set_events (nfds st) POLLIN (set_fd (nfds st) sd st)\<lparr>nfds := Suc (nfds st)\<rparr>"
    from Cons.prems(1) a False have cap: "nfds st < MAX_FDS" and r: "accept_loop acc ?st1 = Inr st'"
      by (auto simp: Let_def split: if_splits)
    have m: "map (\<lambda>x. fd (fds ?st1 x)) [0..<nfds st] = map (\<lambda>x. fd (fds st x)) [0..<nfds st]"
      by (simp add: set_fd_def set_events_def)
    have live: "live ?st1 = live st @ [sd]"
      using False m by (simp add: live_def table_def comp_def set_fd_def set_events_def)
    have same: "\<forall>k. k \<noteq> nfds st \<longrightarrow> fd (fds ?st1 k) = fd (fds st k)"
      by (simp add: set_fd_def set_events_def)
    then have ok1: "table_ok ?st1"
      using Cons.prems(2,4) a False cap by (auto simp: table_ok_def live)
    have c: "closed ?st1 = closed st" by simp
    have "set (map fst acc) \<inter> set (live ?st1) = {}"
      using Cons.prems(3,4) a by (auto simp: live)
    from Cons.IH [OF r ok1 _ this] Cons.prems(3) a obtain new
      where ih: "table_ok st'" "closed st' = closed ?st1" "nfds ?st1 \<le> nfds st'"
        "\<forall>k < nfds ?st1. fd (fds st' k) = fd (fds ?st1 k)"
        "live st' = live ?st1 @ new" "set new \<subseteq> set (map fst acc)" by auto
    have "live st' = live st @ sd # new" "set (sd # new) \<subseteq> set (map fst (a # acc))"
      using ih(5,6) live a by auto
    moreover have "\<forall>k < nfds st. fd (fds st' k) = fd (fds st k)" using ih(4) same by simp
    ultimately show ?thesis using ih(1-3) c by auto
  qed
qed

lemma kill_evolves:
  assumes ok: "table_ok st" and i: "i < nfds st" and "nfds st' = nfds st"
    and k: "\<forall>k. fd (fds st' k) = (if k = i then -1 else fd (fds st k))"
    and c: "closed st' = closed st @ (if fd (fds st i) > 0 then [fd (fds st i)] else [])"
  shows "evolves st A st'"
proof -
  let ?d = "fd (fds st i)"
  from live_kill [OF i _ assms(3)] ok k
  have l: "live st' = remove1 ?d (live st)" and d: "distinct (live st')"
    by (auto simp: table_ok_def)
  have s: "set (live st') = set (live st) - {?d}"
    using l ok by (simp add: table_ok_def)
  have t: "table_ok st'" using ok d s assms(3) k i by (auto simp: table_ok_def)
  show ?thesis
  proof (cases "?d > 0")
    case True
    then have "?d \<in> set (live st)" using i by (auto simp: live_def table_def)
    then show ?thesis unfolding evolves_def using c s t True
      by (intro conjI exI [of _ "[?d]"]) auto
  next
    case False
    then have "?d \<notin> set (live st)" using ok by (auto simp: table_ok_def)
    then show ?thesis using c s t False by (intro evolves_same) auto
  qed
qed

lemma table_ok_cong:
  assumes "table_ok st" and "nfds st' = nfds st" and "\<forall>k. fd (fds st' k) = fd (fds st k)"
  shows "table_ok st' \<and> live st' = live st"
  using assms live_cong [of st' st] by (simp add: table_ok_def)

lemma handle_fd_other:
  assumes "handle_fd listen_sd env i st = Inr st'" and "table_ok st" and "i < nfds st"
    and acc: "fd (fds st i) = listen_sd \<Longrightarrow>
      distinct (map fst (accepts env)) \<and> set (map fst (accepts env)) \<inter> set (live st) = {}"
  shows "nfds st \<le> nfds st' \<and> (\<forall>k < nfds st. k \<noteq> i \<longrightarrow> fd (fds st' k) = fd (fds st k)) \<and>
    evolves st (if fd (fds st i) = listen_sd then set (map fst (accepts env)) else {}) st'"
proof -
  consider "revents (fds st i) = 0"
    | "revents (fds st i) \<noteq> 0" "revents (fds st i) AND POLLIN = 0"
    | "revents (fds st i) \<noteq> 0" "revents (fds st i) AND POLLIN \<noteq> 0" "fd (fds st i) = listen_sd"
    | "revents (fds st i) \<noteq> 0" "revents (fds st i) AND POLLIN \<noteq> 0" "fd (fds st i) \<noteq> listen_sd"
    by blast
  then show ?thesis
  proof cases
    case 1
    with assms(1,2) show ?thesis by (simp add: handle_fd_def evolves_refl)
  next
    case 2
    show ?thesis
    proof (cases "fd (fds st i) > 0")
      case True
      with 2 assms(1) have st': "st' = set_revents i 0
          (set_fd i (-1) (close_sd (fd (fds st i)) st)\<lparr>compress_array := True\<rparr>)"
        by (simp add: handle_fd_def Let_def)
      then have "fd (fds st' k) = (if k = i then -1 else fd (fds st k))" "nfds st' = nfds st"
        "closed st' = closed st @ [fd (fds st i)]" for k
        by (simp_all add: set_revents_def set_fd_def close_sd_def)
      with kill_evolves [OF assms(2,3), of st'] True show ?thesis by simp
    next
      case False
      with 2 assms(1) have st': "st' = set_revents i 0 (st\<lparr>compress_array := True\<rparr>)"
        by (simp add: handle_fd_def Let_def)
      then have "fd (fds st' k) = fd (fds st k)" "nfds st' = nfds st" "closed st' = closed st" for k
        by simp_all
      with table_ok_cong [OF assms(2), of st'] show ?thesis by (auto intro: evolves_same)
    qed
  next
    case 3
    with assms(1) have "accept_loop (accepts env) st = Inr st'" by (simp add: handle_fd_def)
    from accept_loop_evolves [OF this assms(2)] acc [OF 3(3)] 3(3) show ?thesis
      by (fastforce simp: evolves_def)
  next
    case 4
    obtain b st1 where r: "recv_loop i (fst (reads env i)) (snd (reads env i)) st = (b, st1)" by force
    from recv_loop_frame [OF r] have f: "fds st1 = fds st" "nfds st1 = nfds st" "closed st1 = closed st"
      by simp_all
    show ?thesis
    proof (cases b)
      case False
      with 4 r assms(1) have "st' = st1" by (simp add: handle_fd_def)
      with table_ok_cong [OF assms(2), of st'] f show ?thesis by (auto intro: evolves_same)
    next
      case True
      with 4 r assms(1) have st': "st' = set_revents i 0 (set_fd i (-1)
          (if fd (fds st i) > 0 then close_sd (fd (fds st i)) st1 else st1))\<lparr>compress_array := True\<rparr>"
        by (simp add: handle_fd_def Let_def f(1) split: if_splits)
      have "fd (fds st' k) = (if k = i then -1 else fd (fds st k))" "nfds st' = nfds st"
        "closed st' = closed st @ (if fd (fds st i) > 0 then [fd (fds st i)] else [])" for k
        using f by (simp_all add: st' set_revents_def set_fd_def close_sd_def)
      with kill_evolves [OF assms(2,3), of st'] 4(3) show ?thesis by simp
    qed
  qed
qed

lemma handle_all_quiet:
  assumes "handle_all listen_sd env is st = Inr st'" and "table_ok st" and "distinct is"
    and "\<forall>i \<in> set is. i < nfds st \<and> fd (fds st i) \<noteq> listen_sd"
  shows "evolves st {} st'"
  using assms
proof (induction "is" arbitrary: st)
  case Nil
  then show ?case by (simp add: evolves_refl)
next
  case (Cons i "is")
  then obtain st1 where h: "handle_fd listen_sd env i st = Inr st1"
    and r: "handle_all listen_sd env is st1 = Inr st'" by (auto split: sum.splits)
  from handle_fd_other [OF h Cons.prems(2)] Cons.prems(4)
  have s: "nfds st \<le> nfds st1" "\<forall>k < nfds st. k \<noteq> i \<longrightarrow> fd (fds st1 k) = fd (fds st k)"
    and e: "evolves st {} st1" by auto
  have "\<forall>j \<in> set is. j < nfds st1 \<and> fd (fds st1 j) \<noteq> listen_sd"
    using s Cons.prems(3,4) by fastforce
  with Cons.IH [OF r] e Cons.prems(3) have "evolves st1 {} st'" by (simp add: evolves_def)
  with e show ?case by (rule evolves_trans_left)
qed

lemma live_nth_inj:
  assumes "table_ok st" and "i < nfds st" and "j < nfds st"
    and "fd (fds st i) = fd (fds st j)" and "fd (fds st i) > 0"
  shows "i = j"
proof (rule ccontr)
  assume "i \<noteq> j"
  let ?d = "fd (fds st i)"
  from \<open>i \<noteq> j\<close> assms have "?d \<in> set (map fd (map (fds st) [0..<i] @ map (fds st) [Suc i..<nfds st]))"
    by (auto simp: image_iff) (metis atLeastLessThan_iff le_neq_implies_less not_less_eq_eq zero_le)
  moreover have "distinct (live st)" using assms(1) by (simp add: table_ok_def)
  ultimately show False using assms(5)
    by (auto simp: live_def table_split [OF assms(2)])
qed

lemma handle_all_evolves:
  assumes "handle_all listen_sd env is st = Inr st'" and "table_ok st" and "distinct is"
    and "\<forall>i \<in> set is. i < nfds st" and "0 < listen_sd"
    and "distinct (map fst (accepts env))" and "set (map fst (accepts env)) \<inter> set (live st) = {}"
  shows "evolves st (set (map fst (accepts env))) st'"
  using assms
proof (induction "is" arbitrary: st)
  case Nil
  then show ?case by (simp add: evolves_refl)
next
  case (Cons i "is")
  then obtain st1 where h: "handle_fd listen_sd env i st = Inr st1"
    and r: "handle_all listen_sd env is st1 = Inr st'" by (auto split: sum.splits)
  have s: "nfds st \<le> nfds st1" "\<forall>k < nfds st. k \<noteq> i \<longrightarrow> fd (fds st1 k) = fd (fds st k)"
    and e: "evolves st (if fd (fds st i) = listen_sd then set (map fst (accepts env)) else {}) st1"
    using handle_fd_other [OF h Cons.prems(2)] Cons.prems(4,6,7) by simp_all
  have ok1: "table_ok st1" using e by (auto simp: evolves_def)
  show ?case
  proof (cases "fd (fds st i) = listen_sd")
    case True
    have "\<forall>j \<in> set is. j < nfds st1 \<and> fd (fds st1 j) \<noteq> listen_sd"
    proof
      fix j assume j: "j \<in> set is"
      with Cons.prems(3,4) have "j \<noteq> i" "j < nfds st" "i < nfds st" by auto
      with live_nth_inj [OF Cons.prems(2), of i j] True Cons.prems(5) s
      show "j < nfds st1 \<and> fd (fds st1 j) \<noteq> listen_sd" by auto
    qed
    from handle_all_quiet [OF r ok1 _ this] Cons.prems(3) have "evolves st1 {} st'" by simp
    with e True show ?thesis by (auto intro: evolves_trans_left)
  next
    case False
    with e have e: "evolves st {} st1" by simp
    then have "set (live st1) \<subseteq> set (live st)" by (auto simp: evolves_def)
    with Cons.IH [OF r ok1] Cons.prems s(1)
    have "evolves st1 (set (map fst (accepts env))) st'" by fastforce
    from evolves_trans_right [OF e this Cons.prems(7)] show ?thesis .
  qed
qed

lemma checkClosedSessions_evolves:
  assumes "checkClosedSessions q st = Inr st'" and "table_ok st" and "\<forall>c \<in> set q. 0 < socket c"
  shows "evolves st {} st' \<and> nfds st' = nfds st \<and> compress_array st' = compress_array st"
  using assms
proof (induction q st rule: checkClosedSessions.induct)
  case (1 st)
  then show ?case by (simp add: evolves_refl)
next
  case (2 c cs st)
  let ?i = "nat (fds_index c)"
  from "2.prems"(1) have b: "\<not> (fds_index c < 0 \<or> int MAX_FDS \<le> fds_index c)"
    by (auto split: if_splits)
  show ?case
  proof (cases "fd (fds st ?i) = socket c")
    case False
    with "2.IH"(2) [OF b refl False] "2.prems" b show ?thesis by (simp add: Let_def)
  next
    case True
    let ?st1 = "set_events ?i 0 (set_revents ?i 0 (set_fd ?i (-1) (close_sd (socket c) st)))"
    have "0 < socket c" using "2.prems"(3) by simp
    with True "2.prems"(2) have i: "?i < nfds st"
      by (metis less_irrefl not_le_imp_less table_ok_def)
    have "\<forall>k. fd (fds ?st1 k) = (if k = ?i then -1 else fd (fds st k))" by simp
    from kill_evolves [OF "2.prems"(2) i _ this] True \<open>0 < socket c\<close>
    have e: "evolves st {} ?st1" by simp
    then have "table_ok ?st1" by (simp add: evolves_def)
    moreover have "checkClosedSessions cs ?st1 = Inr st'"
      using "2.prems"(1) b True by (simp add: Let_def)
    moreover have "compress_array ?st1 = compress_array st"
      by (simp add: set_events_def set_revents_def set_fd_def close_sd_def)
    ultimately have "evolves ?st1 {} st' \<and> nfds st' = nfds st \<and> compress_array st' = compress_array st"
      using "2.IH"(1) [OF b refl True] "2.prems"(3) by simp
    with evolves_trans_left [OF e] show ?thesis by blast
  qed
qed

lemma compress_loop_behind:
  "n \<le> MAX_FDS \<Longrightarrow> compress_loop i n f = Inr (n', f') \<Longrightarrow> \<forall>k \<ge> n. fd (f k) = 0 \<Longrightarrow>
     \<forall>k \<ge> n'. fd (f' k) = 0"
proof (induction i n f rule: compress_loop.induct)
  case (1 i n f)
  show ?case
  proof (cases "i < n")
    case False
    with "1.prems" show ?thesis by (simp add: compress_loop.simps [of i n f])
  next
    case True
    show ?thesis
    proof (cases "fd (f i) = -1")
      case False
      with True "1.prems" have "compress_loop (i + 1) n f = Inr (n', f')"
        by (simp add: compress_loop.simps [of i n f])
      with "1.IH"(2) [OF True False] "1.prems" show ?thesis by blast
    next
      case dead: True
      from True dead "1.prems"(2) have cap: "\<not> MAX_FDS \<le> n"
        and r: "compress_loop (i + 1) (n - 1) (shift_loop i n f) = Inr (n', f')"
        by (auto simp: compress_loop.simps [of i n f] split: if_splits)
      have "\<forall>k \<ge> n - 1. fd (shift_loop i n f k) = 0"
        using "1.prems"(3) True by (auto simp: shift_loop_eq)
      with "1.IH"(1) [OF True dead cap _ r] "1.prems"(1) show ?thesis by simp
    qed
  qed
qed

lemma compress_evolves:
  assumes "compress st = Inr st'" and "table_ok st"
  shows "evolves st {} st'"
proof (cases "compress_array st")
  case False
  with assms show ?thesis by (simp add: compress_def evolves_refl)
next
  case True
  with assms(1) obtain n f where r: "compress_loop 0 (nfds st) (fds st) = Inr (n, f)"
    and st': "st' = st\<lparr>compress_array := False, nfds := n, fds := f\<rparr>"
    by (auto simp: compress_def split: sum.splits)
  have cap: "nfds st \<le> MAX_FDS" using assms(2) by (simp add: table_ok_def)
  from compress_loop_list [OF cap r] have n: "n \<le> nfds st"
    and l: "table st' = compress_list (table st)" by (simp_all add: table_def st')
  have f: "filter (\<lambda>d. d \<noteq> -1) (map fd xs) = map fd (filter (\<lambda>x. fd x \<noteq> -1) xs)" for xs
    by (simp add: filter_map comp_def)
  have live: "live st' = live st" by (simp only: live_def l f compress_list_live)
  have "\<forall>k \<ge> n. fd (f k) = 0"
    using compress_loop_behind [OF cap r] assms(2) by (simp add: table_ok_def)
  with live n assms(2) have "table_ok st'" by (simp add: table_ok_def st')
  with live show ?thesis by (auto intro: evolves_same simp: st')
qed

subsection \<open>Properties of the server loop\<close>

text \<open>
  Start-up either leaves a table with the listening socket only, or exits having closed
  the socket it had opened, whichever call fails.
\<close>

lemma start_init_closes:
  "case start_init env c of
     Inl e \<Rightarrow> e = Exit (if socket_rc env < 0 then [] else [socket_rc env]) \<and>
       \<not> (0 \<le> socket_rc env \<and> setsockopt_ok env \<and> ioctl_ok env \<and> bind_ok env \<and> listen_ok env)
   | Inr st \<Rightarrow> map fd (table st) = [socket_rc env] \<and> closed st = [] \<and> msgComposer st = c \<and>
       0 \<le> socket_rc env \<and> (socket_rc env = 0 \<or> table_ok st)"
  by (auto simp: start_init_def Let_def table_def table_ok_def live_def MAX_FDS_def split: if_splits)


text \<open>
  There is no bound check on the number of connections: with a full table the next
  accepted connection is written behind the end of the array.
\<close>

lemma accept_overflow:
  assumes "nfds st = MAX_FDS - k" and "k \<le> MAX_FDS" and "length acc > k"
    and "\<forall>a \<in> set acc. 0 < fst a \<and> snd a"
  shows "accept_loop acc st = Inl OutOfBounds"
  using assms
proof (induction acc arbitrary: st k)
  case Nil
  then show ?case by simp
next
  case (Cons a acc)
  obtain sd ok where a: "a = (sd, ok)" by force
  show ?case
  proof (cases k)
    case 0
    with Cons.prems a show ?thesis by simp
  next
    case (Suc k')
    let ?st1 = "set_events (nfds st) POLLIN (set_fd (nfds st) sd st)\<lparr>nfds := nfds st + 1\<rparr>"
    have "accept_loop acc ?st1 = Inl OutOfBounds"
      using Cons.prems Suc by (intro Cons.IH [of _ k']) auto
    then show ?thesis using Cons.prems a Suc by (simp add: Let_def)
  qed
qed

subsection \<open>What survives a closed connection\<close>

text \<open>The reads of one connection touch the partial request of that socket only.\<close>

lemma recv_loop_other:
  "sd \<noteq> fd (fds st i) \<Longrightarrow> recv_loop i ds stop st = (b, st') \<Longrightarrow>
     messages (msgComposer st') sd = messages (msgComposer st) sd"
proof (induction ds arbitrary: st)
  case (Cons d ds)
  show ?case
  proof (cases "take RECV_BUFFER d = []")
    case False
    let ?buf = "take RECV_BUFFER d @ drop (length (take RECV_BUFFER d)) (recv_buffer st)"
    let ?st1 = "st\<lparr>recv_buffer := ?buf, msgComposer := onClientDataArrived (fd (fds st i)) (int i) ?buf
                  (length (take RECV_BUFFER d)) (msgComposer st)\<rparr>"
    have "recv_loop i ds stop ?st1 = (b, st')"
      using Cons.prems(2) unfolding recv_loop_Cons [OF False] Let_def .
    with Cons.IH [of ?st1] Cons.prems(1) html_sink.on_data_other show ?thesis by simp
  qed (use Cons.prems in \<open>simp add: recv_loop_Cons_empty\<close>)
qed simp

text \<open>
  Data on one connection never changes the partial request stored for another socket.
\<close>

lemma handle_fd_isolates:
  assumes "handle_fd listen_sd env i st = Inr st'" and "sd \<noteq> fd (fds st i)"
  shows "messages (msgComposer st') sd = messages (msgComposer st) sd"
proof -
  have acc: "accept_loop acc s = Inr s' \<Longrightarrow> msgComposer s' = msgComposer s" for acc s s'
    by (induction acc s rule: accept_loop.induct) (auto simp: Let_def split: if_splits)
  obtain b st1 where r: "recv_loop i (fst (reads env i)) (snd (reads env i)) st = (b, st1)" by force
  have "messages (msgComposer st1) sd = messages (msgComposer st) sd"
    by (rule recv_loop_other [OF assms(2) r])
  with assms(1) r acc show ?thesis
    by (auto simp: handle_fd_def Let_def split: if_splits)
qed

text \<open>
  A partial request survives the end of its connection. If a client sends a fragment
  and closes, and the kernel gives the same descriptor to the next client, the request of
  the second one is appended to the first one's fragment.
\<close>

lemma partial_request_inherited:
  assumes "fd (fds st i) = sd" and "0 < sd" and "sd \<noteq> listen_sd"
    and "revents (fds st i) AND POLLIN \<noteq> 0" and "reads env i = ([frag], RecvClosed)"
    and "frag \<noteq> []" and "length frag \<le> RECV_BUFFER" and "\<not> ends_with_empty_line frag"
    and "messages (msgComposer st) sd = None"
  shows "\<exists>st' s. handle_fd listen_sd env i st = Inr st' \<and> sd \<in> set (closed st') \<and>
    messages (msgComposer st') sd = Some s \<and> request_header (request s) = frag \<and>
    (\<forall>buf n j. ends_with_empty_line (frag @ buf) \<longrightarrow>
       (\<exists>s'. outbox (onClientDataArrived sd j buf n (msgComposer st')) =
               outbox (msgComposer st') @ [s'] \<and>
             request_header (request s') = frag @ buf))"
proof -
  have ne: "revents (fds st i) \<noteq> 0" using assms(4) by auto
  have t: "take RECV_BUFFER frag = frag" using assms(7) by simp
  let ?buf = "frag @ drop (length frag) (recv_buffer st)"
  let ?c = "onClientDataArrived sd (int i) ?buf (length frag) (msgComposer st)"
  let ?s = "(new_ClientSession sd)\<lparr>fds_index := int i,
               request := new_HTTP_Header_parser\<lparr>request_header := frag\<rparr>\<rparr>"
  have m: "messages ?c sd = Some ?s"
    using assms(8,9) by (simp add: onClientDataArrived_None Let_def)
  have r: "recv_loop i (fst (reads env i)) (snd (reads env i)) st =
      (True, st\<lparr>recv_buffer := ?buf, msgComposer := ?c\<rparr>)"
    using assms(1,5,6) t recv_loop_Cons [of frag i "[]" RecvClosed st] by (simp add: Let_def)
  let ?st' = "set_revents i 0 (set_fd i (-1) (close_sd sd
                (st\<lparr>recv_buffer := ?buf, msgComposer := ?c\<rparr>)))\<lparr>compress_array := True\<rparr>"
  have h: "handle_fd listen_sd env i st = Inr ?st'"
    using assms(1-4) ne r by (simp add: handle_fd_def Let_def)
  have c: "msgComposer ?st' = ?c" by simp
  have "\<exists>s'. outbox (onClientDataArrived sd j buf n ?c) = outbox ?c @ [s'] \<and>
             request_header (request s') = frag @ buf"
    if "ends_with_empty_line (frag @ buf)" for buf n j
    using that by (simp add: onClientDataArrived_Some [OF m] Let_def)
  with h m c show ?thesis by (intro exI [of _ ?st'] exI [of _ ?s]) simp
qed

subsection \<open>Instances\<close>

definition sample_table :: "int list \<Rightarrow> poll_server" where
  "sample_table ds =
     \<lparr>fds = (\<lambda>i. \<lparr>fd = (if i < length ds then ds ! i else 0), events = POLLIN, revents = POLLIN\<rparr>),
      nfds = length ds, compress_array = True, recv_buffer = ''old!'',
      msgComposer = new_composer, closed = []\<rparr>"

definition sample_env :: poll_env where
  "sample_env = \<lparr>poll_rc = 1, poll_einval = False, poll_revents = (\<lambda>i. if i < 2 then POLLIN else 0),
     accepts = [(6, True)], reads = (\<lambda>i. ([''GET /''], RecvClosed))\<rparr>"

lemma table_sample [simp]: "map fd (table (sample_table ds)) = ds"
  by (rule nth_equalityI) (simp_all add: table_def sample_table_def)

lemma sample_table_simps [simp]:
  "nfds (sample_table ds) = length ds" "compress_array (sample_table ds)"
  "closed (sample_table ds) = []" "msgComposer (sample_table ds) = new_composer"
  "fd (fds (sample_table ds) i) = (if i < length ds then ds ! i else 0)"
  "revents (fds (sample_table ds) i) = POLLIN"
  by (simp_all add: sample_table_def)

lemma live_sample: "live (sample_table ds) = filter (\<lambda>d. d \<noteq> -1) ds"
  by (simp add: live_def)

lemma compress_keeps_live_witness:
  "\<exists>st'. compress (sample_table [3, -1, 4]) = Inr st' \<and> \<not> compress_array st'"
  using compress_keeps_live [of "sample_table [3, -1, 4]"] by (auto simp: MAX_FDS_def)

lemma adjacent_dead_survives_witness:
  "\<exists>st'. compress (sample_table [3, -1, -1, 4]) = Inr st' \<and> map fd (table st') = [3, -1, 4]"
proof -
  let ?e = "\<lambda>d. \<lparr>fd = d, events = POLLIN, revents = POLLIN\<rparr>"
  have t: "table (sample_table [3, -1, -1, 4]) = [?e 3] @ [?e (-1), ?e (-1)] @ [?e 4]"
    by (simp add: table_def sample_table_def)
  from adjacent_dead_survives [OF _ _ t] show ?thesis by (force simp: MAX_FDS_def)
qed


lemma accept_overflow_witness:
  "accept_loop [(9, True)] ((sample_table [3])\<lparr>nfds := 100000\<rparr>) = Inl OutOfBounds"
  using accept_overflow [of "(sample_table [3])\<lparr>nfds := 100000\<rparr>" 0 "[(9, True)]"]
  by (simp add: MAX_FDS_def)

lemma handle_fd_isolates_witness:
  "\<exists>st'. handle_fd 3 sample_env 1 (sample_table [3, 5]) = Inr st' \<and> messages (msgComposer st') 8 = None"
proof -
  have "\<exists>st'. handle_fd 3 sample_env 1 (sample_table [3, 5]) = Inr st'"
    by (simp add: handle_fd_def POLLIN_def Let_def split: prod.split)
  with handle_fd_isolates [of 3 sample_env 1 "sample_table [3, 5]" _ 8] show ?thesis
    by (auto simp: new_composer_def)
qed

lemma partial_request_inherited_witness:
  "\<exists>st' s. handle_fd 3 sample_env 1 (sample_table [3, 5]) = Inr st' \<and> 5 \<in> set (closed st') \<and>
     messages (msgComposer st') 5 = Some s \<and> request_header (request s) = ''GET /''"
  using partial_request_inherited [of "sample_table [3, 5]" 1 5 3 sample_env "''GET /''"]
  by (auto simp: sample_env_def POLLIN_def RECV_BUFFER_def ends_with_empty_line_def new_composer_def)

end
