(* ===== verification/Message_Processor.thy ===== *)
theory Message_Processor
  imports Http_Session
begin

text \<open>
  \<open>HTML_MessageProcessor\<close> (html_messageprocessor.cpp): the queue between the poll thread
  and the twelve dispatchers, the loop of its worker thread that hands the queued sessions
  to the dispatchers in turn, and the locking around both as a step relation.
\<close>

subsection \<open>The queue and the distribution loop\<close>

text \<open>
  \<open>qclients\<close> is the queue \<open>qclients_\<close>, \<open>worker\<close> the local variable of
  \<open>processMessageQueue\<close>; \<open>dispatched\<close> lists the calls
  \<open>msgdisp<k>.onNewMessageArrived(s)\<close> in order, as pairs \<open>(k, s)\<close>.
\<close>

record processor =
  qclients :: "client_session list"
  worker :: nat
  dispatched :: "(nat \<times> client_session) list"

definition assign :: "nat \<Rightarrow> nat \<Rightarrow> 'a processor_scheme \<Rightarrow> 'a processor_scheme" where
  "assign k w p =
     p\<lparr>worker := w, dispatched := dispatched p @ [(k, hd (qclients p))], qclients := tl (qclients p)\<rparr>"

text \<open>One pass through the body of the inner \<open>while\<close>: no branch is taken when \<open>worker\<close>
  is not one of the twelve values, and the loop then spins.\<close>

definition distribute_step :: "'a processor_scheme \<Rightarrow> 'a processor_scheme" where
  "distribute_step p =
     (
      if worker p = 0 then assign 0 1 p
      else if worker p = 1 then assign 1 2 p
      else if worker p = 2 then assign 2 3 p
      else if worker p = 3 then assign 3 4 p
      else if worker p = 4 then assign 4 5 p
      else if worker p = 5 then assign 5 6 p
      else if worker p = 6 then assign 6 7 p
      else if worker p = 7 then assign 7 8 p
      else if worker p = 8 then assign 8 9 p
      else if worker p = 9 then assign 9 10 p
      else if worker p = 10 then assign 10 11 p
      else if worker p = 11 then assign 11 0 p
      else p)"

text \<open>The inner loop, None when it never ends.\<close>

partial_function (option) distribute ::
  "'a processor_scheme \<Rightarrow> 'a processor_scheme option" where
  "distribute p = (if qclients p = [] then Some p else distribute (distribute_step p))"

lemma distribute_step_eq1:
  assumes "worker p < 12"
  shows "distribute_step p = assign (worker p) ((worker p + 1) mod 12) p"
proof -
  have "worker p = 0 \<or> worker p = 1 \<or> worker p = 2 \<or> worker p = 3 \<or> worker p = 4 \<or> worker p = 5 \<or>
    worker p = 6 \<or> worker p = 7 \<or> worker p = 8 \<or> worker p = 9 \<or> worker p = 10 \<or> worker p = 11"
    using assms by arith
  then show ?thesis
    by (elim disjE) (simp_all add: distribute_step_def flip: numeral_2_eq_2)
qed

lemma distribute_step_eq:
  "worker p < 12 \<Longrightarrow> distribute_step p = assign (worker p) (Suc (worker p) mod 12) p"
  using distribute_step_eq1 [of p] by simp

text \<open>The dispatchers that receive the next \<open>n\<close> sessions.\<close>

definition round_robin :: "nat \<Rightarrow> nat \<Rightarrow> nat list" where
  "round_robin w n = map (\<lambda>k. (w + k) mod 12) [0..<n]"

lemma round_robin_Suc:
  "w < 12 \<Longrightarrow> round_robin w (Suc n) = w # round_robin (Suc w mod 12) n"
proof -
  assume w: "w < 12"
  have "map (\<lambda>k. (w + k) mod 12) (map Suc [0..<n]) = map (\<lambda>k. (Suc w mod 12 + k) mod 12) [0..<n]"
    by (simp add: mod_add_left_eq)
  then show ?thesis
    using w by (simp add: round_robin_def upt_conv_Cons map_Suc_upt del: upt_Suc)
qed

lemma length_round_robin [simp]: "length (round_robin w n) = n"
  by (simp add: round_robin_def)

lemma distribute_closed:
  assumes "worker p < 12"
  shows "distribute p =
    Some (p\<lparr>qclients := [], worker := (worker p + length (qclients p)) mod 12,
           dispatched := dispatched p @ zip (round_robin (worker p) (length (qclients p))) (qclients p)\<rparr>)"
  using assms
proof (induction "length (qclients p)" arbitrary: p)
  case 0
  then show ?case by (subst distribute.simps) simp
next
  case (Suc n)
  then obtain m rest where q: "qclients p = m # rest" "length rest = n"
    by (cases "qclients p") auto
  let ?p = "assign (worker p) (Suc (worker p) mod 12) p"
  have "distribute p = distribute ?p"
    using q Suc.prems by (subst distribute.simps) (simp add: distribute_step_eq)
  also have "\<dots> = Some (?p\<lparr>qclients := [], worker := (worker ?p + length (qclients ?p)) mod 12,
      dispatched := dispatched ?p @ zip (round_robin (worker ?p) (length (qclients ?p))) (qclients ?p)\<rparr>)"
    using q by (intro Suc.hyps(1)) (simp_all add: assign_def)
  also have "(worker ?p + length (qclients ?p)) mod 12 = (worker p + length (qclients p)) mod 12"
    using q by (simp add: assign_def mod_add_left_eq)
  finally show ?case
    using q Suc.prems by (simp add: assign_def round_robin_Suc)
qed

text \<open>
  C29: with \<open>worker\<close> in range the distribution loop ends, empties the queue and has given
  the queued sessions, in their order, to consecutive dispatchers modulo twelve.
\<close>

lemma distribute_round_robin:
  assumes "worker p < 12"
  shows "\<exists>p'. distribute p = Some p' \<and> qclients p' = [] \<and> worker p' < 12 \<and>
    map snd (dispatched p') = map snd (dispatched p) @ qclients p \<and>
    map fst (dispatched p') = map fst (dispatched p) @ round_robin (worker p) (length (qclients p))"
  using distribute_closed [OF assms] by simp

subsection \<open>The poll thread and the worker thread\<close>

text \<open>
  Where the worker thread is: about to lock \<open>qclients_mutex_\<close> at the top of its outer loop
  (\<open>Relock\<close>), blocked in \<open>cv_.wait(lk)\<close> with the mutex released (\<open>Waiting\<close>), or
  notified and about to re-acquire the mutex and run the inner loop (\<open>Woken\<close>). The inner
  loop runs with the mutex held, so it is one step. \<open>notifying\<close> is true while the poll
  thread is between the unlocking of the mutex and \<open>cv_.notify_one()\<close> in
  \<open>onNewClientMessage\<close>. \<open>arrivals\<close> records every session pushed.
\<close>

datatype worker_pc = Relock | Waiting | Woken

record proc_sys = processor +
  pc :: worker_pc
  notifying :: bool
  arrivals :: "client_session list"

definition init_sys :: proc_sys where
  "init_sys = \<lparr>qclients = [], worker = 0, dispatched = [], pc = Relock, notifying = False, arrivals = []\<rparr>"

definition onNewClientMessage_push :: "client_session \<Rightarrow> proc_sys \<Rightarrow> proc_sys" where
  "onNewClientMessage_push m s =
     s\<lparr>qclients := qclients s @ [m], arrivals := arrivals s @ [m], notifying := True\<rparr>"

definition onNewClientMessage_notify :: "proc_sys \<Rightarrow> proc_sys" where
  "onNewClientMessage_notify s =
     s\<lparr>notifying := False, pc := (if pc s = Waiting then Woken else pc s)\<rparr>"

inductive proc_step :: "proc_sys \<Rightarrow> proc_sys \<Rightarrow> bool" where
  push: "\<not> notifying s \<Longrightarrow> proc_step s (onNewClientMessage_push m s)"
| notify: "notifying s \<Longrightarrow> proc_step s (onNewClientMessage_notify s)"
| spurious: "pc s = Waiting \<Longrightarrow> proc_step s (s\<lparr>pc := Woken\<rparr>)"
| wait: "pc s = Relock \<Longrightarrow> proc_step s (s\<lparr>pc := Waiting\<rparr>)"
| run: "pc s = Woken \<Longrightarrow> distribute s = Some s' \<Longrightarrow> proc_step s (s'\<lparr>pc := Relock\<rparr>)"

inductive proc_reachable :: "proc_sys \<Rightarrow> bool" where
  init: "proc_reachable init_sys"
| step: "proc_reachable s \<Longrightarrow> proc_step s t \<Longrightarrow> proc_reachable t"

inductive_cases proc_stepE: "proc_step s t"

text \<open>Nothing is lost, duplicated or reordered, and the k-th session goes to dispatcher
  k modulo 12.\<close>

definition proc_inv :: "proc_sys \<Rightarrow> bool" where
  "proc_inv s \<longleftrightarrow>
     map snd (dispatched s) @ qclients s = arrivals s \<and>
     map fst (dispatched s) = round_robin 0 (length (dispatched s)) \<and>
     worker s = length (dispatched s) mod 12"

lemma round_robin_append:
  "round_robin 0 n @ round_robin (n mod 12) k = round_robin 0 (n + k)"
proof (rule nth_equalityI)
  fix i assume "i < length (round_robin 0 n @ round_robin (n mod 12) k)"
  then have "i < n \<or> i - n < k" "i < n + k" by auto
  then show "(round_robin 0 n @ round_robin (n mod 12) k) ! i = round_robin 0 (n + k) ! i"
    by (cases "i < n") (simp_all add: round_robin_def nth_append mod_add_left_eq)
qed simp

lemma proc_step_inv: "proc_step s t \<Longrightarrow> proc_inv s \<Longrightarrow> proc_inv t"
proof (induction rule: proc_step.induct)
  case (run s s')
  then have "worker s < 12" by (simp add: proc_inv_def)
  note d = distribute_closed [OF this]
  show ?case
    using run d by (auto simp: proc_inv_def round_robin_append mod_add_left_eq)
qed (simp_all add: proc_inv_def onNewClientMessage_push_def onNewClientMessage_notify_def)

text \<open>
  C23: in every reachable state of the two threads the sessions dispatched, followed by
  those still queued, are the sessions that arrived, in order, and the k-th one went to
  dispatcher k modulo 12.
\<close>

lemma reachable_fifo:
  assumes "proc_reachable s"
  shows "map snd (dispatched s) @ qclients s = arrivals s \<and>
         map fst (dispatched s) = round_robin 0 (length (dispatched s))"
proof -
  have "proc_inv s" using assms
  proof (induction rule: proc_reachable.induct)
    case init
    show ?case by (simp add: proc_inv_def init_sys_def round_robin_def)
  next
    case (step s t)
    then show ?case by (blast intro: proc_step_inv)
  qed
  then show ?thesis by (simp add: proc_inv_def)
qed

text \<open>
  C35: \<open>cv_.wait\<close> is called without looking at the queue, so a notification sent while the
  worker is between two rounds is lost: there is a reachable state with a session queued,
  the worker blocked and no notification on its way, which only a spurious wake-up or the
  arrival of another request leaves.
\<close>

lemma lost_wakeup:
  "\<exists>s. proc_reachable s \<and> qclients s = [m] \<and> pc s = Waiting \<and> \<not> notifying s \<and>
       (\<forall>t. proc_step s t \<longrightarrow>
          t = s\<lparr>pc := Woken\<rparr> \<or> (\<exists>m'. t = onNewClientMessage_push m' s))"
proof -
  let ?a = "onNewClientMessage_push m init_sys"
  let ?b = "onNewClientMessage_notify ?a"
  let ?s = "?b\<lparr>pc := Waiting\<rparr>"
  have pcs: "pc ?b = Relock" "\<not> notifying init_sys" "notifying ?a"
    by (simp_all add: onNewClientMessage_push_def onNewClientMessage_notify_def init_sys_def)
  have "proc_step init_sys ?a" "proc_step ?a ?b" "proc_step ?b ?s"
    using pcs by (blast intro: proc_step.intros)+
  then have "proc_reachable ?s"
    by (blast intro: proc_reachable.intros)
  moreover have "qclients ?s = [m]" "pc ?s = Waiting" "\<not> notifying ?s"
    by (simp_all add: onNewClientMessage_push_def onNewClientMessage_notify_def init_sys_def)
  moreover have "t = ?s\<lparr>pc := Woken\<rparr> \<or> (\<exists>m'. t = onNewClientMessage_push m' ?s)"
    if "proc_step ?s t" for t
    using that by (rule proc_stepE) (auto simp: onNewClientMessage_notify_def)
  ultimately show ?thesis by blast
qed

subsection \<open>Instances\<close>

lemma distribute_round_robin_witness:
  "\<exists>p'. distribute \<lparr>qclients = [new_ClientSession 3, new_ClientSession 4], worker = 11, dispatched = []\<rparr> = Some p' \<and>
        map fst (dispatched p') = [11, 0]"
  using distribute_round_robin [of "\<lparr>qclients = [new_ClientSession 3, new_ClientSession 4],
      worker = 11, dispatched = []\<rparr>"]
  by (auto simp: round_robin_def)

lemma lost_wakeup_witness:
  "\<exists>s. proc_reachable s \<and> qclients s = [new_ClientSession 3] \<and> pc s = Waiting \<and> \<not> notifying s"
  using lost_wakeup [of "new_ClientSession 3"] by blast

lemma reachable_fifo_witness:
  "map snd (dispatched (onNewClientMessage_push (new_ClientSession 3) init_sys)) @ [new_ClientSession 3] =
   [new_ClientSession 3]"
proof -
  have "proc_reachable (onNewClientMessage_push (new_ClientSession 3) init_sys)"
    by (rule proc_reachable.step [OF proc_reachable.init], rule proc_step.push) (simp add: init_sys_def)
  from reachable_fifo [OF this] show ?thesis
    by (simp add: onNewClientMessage_push_def init_sys_def)
qed

end
