(* ===== verification/Message_Dispatcher.thy ===== *)
theory Message_Dispatcher
  imports Http_Session
begin

text \<open>
  \<open>HTTP_Message_Dispatcher\<close> (http_message_dispatcher.cpp): building the response to a
  request (file contents or directory listing, with the response cache) and one round of
  the loop \<open>dispatchMessageQueue\<close> of a dispatcher thread. A dispatcher holds its mutex for
  a whole round, so a round is one function on the dispatcher's state.
\<close>

subsection \<open>State\<close>

text \<open>
  \<open>req_queue\<close> is the dispatcher's \<open>client_sessions_req_resp_queue_\<close>; the other fields are
  shared by the process: \<open>cache\<close> (\<open>cache_\<close>), the current directory that
  \<open>QDir::setCurrent\<close> changes, \<open>qclients_close\<close>, and \<open>wire\<close>, the bytes each \<open>send\<close> loop
  delivered, with their socket.
\<close>

record disp_state =
  req_queue :: "client_session list"
  cache :: "qstring \<rightharpoonup> string"
  cwd :: qstring
  qclients_close :: "client_session list"
  wire :: "(int \<times> string) list"

definition FILE_CHUNK :: int where
  "FILE_CHUNK = 1048576"

subsection \<open>Building the response\<close>

text \<open>\<open>resize(n)\<close> fills the vector with zeros, then \<open>read\<close> overwrites what it delivers.\<close>

definition read_chunk :: "'m qt_env_scheme \<Rightarrow> qstring \<Rightarrow> qstring \<Rightarrow> int \<Rightarrow> nat \<Rightarrow> string" where
  "read_chunk qt dir path pos n =
     (let b = take n (fileRead qt dir path pos n) in b @ replicate (n - length b) (CHR 0x00))"

text \<open>The file branch of \<open>onClientRequest\<close>: body, \<open>pending_bytes\<close> and session; None when
  \<open>resize\<close> gets a negative size.\<close>

definition serve_file ::
  "'m qt_env_scheme \<Rightarrow> qstring \<Rightarrow> client_session \<Rightarrow> (string \<times> int \<times> client_session) option" where
  "serve_file qt dir cs =
     (let path = request_path (request cs);
          size = fileSize qt dir path;
          pos = send_message_index cs - send_message_header_size cs;
          vres = size - send_message_index cs + send_message_header_size cs
      in if vres > FILE_CHUNK
         then Some (read_chunk qt dir path pos (nat FILE_CHUNK), size - FILE_CHUNK,
                    cs\<lparr>send_message_has_more_bytes := True\<rparr>)
         else if vres < 0 then None
         else Some (read_chunk qt dir path pos (nat vres), 0,
                    cs\<lparr>send_message_has_more_bytes := False\<rparr>))"

text \<open>
  The directory branch. In the source the attribute is written
  \<open>"<br /><a href=""" << url << """>"\<close>; adjacent literals are joined, so no quotes are
  emitted.
\<close>

definition entry_html :: "'m qt_env_scheme \<Rightarrow> file_info \<Rightarrow> string" where
  "entry_html qt file =
     (let url_encoded = toStdString qt (q_replace qt (absoluteFilePath file)
                          (fromStdString qt '' '') (fromStdString qt ''%20''))
      in if isDir file
         then ''<br /><a href='' @ url_encoded @ ''>''
              @ toStdString qt (toHtmlEscaped qt (fromStdString qt ''<DIR> ''))
              @ toStdString qt (toHtmlEscaped qt (fileName file)) @ ''</a>''
         else ''<br /><a href='' @ url_encoded @ ''>''
              @ toStdString qt (toHtmlEscaped qt (fileName file)) @ ''</a>'')"

definition change_dir :: "'m qt_env_scheme \<Rightarrow> qstring \<Rightarrow> qstring \<Rightarrow> qstring" where
  "change_dir qt dir path =
     (let current_dir = fromNativeSeparators qt path
      in if path \<noteq> fromStdString qt ''/''
         then (case setCurrent qt dir current_dir of None \<Rightarrow> dir | Some d \<Rightarrow> d)
         else (case setCurrent qt dir (fromStdString qt ''/'') of None \<Rightarrow> dir | Some d \<Rightarrow> d))"

definition list_directory :: "'m qt_env_scheme \<Rightarrow> qstring \<Rightarrow> string" where
  "list_directory qt dir =
     ''<html><head><title>Open Web Server</title></head><body><h1>'' @ toStdString qt dir
     @ ''</h1>'' @ concat (map (entry_html qt) (entryInfoList qt dir)) @ ''</body></html>''"

definition response_header :: "string \<Rightarrow> nat \<Rightarrow> string" where
  "response_header mime len =
     ''HTTP/1.1 200 OK'' @ CRLF @ ''Content-Type: '' @ mime @ CRLF @
     ''Connection: close'' @ CRLF @ ''Content-Length: '' @ to_string len @ CRLF @ CRLF"

text \<open>The tail of \<open>onClientRequest\<close>, common to both branches; the moved-from vector is empty.\<close>

definition finish_response ::
  "string \<Rightarrow> bool \<Rightarrow> bool \<Rightarrow> string \<Rightarrow> int \<Rightarrow> client_session \<Rightarrow> (qstring \<rightharpoonup> string)
   \<Rightarrow> (qstring \<rightharpoonup> string) \<times> client_session" where
  "finish_response mime include_header should_cache_response body pending_bytes cs ch =
     (let header = response_header mime (nat ((int (length body) + pending_bytes) mod 2 ^ 64));
          cs = cs\<lparr>send_message := []\<rparr>;
          cs = (if include_header
                then cs\<lparr>send_message := send_message cs @ header,
                        send_message_header_size := int (length header)\<rparr>
                else cs);
          cs = cs\<lparr>send_message := send_message cs @ body\<rparr>;
          path = request_path (request cs)
      in if should_cache_response
         then (ch(path \<mapsto> send_message cs),
               cs\<lparr>send_message := [], cache_iterator := Some path, is_cached := True\<rparr>)
         else (ch, cs))"

text \<open>
  \<open>onClientRequest\<close>. In the directory branch \<open>should_cache_response\<close> is read without
  having been assigned: \<open>uninit\<close> is the value it happens to have. None is the undefined
  behaviour of \<open>parse\<close> and of \<open>resize\<close>.
\<close>

definition onClientRequest ::
  "'m qt_env_scheme \<Rightarrow> bool \<Rightarrow> (qstring \<rightharpoonup> string) \<Rightarrow> qstring \<Rightarrow> client_session
   \<Rightarrow> ((qstring \<rightharpoonup> string) \<times> qstring \<times> client_session) option" where
  "onClientRequest qt uninit ch dir cs =
     (if ewouldblock_flag cs then Some (ch, dir, cs\<lparr>ewouldblock_flag := False\<rparr>)
      else do {
        (rv, req) \<leftarrow> parse qt (request cs);
        let cs = cs\<lparr>request := req\<rparr>;
        let path = request_path req;
        if existsFile qt dir path then
          (if ch path \<noteq> None
           then Some (ch, dir, cs\<lparr>cache_iterator := Some path, is_cached := True\<rparr>)
           else do {
             let cs = cs\<lparr>cache_iterator := None\<rparr>;
             let include_header = (\<not> send_message_has_more_bytes cs);
             (body, pending_bytes, cs) \<leftarrow> serve_file qt dir cs;
             let (ch, cs) = finish_response (mimeName qt dir path) include_header True body
                              pending_bytes cs ch;
             Some (ch, dir, cs)
           })
        else do {
          let dir = change_dir qt dir path;
          let body = list_directory qt dir;
          let (ch, cs) = finish_response ''text/html'' True uninit body 0 cs ch;
          Some (ch, dir, cs)
        }
      })"

subsection \<open>Sending\<close>

text \<open>
  The result of one \<open>send\<close> on a non-blocking socket: a number of bytes (never more than
  were offered, 0 when the peer has closed), EWOULDBLOCK or EAGAIN, or another error.
  \<open>net k\<close> is the result of the k-th call of the loop.
\<close>

datatype send_result = Sent nat | SendAgain | SendError
datatype send_outcome = AllSent | Blocked | PeerClosed | Failed

function send_loop :: "(nat \<Rightarrow> send_result) \<Rightarrow> nat \<Rightarrow> string \<Rightarrow> nat \<Rightarrow> nat \<times> send_outcome" where
  "send_loop net k data total_bytes =
     (if total_bytes < length data
      then (case net k of
              SendAgain \<Rightarrow> (total_bytes, Blocked)
            | SendError \<Rightarrow> (total_bytes, Failed)
            | Sent n \<Rightarrow>
                (let snd = min n (length data - total_bytes)
                 in if snd = 0 then (total_bytes, PeerClosed)
                    else send_loop net (Suc k) data (total_bytes + snd)))
      else (total_bytes, AllSent))"
  by pat_completeness auto
termination
  by (relation "measure (\<lambda>(net, k, data, done). length data - done)") auto

declare send_loop.simps [simp del]

text \<open>
  The bookkeeping of \<open>dispatchMessageQueue\<close> after the send loop on the front session:
  the flags set inside the loop, then the index and the erasure of what was sent.
\<close>

definition after_send :: "nat \<Rightarrow> send_outcome \<Rightarrow> client_session \<Rightarrow> client_session" where
  "after_send sent out cs =
     (let cs = (case out of
                  Blocked \<Rightarrow> cs\<lparr>ewouldblock_flag := True\<rparr>
                | AllSent \<Rightarrow> cs
                | _ \<Rightarrow> if is_cached cs
                       then cs\<lparr>send_message := [], send_message_has_more_bytes := False\<rparr> else cs);
          cs = cs\<lparr>send_message_index := send_message_index cs + int sent\<rparr>
      in if is_cached cs then cs else cs\<lparr>send_message := drop sent (send_message cs)\<rparr>)"

definition finished :: "client_session \<Rightarrow> bool" where
  "finished cs \<longleftrightarrow> is_cached cs \<or> (send_message cs = [] \<and> \<not> send_message_has_more_bytes cs)"

definition response_data :: "(qstring \<rightharpoonup> string) \<Rightarrow> client_session \<Rightarrow> string option" where
  "response_data ch cs =
     (if is_cached cs then Option.bind (cache_iterator cs) ch else Some (send_message cs))"

definition rotate_blocked :: "client_session list \<Rightarrow> client_session list" where
  "rotate_blocked q = (if ewouldblock_flag (hd q) \<and> length q > 1 then tl q @ [hd q] else q)"

text \<open>
  One round of \<open>dispatchMessageQueue\<close> with the mutex held. \<open>front()\<close> of an empty queue
  (after a spurious wake-up) is undefined behaviour.
\<close>

definition dispatch_round ::
  "'m qt_env_scheme \<Rightarrow> bool \<Rightarrow> (nat \<Rightarrow> send_result) \<Rightarrow> disp_state \<Rightarrow> disp_state option" where
  "dispatch_round qt uninit net st =
     (if req_queue st = [] then None
      else do {
        let q = rotate_blocked (req_queue st);
        (ch, dir, cs) \<leftarrow> onClientRequest qt uninit (cache st) (cwd st) (hd q);
        data \<leftarrow> response_data ch cs;
        let (sent, out) = send_loop net 0 data 0;
        let cs = after_send sent out cs;
        let st = st\<lparr>cache := ch, cwd := dir, wire := wire st @ [(socket cs, take sent data)]\<rparr>;
        if finished cs
        then Some (st\<lparr>req_queue := tl q,
                      qclients_close := (if \<not> keep_alive cs then qclients_close st @ [cs]
                                         else qclients_close st)\<rparr>)
        else Some (st\<lparr>req_queue := cs # tl q\<rparr>)
      })"

fun dispatch_rounds ::
  "'m qt_env_scheme \<Rightarrow> bool \<Rightarrow> (nat \<Rightarrow> send_result) list \<Rightarrow> disp_state \<Rightarrow> disp_state option" where
  "dispatch_rounds qt uninit [] st = Some st"
| "dispatch_rounds qt uninit (net # nets) st =
     Option.bind (dispatch_round qt uninit net st) (dispatch_rounds qt uninit nets)"

text \<open>\<open>onNewMessageArrived\<close>: push under the mutex (the notification only wakes the thread).\<close>

definition onNewMessageArrived :: "client_session \<Rightarrow> disp_state \<Rightarrow> disp_state" where
  "onNewMessageArrived cs st = st\<lparr>req_queue := req_queue st @ [cs]\<rparr>"

lemma length_response_header:
  "length (response_header mime n) = 72 + length mime + length (to_string n)"
  by (simp add: response_header_def CRLF_def)

subsection \<open>The send loop\<close>

lemma send_loop_bounds:
  assumes "k0 \<le> length data"
  shows "k0 \<le> fst (send_loop net k data k0) \<and> fst (send_loop net k data k0) \<le> length data \<and>
         (snd (send_loop net k data k0) = AllSent \<longleftrightarrow> fst (send_loop net k data k0) = length data)"
  using assms
proof (induction net k data k0 rule: send_loop.induct)
  case (1 net k data k0)
  show ?case
  proof (cases "k0 < length data")
    case False
    with "1.prems" have "k0 = length data" by simp
    then show ?thesis by (simp add: send_loop.simps [of net k data "length data"])
  next
    case True
    show ?thesis
    proof (cases "net k")
      case (Sent n)
      let ?m = "min n (length data - k0)"
      show ?thesis
      proof (cases "?m = 0")
        case True
        with \<open>k0 < length data\<close> Sent show ?thesis
          by (auto simp: send_loop.simps [of net k data k0])
      next
        case False
        with \<open>k0 < length data\<close> Sent
        have "send_loop net k data k0 = send_loop net (Suc k) data (k0 + ?m)"
          by (auto simp: send_loop.simps [of net k data k0] Let_def)
        moreover have "k0 + ?m \<le> length data" using True by simp
        ultimately show ?thesis
          using "1.IH" [OF True Sent refl False] by (metis add_leD1)
      qed
    qed (use True in \<open>simp_all add: send_loop.simps [of net k data k0]\<close>)
  qed
qed

lemma send_loop_start:
  "send_loop net 0 data 0 = (sent, out) \<Longrightarrow>
     sent \<le> length data \<and> (out = AllSent \<longleftrightarrow> sent = length data)"
  using send_loop_bounds [of 0 data net 0] by simp

text \<open>A socket that always accepts what it is offered.\<close>

lemma send_loop_all:
  assumes "\<And>k. \<exists>n. net k = Sent n \<and> length data \<le> n"
  shows "send_loop net k data 0 = (length data, AllSent)"
proof (cases "data = []")
  case True
  then show ?thesis by (simp add: send_loop.simps)
next
  case False
  from assms obtain n where "net k = Sent n" "length data \<le> n" by blast
  with False show ?thesis
    by (simp add: send_loop.simps [of net k data 0] send_loop.simps [of net "Suc k" data "length data"])
qed

subsection \<open>File responses\<close>

text \<open>The documented behaviour of \<open>QFile\<close> on a readable regular file.\<close>

definition file_ok :: "'m qt_env_scheme \<Rightarrow> qstring \<Rightarrow> qstring \<Rightarrow> string \<Rightarrow> bool" where
  "file_ok qt dir path content \<longleftrightarrow>
     existsFile qt dir path \<and> fileSize qt dir path = int (length content) \<and>
     (\<forall>pos n. 0 \<le> pos \<longrightarrow> fileRead qt dir path pos n = take n (drop (nat pos) content))"

lemma read_chunk_file:
  assumes "file_ok qt dir path content" and "n \<le> length content"
  shows "read_chunk qt dir path 0 n = take n content"
  using assms by (simp add: read_chunk_def file_ok_def Let_def)

text \<open>The bytes of the response to a first request of a file.\<close>

definition file_response :: "'m qt_env_scheme \<Rightarrow> qstring \<Rightarrow> qstring \<Rightarrow> string \<Rightarrow> string" where
  "file_response qt dir path content =
     response_header (mimeName qt dir path) (length content) @ take (nat FILE_CHUNK) content"

lemma onClientRequest_file:
  assumes fresh: "fresh_session cs"
    and parse: "parse qt (request cs) = Some (rv, req)"
    and rf: "file_ok qt dir (request_path req) content"
    and size: "length content < 2 ^ 64"
    and miss: "ch (request_path req) = None"
  shows "\<exists>cs'. onClientRequest qt uninit ch dir cs =
      Some (ch(request_path req \<mapsto> file_response qt dir (request_path req) content), dir, cs') \<and>
    is_cached cs' \<and> cache_iterator cs' = Some (request_path req) \<and> socket cs' = socket cs \<and>
    keep_alive cs' \<and> send_message cs' = []"
proof -
  let ?path = "request_path req"
  let ?cs = "cs\<lparr>request := req, cache_iterator := None\<rparr>"
  let ?body = "take (nat FILE_CHUNK) content"
  have ex: "existsFile qt dir ?path" and sz: "fileSize qt dir ?path = int (length content)"
    using rf by (simp_all add: file_ok_def)
  have idx: "send_message_index cs = 0" "send_message_header_size cs = 0"
    "\<not> send_message_has_more_bytes cs" "\<not> ewouldblock_flag cs" "keep_alive cs"
    using fresh by (simp_all add: fresh_session_def)
  obtain pend more where serve: "serve_file qt dir ?cs =
      Some (?body, pend, ?cs\<lparr>send_message_has_more_bytes := more\<rparr>)"
    and len: "int (length ?body) + pend = int (length content)"
  proof (cases "int (length content) > FILE_CHUNK")
    case True
    then have "nat FILE_CHUNK \<le> length content" by (simp add: FILE_CHUNK_def)
    with True idx sz show ?thesis
      by (intro that [of "int (length content) - FILE_CHUNK" True])
        (simp_all add: serve_file_def read_chunk_file [OF rf] FILE_CHUNK_def)
  next
    case False
    with idx sz show ?thesis
      by (intro that [of 0 False]) (simp_all add: serve_file_def read_chunk_file [OF rf])
  qed
  have "nat ((int (length ?body) + pend) mod 2 ^ 64) = length content"
    using size by (simp only: len) simp
  then show ?thesis
    using parse ex miss idx serve
    by (simp add: onClientRequest_def finish_response_def Let_def file_response_def)
qed

lemma round_of_file:
  assumes "fresh_session cs"
    and "parse qt (request cs) = Some (rv, req)"
    and "file_ok qt (cwd st) (request_path req) content"
    and "length content < 2 ^ 64"
    and "cache st (request_path req) = None"
    and queue: "req_queue st = [cs]"
    and out: "send_loop net 0 (file_response qt (cwd st) (request_path req) content) 0 = (sent, out)"
  shows "\<exists>st'. dispatch_round qt uninit net st = Some st' \<and> req_queue st' = [] \<and>
    cache st' = (cache st)(request_path req \<mapsto> file_response qt (cwd st) (request_path req) content) \<and>
    wire st' = wire st @
      [(socket cs, take sent (file_response qt (cwd st) (request_path req) content))] \<and>
    qclients_close st' = qclients_close st"
proof -
  let ?r = "file_response qt (cwd st) (request_path req) content"
  obtain cs' where req: "onClientRequest qt uninit (cache st) (cwd st) cs =
      Some ((cache st)(request_path req \<mapsto> ?r), cwd st, cs')"
    and cs': "is_cached cs'" "cache_iterator cs' = Some (request_path req)" "socket cs' = socket cs"
      "keep_alive cs'"
    using onClientRequest_file [where ch = "cache st", OF assms(1-5)] by blast
  have "is_cached (after_send sent out cs')" "keep_alive (after_send sent out cs')"
    "socket (after_send sent out cs') = socket cs"
    using cs' by (simp_all add: after_send_def Let_def split: send_outcome.split)
  then show ?thesis
    using queue req cs' out
    by (simp add: dispatch_round_def rotate_blocked_def response_data_def finished_def)
qed

text \<open>
  A first request of a file of at most one megabyte on a socket that takes all bytes is
  answered by the header, whose Content-Length is the file's size, and the whole file; the
  session leaves the queue.
\<close>

lemma small_file_served:
  assumes "fresh_session cs"
    and "parse qt (request cs) = Some (rv, req)"
    and "file_ok qt (cwd st) (request_path req) content"
    and small: "int (length content) \<le> FILE_CHUNK"
    and "cache st (request_path req) = None"
    and "req_queue st = [cs]"
    and net: "\<forall>k. \<exists>n. net k = Sent n \<and>
                length (file_response qt (cwd st) (request_path req) content) \<le> n"
  shows "\<exists>st'. dispatch_round qt uninit net st = Some st' \<and> req_queue st' = [] \<and>
    wire st' = wire st @
      [(socket cs, response_header (mimeName qt (cwd st) (request_path req)) (length content) @ content)]"
proof -
  let ?r = "file_response qt (cwd st) (request_path req) content"
  have len: "length content < 2 ^ 64" using small by (simp add: FILE_CHUNK_def)
  have r: "?r = response_header (mimeName qt (cwd st) (request_path req)) (length content) @ content"
    using small by (simp add: file_response_def)
  have "send_loop net 0 ?r 0 = (length ?r, AllSent)"
    using net by (intro send_loop_all) blast
  from round_of_file [OF assms(1-3) len assms(5,6) this, of uninit] show ?thesis
    by (auto simp: r)
qed

text \<open>
  A file of more than one megabyte is announced with its full size but only its first
  megabyte is ever sent: the response is cached after the first chunk, a cached session is
  always dequeued, and \<open>send_message_has_more_bytes\<close> is not looked at.
\<close>

lemma large_file_truncated:
  assumes "fresh_session cs"
    and "parse qt (request cs) = Some (rv, req)"
    and "file_ok qt (cwd st) (request_path req) content"
    and large: "int (length content) > FILE_CHUNK" and "length content < 2 ^ 64"
    and "cache st (request_path req) = None"
    and "req_queue st = [cs]"
  shows "\<exists>st' sent. dispatch_round qt uninit net st = Some st' \<and> req_queue st' = [] \<and>
    wire st' = wire st @
      [(socket cs, take sent (response_header (mimeName qt (cwd st) (request_path req)) (length content)
                               @ take (nat FILE_CHUNK) content))] \<and>
    take (nat FILE_CHUNK) content \<noteq> content"
proof -
  obtain sent out where "send_loop net 0 (file_response qt (cwd st) (request_path req) content) 0 = (sent, out)"
    by force
  from round_of_file [OF assms(1-3,5-7) this, of uninit] large show ?thesis
    by (auto simp: file_response_def FILE_CHUNK_def)
qed

subsection \<open>Cached responses\<close>

text \<open>
  A cached path is answered with the cached bytes, whatever the file holds now, and
  one round always ends the session: bytes the socket did not take are dropped, also when
  \<open>send\<close> only reported EWOULDBLOCK.
\<close>

lemma cached_round:
  assumes "\<not> ewouldblock_flag cs"
    and "parse qt (request cs) = Some (rv, req)"
    and "existsFile qt (cwd st) (request_path req)"
    and "cache st (request_path req) = Some data"
    and "req_queue st = cs # rest"
    and "send_loop net 0 data 0 = (sent, out)"
  shows "\<exists>st'. dispatch_round qt uninit net st = Some st' \<and> req_queue st' = rest \<and>
    cache st' = cache st \<and> wire st' = wire st @ [(socket cs, take sent data)]"
  using assms
  by (auto simp: dispatch_round_def rotate_blocked_def onClientRequest_def response_data_def
      finished_def after_send_def Let_def split: send_outcome.split)

subsection \<open>What a round leaves alone\<close>

lemma finish_response_frame:
  "finish_response mime ih sc body pend cs ch = (ch', cs') \<Longrightarrow>
     keep_alive cs' = keep_alive cs \<and> socket cs' = socket cs"
  by (auto simp: finish_response_def Let_def split: if_splits)

lemma serve_file_frame:
  "serve_file qt dir cs = Some (body, pend, cs') \<Longrightarrow>
     keep_alive cs' = keep_alive cs \<and> socket cs' = socket cs"
  by (auto simp: serve_file_def Let_def split: if_splits)

lemma onClientRequest_frame:
  assumes "onClientRequest qt uninit ch dir cs = Some (ch', dir', cs')"
  shows "keep_alive cs' = keep_alive cs \<and> socket cs' = socket cs"
proof (cases "ewouldblock_flag cs")
  case True
  with assms show ?thesis by (auto simp: onClientRequest_def)
next
  case False
  with assms obtain rv req where p: "parse qt (request cs) = Some (rv, req)"
    by (auto simp: onClientRequest_def bind_eq_Some_conv)
  show ?thesis
  proof (cases "existsFile qt dir (request_path req)")
    case ex: True
    show ?thesis
    proof (cases "ch (request_path req)")
      case None
      let ?cs = "cs\<lparr>request := req, cache_iterator := None\<rparr>"
      let ?fin = "\<lambda>body pend cs1. finish_response (mimeName qt dir (request_path req))
              (\<not> send_message_has_more_bytes cs) True body pend cs1 ch"
      from False assms p ex None obtain r where "serve_file qt dir ?cs = Some r"
        by (auto simp: onClientRequest_def Let_def bind_eq_Some_conv)
      then obtain body pend cs1 where s: "serve_file qt dir ?cs = Some (body, pend, cs1)"
        by (cases r) auto
      obtain ch1 cs2 where f: "?fin body pend cs1 = (ch1, cs2)" by force
      from False assms p ex None s f have "cs' = cs2"
        by (simp add: onClientRequest_def Let_def)
      from serve_file_frame [OF s] finish_response_frame [OF f] \<open>cs' = cs2\<close> show ?thesis by simp
    qed (use False assms p ex in \<open>auto simp: onClientRequest_def Let_def\<close>)
  next
    case nex: False
    from False assms p nex obtain mime ih sc body pend
      where "finish_response mime ih sc body pend (cs\<lparr>request := req\<rparr>) ch = (ch', cs')"
      by (auto simp: onClientRequest_def Let_def bind_eq_Some_conv split: prod.split_asm if_split_asm)
    from finish_response_frame [OF this] show ?thesis by simp
  qed
qed

lemma after_send_frame [simp]:
  "keep_alive (after_send sent out cs) = keep_alive cs"
  "socket (after_send sent out cs) = socket cs"
  "is_cached (after_send sent out cs) = is_cached cs"
  by (simp_all add: after_send_def Let_def split: send_outcome.split)

lemma set_rotate_blocked: "q \<noteq> [] \<Longrightarrow> set (rotate_blocked q) = set q"
  by (cases q) (auto simp: rotate_blocked_def)

lemma rotate_blocked_ne [simp]: "rotate_blocked q = [] \<longleftrightarrow> q = []"
  by (cases q) (auto simp: rotate_blocked_def)

lemma dispatch_round_close:
  assumes "\<forall>cs \<in> set (req_queue st). keep_alive cs"
    and round: "dispatch_round qt uninit net st = Some st'"
  shows "qclients_close st' = qclients_close st \<and> (\<forall>cs \<in> set (req_queue st'). keep_alive cs)"
proof -
  let ?q = "rotate_blocked (req_queue st)"
  from round have ne: "req_queue st \<noteq> []" by (auto simp: dispatch_round_def)
  have q: "\<forall>cs \<in> set ?q. keep_alive cs" using assms(1) ne by (simp add: set_rotate_blocked)
  then have hd: "keep_alive (hd ?q)" and tl: "\<forall>cs \<in> set (tl ?q). keep_alive cs"
    using ne by (simp_all add: list.set_sel(2))
  obtain r where "onClientRequest qt uninit (cache st) (cwd st) (hd ?q) = Some r"
    using round ne by (auto simp: dispatch_round_def Let_def bind_eq_Some_conv)
  then obtain ch dir cs
    where req: "onClientRequest qt uninit (cache st) (cwd st) (hd ?q) = Some (ch, dir, cs)"
    by (cases r) auto
  then obtain data where data: "response_data ch cs = Some data"
    using round ne by (auto simp: dispatch_round_def Let_def bind_eq_Some_conv)
  obtain sent out where "send_loop net 0 data 0 = (sent, out)" by force
  with round ne req data hd tl onClientRequest_frame [OF req] show ?thesis
    by (auto simp: dispatch_round_def Let_def split: if_splits)
qed

text \<open>
  Nothing assigns \<open>keep_alive\<close>, so no run of a dispatcher over sessions from the
  composer ever asks for a connection to be closed, although every response says
  \<open>Connection: close\<close>.
\<close>

lemma server_never_closes:
  assumes "\<forall>cs \<in> set (req_queue st). fresh_session cs"
    and "dispatch_rounds qt uninit nets st = Some st'"
  shows "qclients_close st' = qclients_close st"
proof -
  have "\<forall>cs \<in> set (req_queue st). keep_alive cs"
    using assms(1) by (simp add: fresh_session_def)
  then show ?thesis using assms(2)
  proof (induction nets arbitrary: st)
    case (Cons net nets)
    then obtain st1 where "dispatch_round qt uninit net st = Some st1"
      "dispatch_rounds qt uninit nets st1 = Some st'"
      by (auto simp: bind_eq_Some_conv)
    with Cons dispatch_round_close show ?case by metis
  qed simp
qed

subsection \<open>Responses that are not cached\<close>

lemma send_loop_no_error:
  assumes "\<forall>k. net k \<noteq> SendError \<and> net k \<noteq> Sent 0" and "k0 \<le> length data"
  shows "snd (send_loop net k data k0) = AllSent \<or> snd (send_loop net k data k0) = Blocked"
  using assms
proof (induction net k data k0 rule: send_loop.induct)
  case (1 net k data k0)
  show ?case
  proof (cases "k0 < length data")
    case False
    then show ?thesis by (simp add: send_loop.simps [of net k data k0])
  next
    case True
    show ?thesis
    proof (cases "net k")
      case (Sent n)
      with "1.prems" have "n \<noteq> 0" by metis
      with True Sent "1.IH" [OF True Sent refl] "1.prems" show ?thesis
        by (simp add: send_loop.simps [of net k data k0] Let_def)
    qed (use "1.prems" True in \<open>simp_all add: send_loop.simps [of net k data k0]\<close>)
  qed
qed

text \<open>One session of the queue has \<open>rest\<close> left to send, or nothing is left to do.\<close>

definition pending :: "disp_state \<Rightarrow> string \<Rightarrow> bool" where
  "pending st rest \<longleftrightarrow> req_queue st = [] \<and> rest = [] \<or>
     (\<exists>cs. req_queue st = [cs] \<and> ewouldblock_flag cs \<and> \<not> is_cached cs \<and>
       \<not> send_message_has_more_bytes cs \<and> send_message cs = rest)"

lemma pending_round:
  assumes "pending st rest"
    and "\<forall>k. net k \<noteq> SendError \<and> net k \<noteq> Sent 0"
    and "dispatch_round qt uninit net st = Some st'"
  shows "\<exists>sd sent. wire st' = wire st @ [(sd, take sent rest)] \<and> pending st' (drop sent rest)"
proof -
  from assms(1,3) obtain cs where cs: "req_queue st = [cs]" "ewouldblock_flag cs" "\<not> is_cached cs"
    "\<not> send_message_has_more_bytes cs" "send_message cs = rest"
    by (auto simp: pending_def dispatch_round_def)
  obtain sent out where l: "send_loop net 0 rest 0 = (sent, out)" by force
  have "out = AllSent \<or> out = Blocked"
    using send_loop_no_error [OF assms(2), of 0 rest 0] l by simp
  with send_loop_start [OF l] show ?thesis
    using assms(3) cs l
    by (intro exI [of _ "socket cs"] exI [of _ sent])
      (auto simp: pending_def dispatch_round_def rotate_blocked_def onClientRequest_def
        response_data_def finished_def after_send_def Let_def split: if_splits)
qed

lemma pending_rounds:
  assumes "pending st rest"
    and "\<forall>net \<in> set nets. \<forall>k. net k \<noteq> SendError \<and> net k \<noteq> Sent 0"
    and "dispatch_rounds qt uninit nets st = Some st'"
  shows "\<exists>sent rest'. concat (map snd (wire st')) = concat (map snd (wire st)) @ sent \<and>
    sent @ rest' = rest \<and> pending st' rest'"
  using assms
proof (induction nets arbitrary: st rest)
  case Nil
  then show ?case by auto
next
  case (Cons net nets)
  from Cons.prems(3) obtain st1 where r: "dispatch_round qt uninit net st = Some st1"
    "dispatch_rounds qt uninit nets st1 = Some st'"
    by (auto simp: bind_eq_Some_conv)
  from pending_round [OF Cons.prems(1) _ r(1)] Cons.prems(2) obtain sd a
    where w: "wire st1 = wire st @ [(sd, take a rest)]" and "pending st1 (drop a rest)"
    by auto
  with Cons.IH r(2) Cons.prems(2) obtain b rest'
    where "concat (map snd (wire st')) = concat (map snd (wire st1)) @ b"
      "b @ rest' = drop a rest" "pending st' rest'"
    by (metis list.set_intros(2))
  with w show ?case
    by (intro exI [of _ "take a rest @ b"] exI [of _ rest']) simp
qed


subsection \<open>Instances\<close>

definition sample_session :: client_session where
  "sample_session = (new_ClientSession 7)\<lparr>request := sample_header\<rparr>"

definition sample_state :: "client_session \<Rightarrow> disp_state" where
  "sample_state cs =
     \<lparr>req_queue = [cs], cache = Map.empty, cwd = [], qclients_close = [], wire = []\<rparr>"

definition sample_request :: http_header_parser where
  "sample_request = sample_header\<lparr>request_path := [47, 97], is_dirty := False\<rparr>"

lemma sample_session_simps [simp]:
  "fresh_session sample_session" "request sample_session = sample_header" "socket sample_session = 7"
  "request_path sample_request = [47, 97]"
  by (simp_all add: sample_session_def fresh_session_def new_ClientSession_def sample_header_def
      new_HTTP_Header_parser_def sample_request_def)

lemma sample_file: "file_ok (sample_qt content) dir [47, 97] content"
  "existsFile (sample_qt content) dir [47, 97]"
  by (simp_all add: file_ok_def sample_qt_def)

lemma sample_parse: "parse (sample_qt content) sample_header = Some (0, sample_request)"
  by (simp add: parse_sample sample_request_def)

lemma sample_state_simps [simp]:
  "req_queue (sample_state cs) = [cs]" "cache (sample_state cs) = Map.empty" "cwd (sample_state cs) = []"
  "qclients_close (sample_state cs) = []" "wire (sample_state cs) = []"
  by (simp_all add: sample_state_def)

lemma small_file_served_witness:
  "\<exists>st'. dispatch_round (sample_qt ''hello'') False (\<lambda>k. Sent 1000) (sample_state sample_session) = Some st' \<and>
     wire st' = [(7, response_header ''text/plain'' (length ''hello'') @ ''hello'')]"
proof -
  have five: "length (to_string (Suc (Suc (Suc (Suc (Suc 0)))))) = 1" by (simp add: to_string.simps)
  have "length (file_response (sample_qt ''hello'') [] [47, 97] ''hello'') \<le> 1000"
    by (simp add: file_response_def length_response_header sample_qt_def five FILE_CHUNK_def)
  then have "\<exists>st'. dispatch_round (sample_qt ''hello'') False (\<lambda>k. Sent 1000) (sample_state sample_session) = Some st' \<and>
    req_queue st' = [] \<and> wire st' = wire (sample_state sample_session) @
      [(socket sample_session, response_header (mimeName (sample_qt ''hello'') (cwd (sample_state sample_session))
          (request_path sample_request)) (length ''hello'') @ ''hello'')]"
    by (intro small_file_served [where rv = 0])
      (auto simp: sample_parse sample_file FILE_CHUNK_def)
  then show ?thesis by (auto simp: sample_qt_def)
qed

lemma large_file_truncated_witness:
  "\<exists>st'. dispatch_round (sample_qt (replicate 2000000 (CHR ''x''))) False (\<lambda>k. Sent 10000000)
           (sample_state sample_session) = Some st' \<and> req_queue st' = []"
proof -
  let ?c = "replicate 2000000 (CHR ''x'')"
  have l: "int (length ?c) > FILE_CHUNK" "length ?c < 2 ^ 64"
    by (simp_all only: length_replicate FILE_CHUNK_def) simp_all
  have "request_path sample_request = [47, 97]" by simp
  from large_file_truncated [OF _ _ _ l, of sample_session "sample_qt ?c" 0 sample_request
      "sample_state sample_session" False "\<lambda>k. Sent 10000000"]
  show ?thesis using sample_parse [of ?c] sample_file(1) [of ?c "[]"] by auto
qed

lemma cached_round_witness:
  "\<exists>st'. dispatch_round (sample_qt ''new'') False (\<lambda>k. if k = 0 then Sent 2 else SendAgain)
           ((sample_state sample_session)\<lparr>cache := [[47, 97] \<mapsto> ''old content'']\<rparr>) = Some st' \<and>
         req_queue st' = [] \<and> wire st' = [(7, ''ol'')]"
proof -
  let ?st = "(sample_state sample_session)\<lparr>cache := [[47, 97] \<mapsto> ''old content'']\<rparr>"
  have l: "send_loop (\<lambda>k. if k = 0 then Sent 2 else SendAgain) 0 ''old content'' 0 = (2, Blocked)"
    by (simp add: send_loop.simps numeral_2_eq_2)
  from cached_round [of sample_session "sample_qt ''new''" 0 sample_request ?st "''old content''" "[]",
      OF _ _ _ _ _ l, of False]
  show ?thesis using sample_file(2) [of "''new''" "[]"]
    by (auto simp: sample_parse sample_session_def new_ClientSession_def)
qed

lemma server_never_closes_witness:
  "qclients_close (sample_state sample_session) = []"
  using server_never_closes [of "sample_state sample_session" "sample_qt []" False "[]" "sample_state sample_session"]
  by simp


end
