(* ===== verification/Tls_Types.thy ===== *)
theory Tls_Types
  imports Dev_Prelude
begin

unbundle bit_operations_syntax

text \<open>
  The state of libssl's handshake state machine: the enumerations of ssl/statem/statem.h,
  statem_locl.h and include/openssl/ssl.h, the members of \<open>SSL\<close> that the state machine
  reads and writes, the functions it calls, and the accessors of ssl/statem/statem.c. The
  build modelled is the default one: no SCTP, no heartbeats, with next protocol
  negotiation, SRP and PSK.
\<close>

subsection \<open>Enumerations\<close>

datatype OSSL_HANDSHAKE_STATE =
    TLS_ST_BEFORE | TLS_ST_OK
  | DTLS_ST_CR_HELLO_VERIFY_REQUEST | TLS_ST_CR_SRVR_HELLO | TLS_ST_CR_CERT
  | TLS_ST_CR_CERT_STATUS | TLS_ST_CR_KEY_EXCH | TLS_ST_CR_CERT_REQ | TLS_ST_CR_SRVR_DONE
  | TLS_ST_CR_SESSION_TICKET | TLS_ST_CR_CHANGE | TLS_ST_CR_FINISHED
  | TLS_ST_CW_CLNT_HELLO | TLS_ST_CW_CERT | TLS_ST_CW_KEY_EXCH | TLS_ST_CW_CERT_VRFY
  | TLS_ST_CW_CHANGE | TLS_ST_CW_NEXT_PROTO | TLS_ST_CW_FINISHED
  | TLS_ST_SW_HELLO_REQ | TLS_ST_SR_CLNT_HELLO | DTLS_ST_SW_HELLO_VERIFY_REQUEST
  | TLS_ST_SW_SRVR_HELLO | TLS_ST_SW_CERT | TLS_ST_SW_KEY_EXCH | TLS_ST_SW_CERT_REQ
  | TLS_ST_SW_SRVR_DONE | TLS_ST_SR_CERT | TLS_ST_SR_KEY_EXCH | TLS_ST_SR_CERT_VRFY
  | TLS_ST_SR_NEXT_PROTO | TLS_ST_SR_CHANGE | TLS_ST_SR_FINISHED
  | TLS_ST_SW_SESSION_TICKET | TLS_ST_SW_CERT_STATUS | TLS_ST_SW_CHANGE | TLS_ST_SW_FINISHED

datatype WORK_STATE =
  WORK_ERROR | WORK_FINISHED_STOP | WORK_FINISHED_CONTINUE | WORK_MORE_A | WORK_MORE_B

datatype WRITE_TRAN = WRITE_TRAN_ERROR | WRITE_TRAN_CONTINUE | WRITE_TRAN_FINISHED

datatype MSG_FLOW_STATE =
    MSG_FLOW_UNINITED | MSG_FLOW_ERROR | MSG_FLOW_RENEGOTIATE | MSG_FLOW_READING
  | MSG_FLOW_WRITING | MSG_FLOW_FINISHED

datatype READ_STATE = READ_STATE_HEADER | READ_STATE_BODY | READ_STATE_POST_PROCESS

datatype WRITE_STATE =
  WRITE_STATE_TRANSITION | WRITE_STATE_PRE_WORK | WRITE_STATE_SEND | WRITE_STATE_POST_WORK

datatype MSG_PROCESS_RETURN =
    MSG_PROCESS_ERROR | MSG_PROCESS_FINISHED_READING | MSG_PROCESS_CONTINUE_PROCESSING
  | MSG_PROCESS_CONTINUE_READING

datatype SUB_STATE_RETURN = SUB_STATE_ERROR | SUB_STATE_FINISHED | SUB_STATE_END_HANDSHAKE

datatype alert =
    SSL3_AD_UNEXPECTED_MESSAGE | SSL3_AD_HANDSHAKE_FAILURE | SSL_AD_ILLEGAL_PARAMETER
  | SSL_AD_INTERNAL_ERROR | SSL_AD_DECODE_ERROR | SSL_AD_DECRYPT_ERROR

subsection \<open>Constants\<close>

definition SSL3_MT_CLIENT_HELLO :: int where "SSL3_MT_CLIENT_HELLO = 1"
definition SSL3_MT_SERVER_HELLO :: int where "SSL3_MT_SERVER_HELLO = 2"
definition DTLS1_MT_HELLO_VERIFY_REQUEST :: int where "DTLS1_MT_HELLO_VERIFY_REQUEST = 3"
definition SSL3_MT_NEWSESSION_TICKET :: int where "SSL3_MT_NEWSESSION_TICKET = 4"
definition SSL3_MT_CERTIFICATE :: int where "SSL3_MT_CERTIFICATE = 11"
definition SSL3_MT_SERVER_KEY_EXCHANGE :: int where "SSL3_MT_SERVER_KEY_EXCHANGE = 12"
definition SSL3_MT_CERTIFICATE_REQUEST :: int where "SSL3_MT_CERTIFICATE_REQUEST = 13"
definition SSL3_MT_SERVER_DONE :: int where "SSL3_MT_SERVER_DONE = 14"
definition SSL3_MT_CERTIFICATE_VERIFY :: int where "SSL3_MT_CERTIFICATE_VERIFY = 15"
definition SSL3_MT_CLIENT_KEY_EXCHANGE :: int where "SSL3_MT_CLIENT_KEY_EXCHANGE = 16"
definition SSL3_MT_FINISHED :: int where "SSL3_MT_FINISHED = 20"
definition SSL3_MT_CERTIFICATE_STATUS :: int where "SSL3_MT_CERTIFICATE_STATUS = 22"
definition SSL3_MT_NEXT_PROTO :: int where "SSL3_MT_NEXT_PROTO = 67"
definition SSL3_MT_CHANGE_CIPHER_SPEC :: int where "SSL3_MT_CHANGE_CIPHER_SPEC = 0x0101"

lemmas mt_defs =
  SSL3_MT_CLIENT_HELLO_def SSL3_MT_SERVER_HELLO_def DTLS1_MT_HELLO_VERIFY_REQUEST_def
  SSL3_MT_NEWSESSION_TICKET_def SSL3_MT_CERTIFICATE_def SSL3_MT_SERVER_KEY_EXCHANGE_def
  SSL3_MT_CERTIFICATE_REQUEST_def SSL3_MT_SERVER_DONE_def SSL3_MT_CERTIFICATE_VERIFY_def
  SSL3_MT_CLIENT_KEY_EXCHANGE_def SSL3_MT_FINISHED_def SSL3_MT_CERTIFICATE_STATUS_def
  SSL3_MT_NEXT_PROTO_def SSL3_MT_CHANGE_CIPHER_SPEC_def

definition DTLS1_VERSION :: int where "DTLS1_VERSION = 0xFEFF"
definition DTLS1_BAD_VER :: int where "DTLS1_BAD_VER = 0x0100"

text \<open>Key exchange and authentication bits of a cipher suite (ssl_locl.h).\<close>

definition SSL_kDHE :: "32 word" where "SSL_kDHE = 0x2"
definition SSL_kECDHE :: "32 word" where "SSL_kECDHE = 0x4"
definition SSL_kPSK :: "32 word" where "SSL_kPSK = 0x8"
definition SSL_kSRP :: "32 word" where "SSL_kSRP = 0x20"
definition SSL_kRSAPSK :: "32 word" where "SSL_kRSAPSK = 0x40"
definition SSL_kECDHEPSK :: "32 word" where "SSL_kECDHEPSK = 0x80"
definition SSL_kDHEPSK :: "32 word" where "SSL_kDHEPSK = 0x100"
definition SSL_PSK :: "32 word" where
  "SSL_PSK = SSL_kPSK OR SSL_kRSAPSK OR SSL_kECDHEPSK OR SSL_kDHEPSK"
definition SSL_aNULL :: "32 word" where "SSL_aNULL = 0x4"
definition SSL_aPSK :: "32 word" where "SSL_aPSK = 0x10"
definition SSL_aSRP :: "32 word" where "SSL_aSRP = 0x40"

definition SSL_VERIFY_PEER :: "32 word" where "SSL_VERIFY_PEER = 0x1"
definition SSL_VERIFY_FAIL_IF_NO_PEER_CERT :: "32 word" where "SSL_VERIFY_FAIL_IF_NO_PEER_CERT = 0x2"
definition SSL_VERIFY_CLIENT_ONCE :: "32 word" where "SSL_VERIFY_CLIENT_ONCE = 0x4"
definition SSL_OP_COOKIE_EXCHANGE :: "32 word" where "SSL_OP_COOKIE_EXCHANGE = 0x2000"
definition SSL_OP_ALLOW_UNSAFE_LEGACY_RENEGOTIATION :: "32 word" where
  "SSL_OP_ALLOW_UNSAFE_LEGACY_RENEGOTIATION = 0x40000"
definition TLS1_FLAGS_SKIP_CERT_VERIFY :: "32 word" where "TLS1_FLAGS_SKIP_CERT_VERIFY = 0x10"

definition SSL3_HM_HEADER_LENGTH :: nat where "SSL3_HM_HEADER_LENGTH = 4"
definition HELLO_VERIFY_REQUEST_MAX_LENGTH :: nat where "HELLO_VERIFY_REQUEST_MAX_LENGTH = 258"
definition SERVER_HELLO_MAX_LENGTH :: nat where "SERVER_HELLO_MAX_LENGTH = 20000"
definition SERVER_KEY_EXCH_MAX_LENGTH :: nat where "SERVER_KEY_EXCH_MAX_LENGTH = 102400"
definition SERVER_HELLO_DONE_MAX_LENGTH :: nat where "SERVER_HELLO_DONE_MAX_LENGTH = 0"
definition CCS_MAX_LENGTH :: nat where "CCS_MAX_LENGTH = 1"
definition FINISHED_MAX_LENGTH :: nat where "FINISHED_MAX_LENGTH = 64"
definition CLIENT_HELLO_MAX_LENGTH :: nat where "CLIENT_HELLO_MAX_LENGTH = 131396"
definition CLIENT_KEY_EXCH_MAX_LENGTH :: nat where "CLIENT_KEY_EXCH_MAX_LENGTH = 2048"
definition NEXT_PROTO_MAX_LENGTH :: nat where "NEXT_PROTO_MAX_LENGTH = 514"

subsection \<open>The connection\<close>

record OSSL_STATEM =
  state :: MSG_FLOW_STATE
  write_state :: WRITE_STATE
  write_state_work :: WORK_STATE
  read_state :: READ_STATE
  read_state_work :: WORK_STATE
  hand_state :: OSSL_HANDSHAKE_STATE
  in_init :: bool
  read_state_first_init :: bool
  in_handshake :: int
  no_cert_verify :: bool
  use_timer :: bool

text \<open>
  The members of \<open>SSL\<close>, \<open>s->s3\<close>, \<open>s->s3->tmp\<close>, \<open>s->session\<close> and \<open>s->d1\<close> that the state
  machine uses; an \<open>int\<close> used only as a truth value is a bool, a pointer that is only
  compared with NULL is a bool (\<open>peer\<close>, \<open>tlsext_tick\<close>, \<open>tls_session_secret_cb\<close>,
  \<open>psk_identity_hint\<close>, \<open>init_buf\<close>). \<open>new_cipher_set\<close> says whether
  \<open>s3->tmp.new_cipher\<close> is not NULL, and the two words are its algorithm fields.
  \<open>alerts\<close> is the log of the fatal alerts sent, \<open>body\<close> the message body last read, and \<open>env\<close> the rest of
  the connection, the network included.
\<close>

record 'e SSL =
  statem :: OSSL_STATEM
  is_dtls :: bool
  server :: bool
  version :: int
  hit :: bool
  renegotiate :: int
  shutdown :: int
  init_num :: int
  init_buf :: bool
  first_packet :: bool
  tlsext_ticket_expected :: bool
  tlsext_status_expected :: bool
  tls_session_secret_cb :: bool
  tlsext_tick :: bool
  peer :: bool
  verify_mode :: "32 word"
  options :: "32 word"
  s3_flags :: "32 word"
  new_cipher_set :: bool
  algorithm_mkey :: "32 word"
  algorithm_auth :: "32 word"
  cert_req :: int
  cert_request :: bool
  next_proto_neg_seen :: bool
  psk_identity_hint :: bool
  finish_md_len :: int
  change_cipher_spec :: bool
  peer_finish_md :: "byte list"
  in_read_app_data :: bool
  total_renegotiations :: int
  send_connection_binding :: bool
  cookie_verified :: bool
  message_type :: int
  message_size :: nat
  max_cert_list :: nat
  body :: "byte list"
  alerts :: "alert list"
  env :: 'e

text \<open>
  The functions the state machine calls and that are not modelled. \<open>call\<close> covers those
  that return a status, \<open>work\<close> those that return a \<open>WORK_STATE\<close> and \<open>process\<close> the
  message processors.
\<close>

datatype callee =
    Ssl3_init_finished_mac | Statem_flush | Setup_key_block | Change_cipher_state
  | Tls_client_key_exchange_post_work | Ssl3_do_change_cipher_spec
  | Tls_get_message_header | Dtls_get_message | Tls_get_message_body | Grow_init_buf
  | Statem_do_write | Ssl_security_version | Alloc_init_buf | Ssl3_setup_buffers
  | Ssl_init_wbio_buffer | SSL_clear_rest
  | Tls_construct_client_hello | Tls_construct_client_certificate
  | Tls_construct_client_key_exchange | Tls_construct_client_verify
  | Tls_construct_change_cipher_spec | Dtls_construct_change_cipher_spec
  | Tls_construct_next_proto | Tls_construct_finished
  | Dtls_construct_hello_verify_request | Tls_construct_hello_request
  | Tls_construct_server_hello | Tls_construct_server_certificate
  | Tls_construct_server_key_exchange | Tls_construct_certificate_request
  | Tls_construct_server_done | Tls_construct_new_session_ticket | Tls_construct_cert_status

datatype worker =
    Tls_finish_handshake | Tls_prepare_client_certificate
  | Tls_post_process_client_hello | Tls_post_process_client_key_exchange

datatype processor =
    Tls_process_server_hello | Dtls_process_hello_verify | Tls_process_server_certificate
  | Tls_process_cert_status | Tls_process_key_exchange | Tls_process_certificate_request
  | Tls_process_server_done | Tls_process_new_session_ticket
  | Tls_process_client_hello | Tls_process_client_certificate
  | Tls_process_client_key_exchange | Tls_process_cert_verify | Tls_process_next_proto

record 'e tls_ops =
  call :: "callee \<Rightarrow> 'e SSL \<Rightarrow> int \<times> 'e SSL"
  work :: "worker \<Rightarrow> WORK_STATE \<Rightarrow> 'e SSL \<Rightarrow> WORK_STATE \<times> 'e SSL"
  process :: "processor \<Rightarrow> 'e SSL \<Rightarrow> MSG_PROCESS_RETURN \<times> 'e SSL"

abbreviation hs :: "'e SSL \<Rightarrow> OSSL_HANDSHAKE_STATE" where
  "hs s \<equiv> hand_state (statem s)"

definition set_hs :: "OSSL_HANDSHAKE_STATE \<Rightarrow> 'e SSL \<Rightarrow> 'e SSL" where
  "set_hs h s = s\<lparr>statem := (statem s)\<lparr>hand_state := h\<rparr>\<rparr>"

definition set_use_timer :: "bool \<Rightarrow> 'e SSL \<Rightarrow> 'e SSL" where
  "set_use_timer b s = s\<lparr>statem := (statem s)\<lparr>use_timer := b\<rparr>\<rparr>"

definition ssl3_send_alert :: "alert \<Rightarrow> 'e SSL \<Rightarrow> 'e SSL" where
  "ssl3_send_alert a s = s\<lparr>alerts := alerts s @ [a]\<rparr>"

subsection \<open>Accessors of the state machine\<close>

definition SSL_get_state :: "'e SSL \<Rightarrow> OSSL_HANDSHAKE_STATE" where
  "SSL_get_state ssl = hand_state (statem ssl)"

definition SSL_in_init :: "'e SSL \<Rightarrow> bool" where
  "SSL_in_init s = in_init (statem s)"

definition SSL_is_init_finished :: "'e SSL \<Rightarrow> bool" where
  "SSL_is_init_finished s \<longleftrightarrow> \<not> in_init (statem s) \<and> hand_state (statem s) = TLS_ST_OK"

definition SSL_in_before :: "'e SSL \<Rightarrow> bool" where
  "SSL_in_before s \<longleftrightarrow> hand_state (statem s) = TLS_ST_BEFORE \<and> state (statem s) = MSG_FLOW_UNINITED"

definition ossl_statem_clear :: "'e SSL \<Rightarrow> 'e SSL" where
  "ossl_statem_clear s = s\<lparr>statem := (statem s)\<lparr>state := MSG_FLOW_UNINITED,
     hand_state := TLS_ST_BEFORE, in_init := True, no_cert_verify := False\<rparr>\<rparr>"

definition ossl_statem_set_renegotiate :: "'e SSL \<Rightarrow> 'e SSL" where
  "ossl_statem_set_renegotiate s =
     s\<lparr>statem := (statem s)\<lparr>state := MSG_FLOW_RENEGOTIATE, in_init := True\<rparr>\<rparr>"

definition ossl_statem_set_error :: "'e SSL \<Rightarrow> 'e SSL" where
  "ossl_statem_set_error s = s\<lparr>statem := (statem s)\<lparr>state := MSG_FLOW_ERROR\<rparr>\<rparr>"

definition ossl_statem_in_error :: "'e SSL \<Rightarrow> bool" where
  "ossl_statem_in_error s \<longleftrightarrow> state (statem s) = MSG_FLOW_ERROR"

definition ossl_statem_set_in_init :: "bool \<Rightarrow> 'e SSL \<Rightarrow> 'e SSL" where
  "ossl_statem_set_in_init b s = s\<lparr>statem := (statem s)\<lparr>in_init := b\<rparr>\<rparr>"

definition ossl_statem_get_in_handshake :: "'e SSL \<Rightarrow> int" where
  "ossl_statem_get_in_handshake s = in_handshake (statem s)"

definition ossl_statem_set_in_handshake :: "bool \<Rightarrow> 'e SSL \<Rightarrow> 'e SSL" where
  "ossl_statem_set_in_handshake inhand s =
     s\<lparr>statem := (statem s)\<lparr>in_handshake := in_handshake (statem s) + (if inhand then 1 else -1)\<rparr>\<rparr>"

definition ossl_statem_set_hello_verify_done :: "'e SSL \<Rightarrow> 'e SSL" where
  "ossl_statem_set_hello_verify_done s = s\<lparr>statem := (statem s)\<lparr>state := MSG_FLOW_UNINITED,
     in_init := True, hand_state := TLS_ST_SR_CLNT_HELLO\<rparr>\<rparr>"

definition ossl_statem_app_data_allowed :: "'e SSL \<Rightarrow> bool" where
  "ossl_statem_app_data_allowed s =
     (let st = statem s in
      if state st = MSG_FLOW_UNINITED \<or> state st = MSG_FLOW_RENEGOTIATE then False
      else if \<not> in_read_app_data s \<or> total_renegotiations s = 0 then False
      else if server s then hand_state st = TLS_ST_BEFORE \<or> hand_state st = TLS_ST_SR_CLNT_HELLO
      else hand_state st = TLS_ST_CW_CLNT_HELLO)"

lemmas statem_upd_defs =
  set_hs_def set_use_timer_def ssl3_send_alert_def ossl_statem_clear_def ossl_statem_set_renegotiate_def
  ossl_statem_set_error_def ossl_statem_set_in_init_def ossl_statem_set_in_handshake_def
  ossl_statem_set_hello_verify_done_def

subsection \<open>Processing of ChangeCipherSpec and Finished\<close>

text \<open>
  \<open>tls_process_change_cipher_spec\<close> and \<open>tls_process_finished\<close> (statem_lib.c). The DTLS
  header is one byte, three for \<open>DTLS1_BAD_VER\<close>.
\<close>

definition process_error :: "alert \<Rightarrow> 'e SSL \<Rightarrow> MSG_PROCESS_RETURN \<times> 'e SSL" where
  "process_error al s = (MSG_PROCESS_ERROR, ossl_statem_set_error (ssl3_send_alert al s))"

definition tls_process_change_cipher_spec ::
  "'e tls_ops \<Rightarrow> 'e SSL \<Rightarrow> MSG_PROCESS_RETURN \<times> 'e SSL" where
  "tls_process_change_cipher_spec ops s =
     (let remain = length (body s) in
      if is_dtls s \<and> (version s = DTLS1_BAD_VER \<and> remain \<noteq> 1 + 1 \<or>
                      version s \<noteq> DTLS1_BAD_VER \<and> remain \<noteq> 1 - 1)
      then process_error SSL_AD_ILLEGAL_PARAMETER s
      else if \<not> is_dtls s \<and> remain \<noteq> 0 then process_error SSL_AD_ILLEGAL_PARAMETER s
      else if \<not> new_cipher_set s then process_error SSL3_AD_UNEXPECTED_MESSAGE s
      else let s = s\<lparr>change_cipher_spec := True\<rparr>;
               (ret, s) = call ops Ssl3_do_change_cipher_spec s
           in if ret = 0 then process_error SSL_AD_INTERNAL_ERROR s
              else (MSG_PROCESS_CONTINUE_READING, s))"

definition tls_process_finished :: "'e SSL \<Rightarrow> MSG_PROCESS_RETURN \<times> 'e SSL" where
  "tls_process_finished s =
     (if \<not> change_cipher_spec s then process_error SSL3_AD_UNEXPECTED_MESSAGE s
      else let s = s\<lparr>change_cipher_spec := False\<rparr>;
               i = length (peer_finish_md s)
           in if i \<noteq> length (body s) then process_error SSL_AD_DECODE_ERROR s
              else if body s \<noteq> peer_finish_md s then process_error SSL_AD_DECRYPT_ERROR s
              else (MSG_PROCESS_FINISHED_READING, s))"


subsection \<open>A concrete connection\<close>

text \<open>
  An RSA connection over TLS 1.0 in handshake state \<open>h\<close>, on which the properties of the
  state machine are evaluated. Its callees succeed and change nothing.
\<close>

definition sample_statem :: "OSSL_HANDSHAKE_STATE \<Rightarrow> OSSL_STATEM" where
  "sample_statem h = \<lparr>state = MSG_FLOW_READING, write_state = WRITE_STATE_TRANSITION,
     write_state_work = WORK_MORE_A, read_state = READ_STATE_HEADER, read_state_work = WORK_MORE_A,
     hand_state = h, in_init = True, read_state_first_init = False, in_handshake = 0,
     no_cert_verify = False, use_timer = False\<rparr>"

definition sample_ssl :: "OSSL_HANDSHAKE_STATE \<Rightarrow> bool \<Rightarrow> unit SSL" where
  "sample_ssl h resumed = \<lparr>statem = sample_statem h, is_dtls = False, server = True, version = TLS1_VERSION,
     hit = resumed, renegotiate = 0, shutdown = 0, init_num = 0, init_buf = True, first_packet = False,
     tlsext_ticket_expected = False, tlsext_status_expected = False, tls_session_secret_cb = False,
     tlsext_tick = False, peer = False, verify_mode = 0, options = 0, s3_flags = 0,
     new_cipher_set = True, algorithm_mkey = 1, algorithm_auth = 1, cert_req = 0, cert_request = False,
     next_proto_neg_seen = False, psk_identity_hint = False, finish_md_len = 0,
     change_cipher_spec = True, peer_finish_md = [1, 2, 3], in_read_app_data = False,
     total_renegotiations = 0, send_connection_binding = False, cookie_verified = False,
     message_type = SSL3_MT_FINISHED, message_size = 3, max_cert_list = 102400, body = [1, 2, 3],
     alerts = [], env = ()\<rparr>"

definition sample_ops :: "unit tls_ops" where
  "sample_ops = \<lparr>call = (\<lambda>c s. (1, s)), work = (\<lambda>w st s. (WORK_FINISHED_CONTINUE, s)),
     process = (\<lambda>p s. (MSG_PROCESS_CONTINUE_PROCESSING, s))\<rparr>"

lemma sample_statem_simps [simp]:
  "hand_state (sample_statem h) = h" "state (sample_statem h) = MSG_FLOW_READING"
  "read_state (sample_statem h) = READ_STATE_HEADER" "in_init (sample_statem h)"
  "\<not> read_state_first_init (sample_statem h)" "in_handshake (sample_statem h) = 0"
  "\<not> no_cert_verify (sample_statem h)"
  by (simp_all add: sample_statem_def)

lemma sample_simps [simp]:
  "statem (sample_ssl h r) = sample_statem h" "hit (sample_ssl h r) = r" "server (sample_ssl h r)"
  "\<not> is_dtls (sample_ssl h r)" "alerts (sample_ssl h r) = []" "cert_req (sample_ssl h r) = 0"
  "\<not> tlsext_ticket_expected (sample_ssl h r)" "\<not> tlsext_status_expected (sample_ssl h r)"
  "\<not> next_proto_neg_seen (sample_ssl h r)" "\<not> tls_session_secret_cb (sample_ssl h r)"
  "\<not> peer (sample_ssl h r)" "message_type (sample_ssl h r) = SSL3_MT_FINISHED"
  "message_size (sample_ssl h r) = 3" "algorithm_mkey (sample_ssl h r) = 1"
  "algorithm_auth (sample_ssl h r) = 1" "s3_flags (sample_ssl h r) = 0"
  "change_cipher_spec (sample_ssl h r)" "body (sample_ssl h r) = [1, 2, 3]"
  "peer_finish_md (sample_ssl h r) = [1, 2, 3]"
  by (simp_all add: sample_ssl_def)

lemma sample_set_hs [simp]: "set_hs h' (sample_ssl h r) = sample_ssl h' r"
  by (simp add: sample_ssl_def sample_statem_def set_hs_def)

lemma sample_call [simp]: "call sample_ops c s = (1, s)"
  by (simp add: sample_ops_def)


end
