(* ===== verification/Tls_Client.thy ===== *)
theory Tls_Client
  imports Tls_Types
begin

text \<open>
  The client half of the handshake state machine (ssl/statem/statem_clnt.c): which
  messages it accepts in which state, which state it writes next, and the work around a
  message. A \<open>fall through\<close> of the C \<open>switch\<close> is a call of the function for the next label.
\<close>

subsection \<open>Reading\<close>

definition cert_req_allowed :: "'e SSL \<Rightarrow> bool" where
  "cert_req_allowed s \<longleftrightarrow>
     \<not> ((version s > SSL3_VERSION \<and> algorithm_auth s AND SSL_aNULL \<noteq> 0)
        \<or> algorithm_auth s AND (SSL_aSRP OR SSL_aPSK) \<noteq> 0)"

definition key_exchange_expected :: "'e SSL \<Rightarrow> bool" where
  "key_exchange_expected s \<longleftrightarrow>
     algorithm_mkey s AND (SSL_kDHE OR SSL_kECDHE OR SSL_kDHEPSK OR SSL_kECDHEPSK OR SSL_kSRP) \<noteq> 0"

text \<open>\<open>err\<close>: no valid transition.\<close>

definition read_error :: "'e SSL \<Rightarrow> bool \<times> 'e SSL" where
  "read_error s = (False, ssl3_send_alert SSL3_AD_UNEXPECTED_MESSAGE s)"

definition client_read_CERT_REQ :: "'e SSL \<Rightarrow> int \<Rightarrow> bool \<times> 'e SSL" where
  "client_read_CERT_REQ s mt =
     (if mt = SSL3_MT_SERVER_DONE then (True, set_hs TLS_ST_CR_SRVR_DONE s) else read_error s)"

definition client_read_KEY_EXCH :: "'e SSL \<Rightarrow> int \<Rightarrow> bool \<times> 'e SSL" where
  "client_read_KEY_EXCH s mt =
     (if mt = SSL3_MT_CERTIFICATE_REQUEST
      then (if cert_req_allowed s then (True, set_hs TLS_ST_CR_CERT_REQ s) else read_error s)
      else client_read_CERT_REQ s mt)"

definition client_read_CERT_STATUS :: "'e SSL \<Rightarrow> int \<Rightarrow> bool \<times> 'e SSL" where
  "client_read_CERT_STATUS s mt =
     (let ske_expected = key_exchange_expected s in
      if ske_expected \<or> (algorithm_mkey s AND SSL_PSK \<noteq> 0 \<and> mt = SSL3_MT_SERVER_KEY_EXCHANGE)
      then (if mt = SSL3_MT_SERVER_KEY_EXCHANGE then (True, set_hs TLS_ST_CR_KEY_EXCH s)
            else read_error s)
      else client_read_KEY_EXCH s mt)"

definition ossl_statem_client_read_transition :: "'e SSL \<Rightarrow> int \<Rightarrow> bool \<times> 'e SSL" where
  "ossl_statem_client_read_transition s mt =
    (case hand_state (statem s) of
       TLS_ST_CW_CLNT_HELLO \<Rightarrow>
         if mt = SSL3_MT_SERVER_HELLO then (True, set_hs TLS_ST_CR_SRVR_HELLO s)
         else if is_dtls s \<and> mt = DTLS1_MT_HELLO_VERIFY_REQUEST
              then (True, set_hs DTLS_ST_CR_HELLO_VERIFY_REQUEST s)
         else read_error s
     | TLS_ST_CR_SRVR_HELLO \<Rightarrow>
         if hit s then
           (if tlsext_ticket_expected s then
              (if mt = SSL3_MT_NEWSESSION_TICKET then (True, set_hs TLS_ST_CR_SESSION_TICKET s)
               else read_error s)
            else if mt = SSL3_MT_CHANGE_CIPHER_SPEC then (True, set_hs TLS_ST_CR_CHANGE s)
            else read_error s)
         else
           (if is_dtls s \<and> mt = DTLS1_MT_HELLO_VERIFY_REQUEST
            then (True, set_hs DTLS_ST_CR_HELLO_VERIFY_REQUEST s)
            else if version s \<ge> TLS1_VERSION \<and> tls_session_secret_cb s \<and> tlsext_tick s
                    \<and> mt = SSL3_MT_CHANGE_CIPHER_SPEC
            then (True, set_hs TLS_ST_CR_CHANGE (s\<lparr>hit := True\<rparr>))
            else if algorithm_auth s AND (SSL_aNULL OR SSL_aSRP OR SSL_aPSK) = 0
            then (if mt = SSL3_MT_CERTIFICATE then (True, set_hs TLS_ST_CR_CERT s)
                  else read_error s)
            else
              (let ske_expected = key_exchange_expected s in
               if ske_expected
                  \<or> (algorithm_mkey s AND SSL_PSK \<noteq> 0 \<and> mt = SSL3_MT_SERVER_KEY_EXCHANGE)
               then (if mt = SSL3_MT_SERVER_KEY_EXCHANGE then (True, set_hs TLS_ST_CR_KEY_EXCH s)
                     else read_error s)
               else if mt = SSL3_MT_CERTIFICATE_REQUEST \<and> cert_req_allowed s
               then (True, set_hs TLS_ST_CR_CERT_REQ s)
               else if mt = SSL3_MT_SERVER_DONE then (True, set_hs TLS_ST_CR_SRVR_DONE s)
               else read_error s))
     | TLS_ST_CR_CERT \<Rightarrow>
         if tlsext_status_expected s \<and> mt = SSL3_MT_CERTIFICATE_STATUS
         then (True, set_hs TLS_ST_CR_CERT_STATUS s)
         else client_read_CERT_STATUS s mt
     | TLS_ST_CR_CERT_STATUS \<Rightarrow> client_read_CERT_STATUS s mt
     | TLS_ST_CR_KEY_EXCH \<Rightarrow> client_read_KEY_EXCH s mt
     | TLS_ST_CR_CERT_REQ \<Rightarrow> client_read_CERT_REQ s mt
     | TLS_ST_CW_FINISHED \<Rightarrow>
         if tlsext_ticket_expected s then
           (if mt = SSL3_MT_NEWSESSION_TICKET then (True, set_hs TLS_ST_CR_SESSION_TICKET s)
            else read_error s)
         else if mt = SSL3_MT_CHANGE_CIPHER_SPEC then (True, set_hs TLS_ST_CR_CHANGE s)
         else read_error s
     | TLS_ST_CR_SESSION_TICKET \<Rightarrow>
         if mt = SSL3_MT_CHANGE_CIPHER_SPEC then (True, set_hs TLS_ST_CR_CHANGE s)
         else read_error s
     | TLS_ST_CR_CHANGE \<Rightarrow>
         if mt = SSL3_MT_FINISHED then (True, set_hs TLS_ST_CR_FINISHED s) else read_error s
     | _ \<Rightarrow> read_error s)"

subsection \<open>Writing\<close>

definition ossl_statem_client_write_transition :: "'e SSL \<Rightarrow> WRITE_TRAN \<times> 'e SSL" where
  "ossl_statem_client_write_transition s =
    (case hand_state (statem s) of
       TLS_ST_OK \<Rightarrow> (WRITE_TRAN_CONTINUE, set_hs TLS_ST_CW_CLNT_HELLO s)
     | TLS_ST_BEFORE \<Rightarrow> (WRITE_TRAN_CONTINUE, set_hs TLS_ST_CW_CLNT_HELLO s)
     | TLS_ST_CW_CLNT_HELLO \<Rightarrow> (WRITE_TRAN_FINISHED, s)
     | DTLS_ST_CR_HELLO_VERIFY_REQUEST \<Rightarrow> (WRITE_TRAN_CONTINUE, set_hs TLS_ST_CW_CLNT_HELLO s)
     | TLS_ST_CR_SRVR_DONE \<Rightarrow>
         (WRITE_TRAN_CONTINUE,
          set_hs (if cert_req s \<noteq> 0 then TLS_ST_CW_CERT else TLS_ST_CW_KEY_EXCH) s)
     | TLS_ST_CW_CERT \<Rightarrow> (WRITE_TRAN_CONTINUE, set_hs TLS_ST_CW_KEY_EXCH s)
     | TLS_ST_CW_KEY_EXCH \<Rightarrow>
         (let s = set_hs (if cert_req s = 1 then TLS_ST_CW_CERT_VRFY else TLS_ST_CW_CHANGE) s;
              s = (if s3_flags s AND TLS1_FLAGS_SKIP_CERT_VERIFY \<noteq> 0
                   then set_hs TLS_ST_CW_CHANGE s else s)
          in (WRITE_TRAN_CONTINUE, s))
     | TLS_ST_CW_CERT_VRFY \<Rightarrow> (WRITE_TRAN_CONTINUE, set_hs TLS_ST_CW_CHANGE s)
     | TLS_ST_CW_CHANGE \<Rightarrow>
         (WRITE_TRAN_CONTINUE,
          set_hs (if \<not> is_dtls s \<and> next_proto_neg_seen s then TLS_ST_CW_NEXT_PROTO
                  else TLS_ST_CW_FINISHED) s)
     | TLS_ST_CW_NEXT_PROTO \<Rightarrow> (WRITE_TRAN_CONTINUE, set_hs TLS_ST_CW_FINISHED s)
     | TLS_ST_CW_FINISHED \<Rightarrow>
         if hit s then (WRITE_TRAN_CONTINUE, ossl_statem_set_in_init False (set_hs TLS_ST_OK s))
         else (WRITE_TRAN_FINISHED, s)
     | TLS_ST_CR_FINISHED \<Rightarrow>
         if hit s then (WRITE_TRAN_CONTINUE, set_hs TLS_ST_CW_CHANGE s)
         else (WRITE_TRAN_CONTINUE, ossl_statem_set_in_init False (set_hs TLS_ST_OK s))
     | _ \<Rightarrow> (WRITE_TRAN_ERROR, s))"

subsection \<open>Work around a message\<close>

definition ossl_statem_client_pre_work ::
  "'e tls_ops \<Rightarrow> 'e SSL \<Rightarrow> WORK_STATE \<Rightarrow> WORK_STATE \<times> 'e SSL" where
  "ossl_statem_client_pre_work ops s wst =
    (case hand_state (statem s) of
       TLS_ST_CW_CLNT_HELLO \<Rightarrow>
         (let s = s\<lparr>shutdown := 0\<rparr> in
          if is_dtls s
          then (case call ops Ssl3_init_finished_mac s of (ret, s) \<Rightarrow>
                  if ret = 0 then (WORK_ERROR, ossl_statem_set_error s)
                  else (WORK_FINISHED_CONTINUE, s))
          else (WORK_FINISHED_CONTINUE, s))
     | TLS_ST_CW_CHANGE \<Rightarrow>
         (WORK_FINISHED_CONTINUE, if is_dtls s \<and> hit s then set_use_timer False s else s)
     | TLS_ST_OK \<Rightarrow> work ops Tls_finish_handshake wst s
     | _ \<Rightarrow> (WORK_FINISHED_CONTINUE, s))"

text \<open>
  In \<open>TLS_ST_CW_CHANGE\<close> the assignments to \<open>session->cipher\<close> and \<open>compress_meth\<close> and the
  reset of the DTLS sequence numbers concern members that the model leaves in \<open>env\<close>; they
  belong to the two calls.
\<close>

definition ossl_statem_client_post_work ::
  "'e tls_ops \<Rightarrow> 'e SSL \<Rightarrow> WORK_STATE \<Rightarrow> WORK_STATE \<times> 'e SSL" where
  "ossl_statem_client_post_work ops s wst =
    (let s = s\<lparr>init_num := 0\<rparr> in
     case hand_state (statem s) of
       TLS_ST_CW_CLNT_HELLO \<Rightarrow>
         (let (flushed, s) = (if wst = WORK_MORE_A then call ops Statem_flush s else (1, s)) in
          if flushed \<noteq> 1 then (WORK_MORE_A, s)
          else (WORK_FINISHED_CONTINUE, if is_dtls s then s\<lparr>first_packet := True\<rparr> else s))
     | TLS_ST_CW_KEY_EXCH \<Rightarrow>
         (case call ops Tls_client_key_exchange_post_work s of (ret, s) \<Rightarrow>
            if ret = 0 then (WORK_ERROR, s) else (WORK_FINISHED_CONTINUE, s))
     | TLS_ST_CW_CHANGE \<Rightarrow>
         (case call ops Setup_key_block s of (ret, s) \<Rightarrow>
            if ret = 0 then (WORK_ERROR, s)
            else (case call ops Change_cipher_state s of (ret, s) \<Rightarrow>
                    if ret = 0 then (WORK_ERROR, s) else (WORK_FINISHED_CONTINUE, s)))
     | TLS_ST_CW_FINISHED \<Rightarrow>
         (case call ops Statem_flush s of (ret, s) \<Rightarrow>
            if ret \<noteq> 1 then (WORK_MORE_B, s) else (WORK_FINISHED_CONTINUE, s))
     | _ \<Rightarrow> (WORK_FINISHED_CONTINUE, s))"

definition ossl_statem_client_construct_message :: "'e tls_ops \<Rightarrow> 'e SSL \<Rightarrow> int \<times> 'e SSL" where
  "ossl_statem_client_construct_message ops s =
    (case hand_state (statem s) of
       TLS_ST_CW_CLNT_HELLO \<Rightarrow> call ops Tls_construct_client_hello s
     | TLS_ST_CW_CERT \<Rightarrow> call ops Tls_construct_client_certificate s
     | TLS_ST_CW_KEY_EXCH \<Rightarrow> call ops Tls_construct_client_key_exchange s
     | TLS_ST_CW_CERT_VRFY \<Rightarrow> call ops Tls_construct_client_verify s
     | TLS_ST_CW_CHANGE \<Rightarrow>
         (if is_dtls s then call ops Dtls_construct_change_cipher_spec s
          else call ops Tls_construct_change_cipher_spec s)
     | TLS_ST_CW_NEXT_PROTO \<Rightarrow> call ops Tls_construct_next_proto s
     | TLS_ST_CW_FINISHED \<Rightarrow> call ops Tls_construct_finished s
     | _ \<Rightarrow> (0, s))"

definition ossl_statem_client_max_message_size :: "'e SSL \<Rightarrow> nat" where
  "ossl_statem_client_max_message_size s =
    (case hand_state (statem s) of
       TLS_ST_CR_SRVR_HELLO \<Rightarrow> SERVER_HELLO_MAX_LENGTH
     | DTLS_ST_CR_HELLO_VERIFY_REQUEST \<Rightarrow> HELLO_VERIFY_REQUEST_MAX_LENGTH
     | TLS_ST_CR_CERT \<Rightarrow> max_cert_list s
     | TLS_ST_CR_CERT_STATUS \<Rightarrow> SSL3_RT_MAX_PLAIN_LENGTH
     | TLS_ST_CR_KEY_EXCH \<Rightarrow> SERVER_KEY_EXCH_MAX_LENGTH
     | TLS_ST_CR_CERT_REQ \<Rightarrow> max_cert_list s
     | TLS_ST_CR_SRVR_DONE \<Rightarrow> SERVER_HELLO_DONE_MAX_LENGTH
     | TLS_ST_CR_CHANGE \<Rightarrow> if version s = DTLS1_BAD_VER then 3 else CCS_MAX_LENGTH
     | TLS_ST_CR_SESSION_TICKET \<Rightarrow> SSL3_RT_MAX_PLAIN_LENGTH
     | TLS_ST_CR_FINISHED \<Rightarrow> FINISHED_MAX_LENGTH
     | _ \<Rightarrow> 0)"

definition ossl_statem_client_process_message ::
  "'e tls_ops \<Rightarrow> 'e SSL \<Rightarrow> MSG_PROCESS_RETURN \<times> 'e SSL" where
  "ossl_statem_client_process_message ops s =
    (case hand_state (statem s) of
       TLS_ST_CR_SRVR_HELLO \<Rightarrow> process ops Tls_process_server_hello s
     | DTLS_ST_CR_HELLO_VERIFY_REQUEST \<Rightarrow> process ops Dtls_process_hello_verify s
     | TLS_ST_CR_CERT \<Rightarrow> process ops Tls_process_server_certificate s
     | TLS_ST_CR_CERT_STATUS \<Rightarrow> process ops Tls_process_cert_status s
     | TLS_ST_CR_KEY_EXCH \<Rightarrow> process ops Tls_process_key_exchange s
     | TLS_ST_CR_CERT_REQ \<Rightarrow> process ops Tls_process_certificate_request s
     | TLS_ST_CR_SRVR_DONE \<Rightarrow> process ops Tls_process_server_done s
     | TLS_ST_CR_CHANGE \<Rightarrow> tls_process_change_cipher_spec ops s
     | TLS_ST_CR_SESSION_TICKET \<Rightarrow> process ops Tls_process_new_session_ticket s
     | TLS_ST_CR_FINISHED \<Rightarrow> tls_process_finished s
     | _ \<Rightarrow> (MSG_PROCESS_ERROR, s))"

definition ossl_statem_client_post_process_message ::
  "'e tls_ops \<Rightarrow> 'e SSL \<Rightarrow> WORK_STATE \<Rightarrow> WORK_STATE \<times> 'e SSL" where
  "ossl_statem_client_post_process_message ops s wst =
    (case hand_state (statem s) of
       TLS_ST_CR_CERT_REQ \<Rightarrow> work ops Tls_prepare_client_certificate wst s
     | _ \<Rightarrow> (WORK_ERROR, s))"

end
