(* ===== verification/Tls_Server.thy ===== *)
theory Tls_Server
  imports Tls_Types
begin

text \<open>
  The server half of the handshake state machine (ssl/statem/statem_srvr.c).
\<close>

subsection \<open>Reading\<close>

definition server_read_error :: "'e SSL \<Rightarrow> bool \<times> 'e SSL" where
  "server_read_error s = (False, ssl3_send_alert SSL3_AD_UNEXPECTED_MESSAGE s)"

definition ossl_statem_server_read_transition :: "'e SSL \<Rightarrow> int \<Rightarrow> bool \<times> 'e SSL" where
  "ossl_statem_server_read_transition s mt =
    (case hand_state (statem s) of
       TLS_ST_BEFORE \<Rightarrow>
         if mt = SSL3_MT_CLIENT_HELLO then (True, set_hs TLS_ST_SR_CLNT_HELLO s)
         else server_read_error s
     | DTLS_ST_SW_HELLO_VERIFY_REQUEST \<Rightarrow>
         if mt = SSL3_MT_CLIENT_HELLO then (True, set_hs TLS_ST_SR_CLNT_HELLO s)
         else server_read_error s
     | TLS_ST_SW_SRVR_DONE \<Rightarrow>
         if mt = SSL3_MT_CLIENT_KEY_EXCHANGE then
           (if cert_request s then
              (if version s = SSL3_VERSION then
                 (if verify_mode s AND SSL_VERIFY_PEER \<noteq> 0
                     \<and> verify_mode s AND SSL_VERIFY_FAIL_IF_NO_PEER_CERT \<noteq> 0
                  then (False, ssl3_send_alert SSL3_AD_HANDSHAKE_FAILURE s)
                  else (True, set_hs TLS_ST_SR_KEY_EXCH s))
               else server_read_error s)
            else (True, set_hs TLS_ST_SR_KEY_EXCH s))
         else if cert_request s \<and> mt = SSL3_MT_CERTIFICATE then (True, set_hs TLS_ST_SR_CERT s)
         else server_read_error s
     | TLS_ST_SR_CERT \<Rightarrow>
         if mt = SSL3_MT_CLIENT_KEY_EXCHANGE then (True, set_hs TLS_ST_SR_KEY_EXCH s)
         else server_read_error s
     | TLS_ST_SR_KEY_EXCH \<Rightarrow>
         if \<not> peer s \<or> no_cert_verify (statem s)
         then (if mt = SSL3_MT_CHANGE_CIPHER_SPEC then (True, set_hs TLS_ST_SR_CHANGE s)
               else server_read_error s)
         else (if mt = SSL3_MT_CERTIFICATE_VERIFY then (True, set_hs TLS_ST_SR_CERT_VRFY s)
               else server_read_error s)
     | TLS_ST_SR_CERT_VRFY \<Rightarrow>
         if mt = SSL3_MT_CHANGE_CIPHER_SPEC then (True, set_hs TLS_ST_SR_CHANGE s)
         else server_read_error s
     | TLS_ST_SR_CHANGE \<Rightarrow>
         if next_proto_neg_seen s
         then (if mt = SSL3_MT_NEXT_PROTO then (True, set_hs TLS_ST_SR_NEXT_PROTO s)
               else server_read_error s)
         else (if mt = SSL3_MT_FINISHED then (True, set_hs TLS_ST_SR_FINISHED s)
               else server_read_error s)
     | TLS_ST_SR_NEXT_PROTO \<Rightarrow>
         if mt = SSL3_MT_FINISHED then (True, set_hs TLS_ST_SR_FINISHED s)
         else server_read_error s
     | TLS_ST_SW_FINISHED \<Rightarrow>
         if mt = SSL3_MT_CHANGE_CIPHER_SPEC then (True, set_hs TLS_ST_SR_CHANGE s)
         else server_read_error s
     | _ \<Rightarrow> server_read_error s)"

subsection \<open>Writing\<close>

definition send_server_key_exchange :: "'e SSL \<Rightarrow> bool" where
  "send_server_key_exchange s \<longleftrightarrow>
     (let alg_k = algorithm_mkey s in
      alg_k AND (SSL_kDHE OR SSL_kECDHE) \<noteq> 0
      \<or> (alg_k AND (SSL_kPSK OR SSL_kRSAPSK) \<noteq> 0 \<and> psk_identity_hint s)
      \<or> alg_k AND (SSL_PSK AND (SSL_kDHEPSK OR SSL_kECDHEPSK)) \<noteq> 0
      \<or> alg_k AND SSL_kSRP \<noteq> 0)"

definition send_certificate_request :: "'e SSL \<Rightarrow> bool" where
  "send_certificate_request s \<longleftrightarrow>
     verify_mode s AND SSL_VERIFY_PEER \<noteq> 0
     \<and> (finish_md_len s = 0 \<or> verify_mode s AND SSL_VERIFY_CLIENT_ONCE = 0)
     \<and> (algorithm_auth s AND SSL_aNULL = 0
        \<or> verify_mode s AND SSL_VERIFY_FAIL_IF_NO_PEER_CERT \<noteq> 0)
     \<and> algorithm_auth s AND SSL_aSRP = 0
     \<and> algorithm_auth s AND SSL_aPSK = 0"

definition server_write_CERT_REQ :: "'e SSL \<Rightarrow> WRITE_TRAN \<times> 'e SSL" where
  "server_write_CERT_REQ s = (WRITE_TRAN_CONTINUE, set_hs TLS_ST_SW_SRVR_DONE s)"

definition server_write_KEY_EXCH :: "'e SSL \<Rightarrow> WRITE_TRAN \<times> 'e SSL" where
  "server_write_KEY_EXCH s =
     (if send_certificate_request s then (WRITE_TRAN_CONTINUE, set_hs TLS_ST_SW_CERT_REQ s)
      else server_write_CERT_REQ s)"

definition server_write_CERT_STATUS :: "'e SSL \<Rightarrow> WRITE_TRAN \<times> 'e SSL" where
  "server_write_CERT_STATUS s =
     (if send_server_key_exchange s then (WRITE_TRAN_CONTINUE, set_hs TLS_ST_SW_KEY_EXCH s)
      else server_write_KEY_EXCH s)"

definition ossl_statem_server_write_transition :: "'e SSL \<Rightarrow> WRITE_TRAN \<times> 'e SSL" where
  "ossl_statem_server_write_transition s =
    (case hand_state (statem s) of
       TLS_ST_BEFORE \<Rightarrow> (WRITE_TRAN_FINISHED, s)
     | TLS_ST_OK \<Rightarrow> (WRITE_TRAN_CONTINUE, set_hs TLS_ST_SW_HELLO_REQ s)
     | TLS_ST_SW_HELLO_REQ \<Rightarrow>
         (WRITE_TRAN_CONTINUE, ossl_statem_set_in_init False (set_hs TLS_ST_OK s))
     | TLS_ST_SR_CLNT_HELLO \<Rightarrow>
         (WRITE_TRAN_CONTINUE,
          set_hs (if is_dtls s \<and> \<not> cookie_verified s \<and> options s AND SSL_OP_COOKIE_EXCHANGE \<noteq> 0
                  then DTLS_ST_SW_HELLO_VERIFY_REQUEST else TLS_ST_SW_SRVR_HELLO) s)
     | DTLS_ST_SW_HELLO_VERIFY_REQUEST \<Rightarrow> (WRITE_TRAN_FINISHED, s)
     | TLS_ST_SW_SRVR_HELLO \<Rightarrow>
         (WRITE_TRAN_CONTINUE,
          if hit s
          then set_hs (if tlsext_ticket_expected s then TLS_ST_SW_SESSION_TICKET
                       else TLS_ST_SW_CHANGE) s
          else if algorithm_auth s AND (SSL_aNULL OR SSL_aSRP OR SSL_aPSK) = 0
          then set_hs TLS_ST_SW_CERT s
          else if send_server_key_exchange s then set_hs TLS_ST_SW_KEY_EXCH s
          else if send_certificate_request s then set_hs TLS_ST_SW_CERT_REQ s
          else set_hs TLS_ST_SW_SRVR_DONE s)
     | TLS_ST_SW_CERT \<Rightarrow>
         if tlsext_status_expected s then (WRITE_TRAN_CONTINUE, set_hs TLS_ST_SW_CERT_STATUS s)
         else server_write_CERT_STATUS s
     | TLS_ST_SW_CERT_STATUS \<Rightarrow> server_write_CERT_STATUS s
     | TLS_ST_SW_KEY_EXCH \<Rightarrow> server_write_KEY_EXCH s
     | TLS_ST_SW_CERT_REQ \<Rightarrow> server_write_CERT_REQ s
     | TLS_ST_SW_SRVR_DONE \<Rightarrow> (WRITE_TRAN_FINISHED, s)
     | TLS_ST_SR_FINISHED \<Rightarrow>
         if hit s then (WRITE_TRAN_CONTINUE, ossl_statem_set_in_init False (set_hs TLS_ST_OK s))
         else if tlsext_ticket_expected s
         then (WRITE_TRAN_CONTINUE, set_hs TLS_ST_SW_SESSION_TICKET s)
         else (WRITE_TRAN_CONTINUE, set_hs TLS_ST_SW_CHANGE s)
     | TLS_ST_SW_SESSION_TICKET \<Rightarrow> (WRITE_TRAN_CONTINUE, set_hs TLS_ST_SW_CHANGE s)
     | TLS_ST_SW_CHANGE \<Rightarrow> (WRITE_TRAN_CONTINUE, set_hs TLS_ST_SW_FINISHED s)
     | TLS_ST_SW_FINISHED \<Rightarrow>
         if hit s then (WRITE_TRAN_FINISHED, s)
         else (WRITE_TRAN_CONTINUE, ossl_statem_set_in_init False (set_hs TLS_ST_OK s))
     | _ \<Rightarrow> (WRITE_TRAN_ERROR, s))"

subsection \<open>Work around a message\<close>

text \<open>
  \<open>dtls1_clear_sent_buffer\<close>, \<open>session->cipher\<close> and the DTLS sequence numbers concern
  members that the model leaves in \<open>env\<close>.
\<close>

definition ossl_statem_server_pre_work ::
  "'e tls_ops \<Rightarrow> 'e SSL \<Rightarrow> WORK_STATE \<Rightarrow> WORK_STATE \<times> 'e SSL" where
  "ossl_statem_server_pre_work ops s wst =
    (case hand_state (statem s) of
       TLS_ST_SW_HELLO_REQ \<Rightarrow> (WORK_FINISHED_CONTINUE, s\<lparr>shutdown := 0\<rparr>)
     | DTLS_ST_SW_HELLO_VERIFY_REQUEST \<Rightarrow>
         (let s = s\<lparr>shutdown := 0\<rparr> in
          (WORK_FINISHED_CONTINUE, if is_dtls s then set_use_timer False s else s))
     | TLS_ST_SW_SRVR_HELLO \<Rightarrow>
         (WORK_FINISHED_CONTINUE, if is_dtls s then set_use_timer True s else s)
     | TLS_ST_SW_SRVR_DONE \<Rightarrow> (WORK_FINISHED_CONTINUE, s)
     | TLS_ST_SW_SESSION_TICKET \<Rightarrow>
         (WORK_FINISHED_CONTINUE, if is_dtls s then set_use_timer False s else s)
     | TLS_ST_SW_CHANGE \<Rightarrow>
         (case call ops Setup_key_block s of (ret, s) \<Rightarrow>
            if ret = 0 then (WORK_ERROR, ossl_statem_set_error s)
            else (WORK_FINISHED_CONTINUE, if is_dtls s then set_use_timer False s else s))
     | TLS_ST_OK \<Rightarrow> work ops Tls_finish_handshake wst s
     | _ \<Rightarrow> (WORK_FINISHED_CONTINUE, s))"

definition ossl_statem_server_post_work ::
  "'e tls_ops \<Rightarrow> 'e SSL \<Rightarrow> WORK_STATE \<Rightarrow> WORK_STATE \<times> 'e SSL" where
  "ossl_statem_server_post_work ops s wst =
    (let s = s\<lparr>init_num := 0\<rparr> in
     case hand_state (statem s) of
       TLS_ST_SW_HELLO_REQ \<Rightarrow>
         (case call ops Statem_flush s of (ret, s) \<Rightarrow>
            if ret \<noteq> 1 then (WORK_MORE_A, s)
            else (case call ops Ssl3_init_finished_mac s of (ret, s) \<Rightarrow>
                    if ret = 0 then (WORK_ERROR, ossl_statem_set_error s)
                    else (WORK_FINISHED_CONTINUE, s)))
     | DTLS_ST_SW_HELLO_VERIFY_REQUEST \<Rightarrow>
         (case call ops Statem_flush s of (ret, s) \<Rightarrow>
            if ret \<noteq> 1 then (WORK_MORE_A, s)
            else (let (ret, s) = (if version s \<noteq> DTLS1_BAD_VER
                                  then call ops Ssl3_init_finished_mac s else (1, s)) in
                  if ret = 0 then (WORK_ERROR, ossl_statem_set_error s)
                  else (WORK_FINISHED_CONTINUE, s\<lparr>first_packet := True\<rparr>)))
     | TLS_ST_SW_CHANGE \<Rightarrow>
         (case call ops Change_cipher_state s of (ret, s) \<Rightarrow>
            if ret = 0 then (WORK_ERROR, ossl_statem_set_error s)
            else (WORK_FINISHED_CONTINUE, s))
     | TLS_ST_SW_SRVR_DONE \<Rightarrow>
         (case call ops Statem_flush s of (ret, s) \<Rightarrow>
            if ret \<noteq> 1 then (WORK_MORE_A, s) else (WORK_FINISHED_CONTINUE, s))
     | TLS_ST_SW_FINISHED \<Rightarrow>
         (case call ops Statem_flush s of (ret, s) \<Rightarrow>
            if ret \<noteq> 1 then (WORK_MORE_A, s) else (WORK_FINISHED_CONTINUE, s))
     | _ \<Rightarrow> (WORK_FINISHED_CONTINUE, s))"

definition ossl_statem_server_construct_message :: "'e tls_ops \<Rightarrow> 'e SSL \<Rightarrow> int \<times> 'e SSL" where
  "ossl_statem_server_construct_message ops s =
    (case hand_state (statem s) of
       DTLS_ST_SW_HELLO_VERIFY_REQUEST \<Rightarrow> call ops Dtls_construct_hello_verify_request s
     | TLS_ST_SW_HELLO_REQ \<Rightarrow> call ops Tls_construct_hello_request s
     | TLS_ST_SW_SRVR_HELLO \<Rightarrow> call ops Tls_construct_server_hello s
     | TLS_ST_SW_CERT \<Rightarrow> call ops Tls_construct_server_certificate s
     | TLS_ST_SW_KEY_EXCH \<Rightarrow> call ops Tls_construct_server_key_exchange s
     | TLS_ST_SW_CERT_REQ \<Rightarrow> call ops Tls_construct_certificate_request s
     | TLS_ST_SW_SRVR_DONE \<Rightarrow> call ops Tls_construct_server_done s
     | TLS_ST_SW_SESSION_TICKET \<Rightarrow> call ops Tls_construct_new_session_ticket s
     | TLS_ST_SW_CERT_STATUS \<Rightarrow> call ops Tls_construct_cert_status s
     | TLS_ST_SW_CHANGE \<Rightarrow>
         (if is_dtls s then call ops Dtls_construct_change_cipher_spec s
          else call ops Tls_construct_change_cipher_spec s)
     | TLS_ST_SW_FINISHED \<Rightarrow> call ops Tls_construct_finished s
     | _ \<Rightarrow> (0, s))"

definition ossl_statem_server_max_message_size :: "'e SSL \<Rightarrow> nat" where
  "ossl_statem_server_max_message_size s =
    (case hand_state (statem s) of
       TLS_ST_SR_CLNT_HELLO \<Rightarrow> CLIENT_HELLO_MAX_LENGTH
     | TLS_ST_SR_CERT \<Rightarrow> max_cert_list s
     | TLS_ST_SR_KEY_EXCH \<Rightarrow> CLIENT_KEY_EXCH_MAX_LENGTH
     | TLS_ST_SR_CERT_VRFY \<Rightarrow> SSL3_RT_MAX_PLAIN_LENGTH
     | TLS_ST_SR_NEXT_PROTO \<Rightarrow> NEXT_PROTO_MAX_LENGTH
     | TLS_ST_SR_CHANGE \<Rightarrow> CCS_MAX_LENGTH
     | TLS_ST_SR_FINISHED \<Rightarrow> FINISHED_MAX_LENGTH
     | _ \<Rightarrow> 0)"

definition ossl_statem_server_process_message ::
  "'e tls_ops \<Rightarrow> 'e SSL \<Rightarrow> MSG_PROCESS_RETURN \<times> 'e SSL" where
  "ossl_statem_server_process_message ops s =
    (case hand_state (statem s) of
       TLS_ST_SR_CLNT_HELLO \<Rightarrow> process ops Tls_process_client_hello s
     | TLS_ST_SR_CERT \<Rightarrow> process ops Tls_process_client_certificate s
     | TLS_ST_SR_KEY_EXCH \<Rightarrow> process ops Tls_process_client_key_exchange s
     | TLS_ST_SR_CERT_VRFY \<Rightarrow> process ops Tls_process_cert_verify s
     | TLS_ST_SR_NEXT_PROTO \<Rightarrow> process ops Tls_process_next_proto s
     | TLS_ST_SR_CHANGE \<Rightarrow> tls_process_change_cipher_spec ops s
     | TLS_ST_SR_FINISHED \<Rightarrow> tls_process_finished s
     | _ \<Rightarrow> (MSG_PROCESS_ERROR, s))"

definition ossl_statem_server_post_process_message ::
  "'e tls_ops \<Rightarrow> 'e SSL \<Rightarrow> WORK_STATE \<Rightarrow> WORK_STATE \<times> 'e SSL" where
  "ossl_statem_server_post_process_message ops s wst =
    (case hand_state (statem s) of
       TLS_ST_SR_CLNT_HELLO \<Rightarrow> work ops Tls_post_process_client_hello wst s
     | TLS_ST_SR_KEY_EXCH \<Rightarrow> work ops Tls_post_process_client_key_exchange wst s
     | _ \<Rightarrow> (WORK_ERROR, s))"

end
