(* ===== verification/Tls_Protocol.thy ===== *)
theory Tls_Protocol
  imports Tls_Client Tls_Server
begin

text \<open>
  What the handshake state machine promises about the order of messages. The
  specification of each side is a small automaton over the messages it receives; the
  runs of the code are the transitions of statem_clnt.c and statem_srvr.c interleaved
  with arbitrary processing that respects \<open>hand_state\<close>. The code simulates the
  automaton, and the language of the automaton is written out as message sequences.
\<close>

subsection \<open>The message a read state stands for\<close>

fun state_message :: "OSSL_HANDSHAKE_STATE \<Rightarrow> int option" where
  "state_message DTLS_ST_CR_HELLO_VERIFY_REQUEST = Some DTLS1_MT_HELLO_VERIFY_REQUEST"
| "state_message TLS_ST_CR_SRVR_HELLO = Some SSL3_MT_SERVER_HELLO"
| "state_message TLS_ST_CR_CERT = Some SSL3_MT_CERTIFICATE"
| "state_message TLS_ST_CR_CERT_STATUS = Some SSL3_MT_CERTIFICATE_STATUS"
| "state_message TLS_ST_CR_KEY_EXCH = Some SSL3_MT_SERVER_KEY_EXCHANGE"
| "state_message TLS_ST_CR_CERT_REQ = Some SSL3_MT_CERTIFICATE_REQUEST"
| "state_message TLS_ST_CR_SRVR_DONE = Some SSL3_MT_SERVER_DONE"
| "state_message TLS_ST_CR_SESSION_TICKET = Some SSL3_MT_NEWSESSION_TICKET"
| "state_message TLS_ST_CR_CHANGE = Some SSL3_MT_CHANGE_CIPHER_SPEC"
| "state_message TLS_ST_CR_FINISHED = Some SSL3_MT_FINISHED"
| "state_message TLS_ST_SR_CLNT_HELLO = Some SSL3_MT_CLIENT_HELLO"
| "state_message TLS_ST_SR_CERT = Some SSL3_MT_CERTIFICATE"
| "state_message TLS_ST_SR_KEY_EXCH = Some SSL3_MT_CLIENT_KEY_EXCHANGE"
| "state_message TLS_ST_SR_CERT_VRFY = Some SSL3_MT_CERTIFICATE_VERIFY"
| "state_message TLS_ST_SR_NEXT_PROTO = Some SSL3_MT_NEXT_PROTO"
| "state_message TLS_ST_SR_CHANGE = Some SSL3_MT_CHANGE_CIPHER_SPEC"
| "state_message TLS_ST_SR_FINISHED = Some SSL3_MT_FINISHED"
| "state_message _ = None"

lemma hs_set [simp]: "hs (set_hs h s) = h" "hit (set_hs h s) = hit s"
  "hs (s\<lparr>hit := b\<rparr>) = hs s" "hs (ossl_statem_set_in_init b s) = hs s"
  "hit (ossl_statem_set_in_init b s) = hit s"
  by (simp_all add: statem_upd_defs)

lemmas client_read_defs =
  ossl_statem_client_read_transition_def client_read_CERT_STATUS_def client_read_KEY_EXCH_def
  client_read_CERT_REQ_def read_error_def Let_def

lemmas server_write_defs =
  ossl_statem_server_write_transition_def server_write_CERT_STATUS_def server_write_KEY_EXCH_def
  server_write_CERT_REQ_def Let_def

lemma client_read_sound:
  "ossl_statem_client_read_transition s mt = (ok, s') \<Longrightarrow>
     (if ok then state_message (hs s') = Some mt else s' = ssl3_send_alert SSL3_AD_UNEXPECTED_MESSAGE s)"
  by (cases "hs s") (simp_all add: client_read_defs split: if_split_asm, auto)

lemma server_read_sound:
  "ossl_statem_server_read_transition s mt = (ok, s') \<Longrightarrow>
     (if ok then state_message (hs s') = Some mt
      else s' \<in> {ssl3_send_alert SSL3_AD_UNEXPECTED_MESSAGE s, ssl3_send_alert SSL3_AD_HANDSHAKE_FAILURE s})"
  by (cases "hs s") (simp_all add: ossl_statem_server_read_transition_def server_read_error_def
      split: if_split_asm, auto)

text \<open>
  A message is accepted only into the state that stands for it, on both sides; a
  rejected one leaves the handshake where it is and raises exactly one fatal alert.
\<close>

lemma read_transition_sound:
  "(case ossl_statem_client_read_transition s mt of (ok, s') \<Rightarrow>
      if ok then state_message (hs s') = Some mt
      else s' = s\<lparr>alerts := alerts s @ [SSL3_AD_UNEXPECTED_MESSAGE]\<rparr>) \<and>
   (case ossl_statem_server_read_transition s mt of (ok, s') \<Rightarrow>
      if ok then state_message (hs s') = Some mt
      else \<exists>a. s' = s\<lparr>alerts := alerts s @ [a]\<rparr>)"
proof -
  obtain ok s1 where c: "ossl_statem_client_read_transition s mt = (ok, s1)" by force
  obtain ok' s2 where d: "ossl_statem_server_read_transition s mt = (ok', s2)" by force
  from client_read_sound [OF c] server_read_sound [OF d] show ?thesis
    unfolding c d by (auto simp: ssl3_send_alert_def split: if_splits)
qed

theorem read_transition_sound_witness:
  "\<exists>a. ossl_statem_server_read_transition (sample_ssl TLS_ST_SR_CHANGE False) SSL3_MT_CERTIFICATE =
     (False, (sample_ssl TLS_ST_SR_CHANGE False)\<lparr>alerts := [a]\<rparr>)"
  using read_transition_sound [where s = "sample_ssl TLS_ST_SR_CHANGE False" and mt = SSL3_MT_CERTIFICATE]
  by (simp add: ossl_statem_server_read_transition_def server_read_error_def mt_defs)

subsection \<open>The server\<close>

text \<open>Phases of a server handshake; the flag says that the session is resumed.\<close>

datatype server_phase =
    SStart | SHello | SCert | SKeyExch | SVerify | SChange bool | SNextProto bool | SFinished bool

fun server_spec :: "server_phase \<Rightarrow> int \<Rightarrow> server_phase option" where
  "server_spec SStart mt = (if mt = SSL3_MT_CLIENT_HELLO then Some SHello else None)"
| "server_spec SHello mt =
     (if mt = SSL3_MT_CLIENT_HELLO then Some SHello
      else if mt = SSL3_MT_CERTIFICATE then Some SCert
      else if mt = SSL3_MT_CLIENT_KEY_EXCHANGE then Some SKeyExch
      else if mt = SSL3_MT_CHANGE_CIPHER_SPEC then Some (SChange True) else None)"
| "server_spec SCert mt = (if mt = SSL3_MT_CLIENT_KEY_EXCHANGE then Some SKeyExch else None)"
| "server_spec SKeyExch mt =
     (if mt = SSL3_MT_CERTIFICATE_VERIFY then Some SVerify
      else if mt = SSL3_MT_CHANGE_CIPHER_SPEC then Some (SChange False) else None)"
| "server_spec SVerify mt =
     (if mt = SSL3_MT_CHANGE_CIPHER_SPEC then Some (SChange False) else None)"
| "server_spec (SChange r) mt =
     (if mt = SSL3_MT_NEXT_PROTO then Some (SNextProto r)
      else if mt = SSL3_MT_FINISHED then Some (SFinished r) else None)"
| "server_spec (SNextProto r) mt = (if mt = SSL3_MT_FINISHED then Some (SFinished r) else None)"
| "server_spec (SFinished r) mt = None"

definition spec_run :: "('p \<Rightarrow> int \<Rightarrow> 'p option) \<Rightarrow> 'p \<Rightarrow> int list \<Rightarrow> 'p option" where
  "spec_run spec p0 ms = foldl (\<lambda>p m. Option.bind p (\<lambda>p. spec p m)) (Some p0) ms"

lemma spec_run_Nil [simp]: "spec_run spec p0 [] = Some p0"
  by (simp add: spec_run_def)

lemma spec_run_snoc [simp]:
  "spec_run spec p0 (ms @ [m]) = Option.bind (spec_run spec p0 ms) (\<lambda>p. spec p m)"
  by (simp add: spec_run_def)

text \<open>The phase of a server state; None when the state is not reachable with that \<open>hit\<close>.\<close>

fun server_phase_of :: "OSSL_HANDSHAKE_STATE \<Rightarrow> bool \<Rightarrow> server_phase option" where
  "server_phase_of TLS_ST_BEFORE r = Some SStart"
| "server_phase_of TLS_ST_SR_CLNT_HELLO r = Some SHello"
| "server_phase_of DTLS_ST_SW_HELLO_VERIFY_REQUEST r = Some SHello"
| "server_phase_of TLS_ST_SW_SRVR_HELLO r = Some SHello"
| "server_phase_of TLS_ST_SW_CERT r = (if r then None else Some SHello)"
| "server_phase_of TLS_ST_SW_CERT_STATUS r = (if r then None else Some SHello)"
| "server_phase_of TLS_ST_SW_KEY_EXCH r = (if r then None else Some SHello)"
| "server_phase_of TLS_ST_SW_CERT_REQ r = (if r then None else Some SHello)"
| "server_phase_of TLS_ST_SW_SRVR_DONE r = (if r then None else Some SHello)"
| "server_phase_of TLS_ST_SR_CERT r = (if r then None else Some SCert)"
| "server_phase_of TLS_ST_SR_KEY_EXCH r = (if r then None else Some SKeyExch)"
| "server_phase_of TLS_ST_SR_CERT_VRFY r = (if r then None else Some SVerify)"
| "server_phase_of TLS_ST_SR_CHANGE r = Some (SChange r)"
| "server_phase_of TLS_ST_SR_NEXT_PROTO r = Some (SNextProto r)"
| "server_phase_of TLS_ST_SR_FINISHED r = Some (SFinished r)"
| "server_phase_of TLS_ST_SW_SESSION_TICKET r = Some (if r then SHello else SFinished False)"
| "server_phase_of TLS_ST_SW_CHANGE r = Some (if r then SHello else SFinished False)"
| "server_phase_of TLS_ST_SW_FINISHED r = Some (if r then SHello else SFinished False)"
| "server_phase_of TLS_ST_OK r = Some (SFinished r)"
| "server_phase_of TLS_ST_SW_HELLO_REQ r = Some (SFinished r)"
| "server_phase_of _ r = None"

text \<open>
  A server handshake with the messages read so far. Processing may change every member
  but \<open>hand_state\<close>, and \<open>hit\<close> only while the ClientHello is processed, which is where
  statem_srvr.c assigns it. The machine reads after a message it has read, or when the
  write transition has answered \<open>WRITE_TRAN_FINISHED\<close>.
\<close>

inductive server_run :: "'e SSL \<Rightarrow> int list \<Rightarrow> bool" where
  start: "hs s = TLS_ST_BEFORE \<Longrightarrow> server_run s []"
| received: "server_run s ms \<Longrightarrow>
         state_message (hs s) \<noteq> None \<or> fst (ossl_statem_server_write_transition s) = WRITE_TRAN_FINISHED \<Longrightarrow>
         ossl_statem_server_read_transition s mt = (True, s') \<Longrightarrow>
         server_run s' (ms @ [mt])"
| wrote: "server_run s ms \<Longrightarrow> ossl_statem_server_write_transition s = (WRITE_TRAN_CONTINUE, s') \<Longrightarrow>
         server_run s' ms"
| process: "server_run s ms \<Longrightarrow> hs s' = hs s \<Longrightarrow>
         hit s' = hit s \<or> hs s = TLS_ST_SR_CLNT_HELLO \<Longrightarrow> server_run s' ms"

lemma server_read_simulates:
  assumes "ossl_statem_server_read_transition s mt = (True, s')"
    and "state_message (hs s) \<noteq> None \<or> fst (ossl_statem_server_write_transition s) = WRITE_TRAN_FINISHED"
    and "server_phase_of (hs s) (hit s) = Some p"
  shows "\<exists>p'. server_spec p mt = Some p' \<and> server_phase_of (hs s') (hit s') = Some p'"
  using assms
  by (cases "hs s")
    (auto simp: ossl_statem_server_read_transition_def ossl_statem_server_write_transition_def
      server_read_error_def mt_defs split: if_splits)

lemma server_write_simulates:
  assumes "ossl_statem_server_write_transition s = (WRITE_TRAN_CONTINUE, s')"
    and "server_phase_of (hs s) (hit s) = Some p"
  shows "server_phase_of (hs s') (hit s') = Some p"
  using assms by (cases "hs s") (auto simp: server_write_defs split: if_splits)

lemma server_simulates:
  "server_run s ms \<Longrightarrow>
     \<exists>p. spec_run server_spec SStart ms = Some p \<and> server_phase_of (hs s) (hit s) = Some p"
proof (induction rule: server_run.induct)
  case (received s ms mt s')
  then obtain p where p: "spec_run server_spec SStart ms = Some p"
    "server_phase_of (hs s) (hit s) = Some p" by blast
  from server_read_simulates [OF received.hyps(3,2) p(2)] p(1) show ?case by auto
next
  case (wrote s ms s')
  with server_write_simulates show ?case by blast
qed auto

text \<open>The language of the server's automaton.\<close>

definition hellos :: "int list \<Rightarrow> bool" where
  "hellos ms \<longleftrightarrow> (\<exists>k. ms = replicate (Suc k) SSL3_MT_CLIENT_HELLO)"

definition key_exchanged :: "int list \<Rightarrow> bool" where
  "key_exchanged ms \<longleftrightarrow> (\<exists>h c v. hellos h \<and> c \<in> {[], [SSL3_MT_CERTIFICATE]} \<and>
     v \<in> {[], [SSL3_MT_CERTIFICATE_VERIFY]} \<and> ms = h @ c @ [SSL3_MT_CLIENT_KEY_EXCHANGE] @ v)"

definition before_ccs :: "bool \<Rightarrow> int list \<Rightarrow> bool" where
  "before_ccs resumed ms \<longleftrightarrow> (if resumed then hellos ms else key_exchanged ms)"

fun server_lang :: "server_phase \<Rightarrow> int list \<Rightarrow> bool" where
  "server_lang SStart ms \<longleftrightarrow> ms = []"
| "server_lang SHello ms \<longleftrightarrow> hellos ms"
| "server_lang SCert ms \<longleftrightarrow> (\<exists>h. hellos h \<and> ms = h @ [SSL3_MT_CERTIFICATE])"
| "server_lang SKeyExch ms \<longleftrightarrow> (\<exists>h c. hellos h \<and> c \<in> {[], [SSL3_MT_CERTIFICATE]} \<and>
     ms = h @ c @ [SSL3_MT_CLIENT_KEY_EXCHANGE])"
| "server_lang SVerify ms \<longleftrightarrow> key_exchanged ms"
| "server_lang (SChange r) ms \<longleftrightarrow> (\<exists>b. before_ccs r b \<and> ms = b @ [SSL3_MT_CHANGE_CIPHER_SPEC])"
| "server_lang (SNextProto r) ms \<longleftrightarrow>
     (\<exists>b. before_ccs r b \<and> ms = b @ [SSL3_MT_CHANGE_CIPHER_SPEC, SSL3_MT_NEXT_PROTO])"
| "server_lang (SFinished r) ms \<longleftrightarrow>
     (\<exists>b n. before_ccs r b \<and> n \<in> {[], [SSL3_MT_NEXT_PROTO]} \<and>
        ms = b @ [SSL3_MT_CHANGE_CIPHER_SPEC] @ n @ [SSL3_MT_FINISHED])"

lemma hellos_snoc: "hellos ms \<or> ms = [] \<Longrightarrow> hellos (ms @ [SSL3_MT_CLIENT_HELLO])"
  unfolding hellos_def
  by (metis append_Cons append_Nil replicate_Suc replicate_append_same replicate_empty)

lemma server_lang_step:
  assumes l: "server_lang p ms" and st: "server_spec p mt = Some p'"
  shows "server_lang p' (ms @ [mt])"
proof (cases p)
  case SStart
  with l st show ?thesis using hellos_snoc [of "[]"] by (auto split: if_splits)
next
  case SHello
  with l st show ?thesis by (auto simp: hellos_snoc before_ccs_def split: if_splits)
next
  case SCert
  with l st show ?thesis by (auto split: if_splits)
next
  case SKeyExch
  with l obtain h c where h: "hellos h" "c \<in> {[], [SSL3_MT_CERTIFICATE]}"
    and ms: "ms = h @ c @ [SSL3_MT_CLIENT_KEY_EXCHANGE]" by auto
  have k: "key_exchanged (ms @ v)" if "v \<in> {[], [SSL3_MT_CERTIFICATE_VERIFY]}" for v
    unfolding key_exchanged_def ms using h that by (intro exI [of _ h] exI [of _ c] exI [of _ v]) simp
  from st SKeyExch consider "mt = SSL3_MT_CERTIFICATE_VERIFY" "p' = SVerify"
    | "mt = SSL3_MT_CHANGE_CIPHER_SPEC" "p' = SChange False" by (auto split: if_splits)
  then show ?thesis
  proof cases
    case 1
    with k [of "[SSL3_MT_CERTIFICATE_VERIFY]"] show ?thesis by simp
  next
    case 2
    with k [of "[]"] show ?thesis by (auto simp: before_ccs_def)
  qed
next
  case SVerify
  with l st show ?thesis by (auto simp: before_ccs_def split: if_splits)
next
  case (SChange r)
  with l obtain b where b: "before_ccs r b" "ms = b @ [SSL3_MT_CHANGE_CIPHER_SPEC]" by auto
  from st SChange consider "mt = SSL3_MT_NEXT_PROTO" "p' = SNextProto r"
    | "mt = SSL3_MT_FINISHED" "p' = SFinished r" by (auto split: if_splits)
  then show ?thesis
  proof cases
    case 1
    with b show ?thesis by simp
  next
    case 2
    with b show ?thesis by (simp, intro exI [of _ b] conjI exI [of _ "[]"]) simp_all
  qed
next
  case (SNextProto r)
  with l obtain b where b: "before_ccs r b" "ms = b @ [SSL3_MT_CHANGE_CIPHER_SPEC, SSL3_MT_NEXT_PROTO]"
    by auto
  moreover have "p' = SFinished r" "mt = SSL3_MT_FINISHED"
    using st SNextProto by (auto split: if_splits)
  ultimately show ?thesis
    by (simp, intro exI [of _ b] conjI exI [of _ "[SSL3_MT_NEXT_PROTO]"]) simp_all
next
  case (SFinished r)
  with st show ?thesis by simp
qed

lemma server_spec_lang: "spec_run server_spec SStart ms = Some p \<Longrightarrow> server_lang p ms"
proof (induction ms arbitrary: p rule: rev_induct)
  case (snoc m ms)
  then obtain q where "spec_run server_spec SStart ms = Some q" "server_spec q m = Some p"
    by (auto simp: bind_eq_Some_conv)
  with snoc.IH server_lang_step show ?case by blast
qed simp


text \<open>A resumed session on the server, step by step.\<close>

lemma sample_server_run:
  "server_run (sample_ssl TLS_ST_OK True)
     [SSL3_MT_CLIENT_HELLO, SSL3_MT_CHANGE_CIPHER_SPEC, SSL3_MT_FINISHED]"
proof -
  note defs = ossl_statem_server_write_transition_def ossl_statem_server_read_transition_def mt_defs
  have "server_run (sample_ssl TLS_ST_SR_CLNT_HELLO False) ([] @ [SSL3_MT_CLIENT_HELLO])"
    by (rule server_run.received [of "sample_ssl TLS_ST_BEFORE False"], rule server_run.start)
       (simp_all add: defs)
  then have "server_run (sample_ssl TLS_ST_SR_CLNT_HELLO True) ([] @ [SSL3_MT_CLIENT_HELLO])"
    by (rule server_run.process) simp_all
  then have "server_run (sample_ssl TLS_ST_SW_SRVR_HELLO True) ([] @ [SSL3_MT_CLIENT_HELLO])"
    by (rule server_run.wrote) (simp add: defs)
  then have "server_run (sample_ssl TLS_ST_SW_CHANGE True) ([] @ [SSL3_MT_CLIENT_HELLO])"
    by (rule server_run.wrote) (simp add: defs)
  then have "server_run (sample_ssl TLS_ST_SW_FINISHED True) ([] @ [SSL3_MT_CLIENT_HELLO])"
    by (rule server_run.wrote) (simp add: defs)
  then have "server_run (sample_ssl TLS_ST_SR_CHANGE True)
      (([] @ [SSL3_MT_CLIENT_HELLO]) @ [SSL3_MT_CHANGE_CIPHER_SPEC])"
    by (rule server_run.received) (simp_all add: defs)
  then have "server_run (sample_ssl TLS_ST_SR_FINISHED True)
      ((([] @ [SSL3_MT_CLIENT_HELLO]) @ [SSL3_MT_CHANGE_CIPHER_SPEC]) @ [SSL3_MT_FINISHED])"
    by (rule server_run.received) (simp_all add: defs)
  then have "server_run (ossl_statem_set_in_init False (sample_ssl TLS_ST_OK True))
      ((([] @ [SSL3_MT_CLIENT_HELLO]) @ [SSL3_MT_CHANGE_CIPHER_SPEC]) @ [SSL3_MT_FINISHED])"
    by (rule server_run.wrote) (simp add: defs)
  then have "server_run (sample_ssl TLS_ST_OK True)
      ((([] @ [SSL3_MT_CLIENT_HELLO]) @ [SSL3_MT_CHANGE_CIPHER_SPEC]) @ [SSL3_MT_FINISHED])"
    by (rule server_run.process) simp_all
  then show ?thesis by simp
qed




subsection \<open>The client\<close>

datatype client_phase =
    CStart | CHello | CCert | CStatus | CKeyExch | CCertReq | CDone
  | CTicket bool | CChange bool | CFinished bool

text \<open>What may follow the server's certificate part.\<close>

definition after_key_exch :: "int \<Rightarrow> client_phase option" where
  "after_key_exch mt =
     (if mt = SSL3_MT_CERTIFICATE_REQUEST then Some CCertReq
      else if mt = SSL3_MT_SERVER_DONE then Some CDone else None)"

fun client_spec :: "client_phase \<Rightarrow> int \<Rightarrow> client_phase option" where
  "client_spec CStart mt =
     (if mt = SSL3_MT_SERVER_HELLO then Some CHello
      else if mt = DTLS1_MT_HELLO_VERIFY_REQUEST then Some CStart else None)"
| "client_spec CHello mt =
     (if mt = DTLS1_MT_HELLO_VERIFY_REQUEST then Some CStart
      else if mt = SSL3_MT_CERTIFICATE then Some CCert
      else if mt = SSL3_MT_SERVER_KEY_EXCHANGE then Some CKeyExch
      else if mt = SSL3_MT_NEWSESSION_TICKET then Some (CTicket True)
      else if mt = SSL3_MT_CHANGE_CIPHER_SPEC then Some (CChange True)
      else after_key_exch mt)"
| "client_spec CCert mt =
     (if mt = SSL3_MT_CERTIFICATE_STATUS then Some CStatus
      else if mt = SSL3_MT_SERVER_KEY_EXCHANGE then Some CKeyExch else after_key_exch mt)"
| "client_spec CStatus mt =
     (if mt = SSL3_MT_SERVER_KEY_EXCHANGE then Some CKeyExch else after_key_exch mt)"
| "client_spec CKeyExch mt = after_key_exch mt"
| "client_spec CCertReq mt = (if mt = SSL3_MT_SERVER_DONE then Some CDone else None)"
| "client_spec CDone mt =
     (if mt = SSL3_MT_NEWSESSION_TICKET then Some (CTicket False)
      else if mt = SSL3_MT_CHANGE_CIPHER_SPEC then Some (CChange False) else None)"
| "client_spec (CTicket r) mt =
     (if mt = SSL3_MT_CHANGE_CIPHER_SPEC then Some (CChange r) else None)"
| "client_spec (CChange r) mt = (if mt = SSL3_MT_FINISHED then Some (CFinished r) else None)"
| "client_spec (CFinished r) mt = None"

fun client_phase_of :: "OSSL_HANDSHAKE_STATE \<Rightarrow> bool \<Rightarrow> client_phase option" where
  "client_phase_of TLS_ST_BEFORE r = Some CStart"
| "client_phase_of TLS_ST_CW_CLNT_HELLO r = Some CStart"
| "client_phase_of DTLS_ST_CR_HELLO_VERIFY_REQUEST r = Some CStart"
| "client_phase_of TLS_ST_CR_SRVR_HELLO r = Some CHello"
| "client_phase_of TLS_ST_CR_CERT r = (if r then None else Some CCert)"
| "client_phase_of TLS_ST_CR_CERT_STATUS r = (if r then None else Some CStatus)"
| "client_phase_of TLS_ST_CR_KEY_EXCH r = (if r then None else Some CKeyExch)"
| "client_phase_of TLS_ST_CR_CERT_REQ r = (if r then None else Some CCertReq)"
| "client_phase_of TLS_ST_CR_SRVR_DONE r = (if r then None else Some CDone)"
| "client_phase_of TLS_ST_CW_CERT r = (if r then None else Some CDone)"
| "client_phase_of TLS_ST_CW_KEY_EXCH r = (if r then None else Some CDone)"
| "client_phase_of TLS_ST_CW_CERT_VRFY r = (if r then None else Some CDone)"
| "client_phase_of TLS_ST_CW_CHANGE r = Some (if r then CFinished True else CDone)"
| "client_phase_of TLS_ST_CW_NEXT_PROTO r = Some (if r then CFinished True else CDone)"
| "client_phase_of TLS_ST_CW_FINISHED r = Some (if r then CFinished True else CDone)"
| "client_phase_of TLS_ST_CR_SESSION_TICKET r = Some (CTicket r)"
| "client_phase_of TLS_ST_CR_CHANGE r = Some (CChange r)"
| "client_phase_of TLS_ST_CR_FINISHED r = Some (CFinished r)"
| "client_phase_of TLS_ST_OK r = Some (CFinished r)"
| "client_phase_of _ r = None"

text \<open>
  A client handshake from the start or a renegotiation. \<open>hit\<close> is assigned while the
  ServerHello is processed, while the ClientHello is prepared, and by the transition for
  EAP-FAST.
\<close>

inductive client_run :: "'e SSL \<Rightarrow> int list \<Rightarrow> bool" where
  start: "hs s = TLS_ST_CW_CLNT_HELLO \<or> hs s = TLS_ST_BEFORE \<Longrightarrow> client_run s []"
| received: "client_run s ms \<Longrightarrow>
         state_message (hs s) \<noteq> None \<or> fst (ossl_statem_client_write_transition s) = WRITE_TRAN_FINISHED \<Longrightarrow>
         ossl_statem_client_read_transition s mt = (True, s') \<Longrightarrow> client_run s' (ms @ [mt])"
| wrote: "client_run s ms \<Longrightarrow> hs s \<noteq> TLS_ST_OK \<Longrightarrow>
         ossl_statem_client_write_transition s = (WRITE_TRAN_CONTINUE, s') \<Longrightarrow> client_run s' ms"
| process: "client_run s ms \<Longrightarrow> hs s' = hs s \<Longrightarrow>
         hit s' = hit s \<or> hs s \<in> {TLS_ST_CR_SRVR_HELLO, TLS_ST_CW_CLNT_HELLO} \<Longrightarrow> client_run s' ms"

lemma client_read_simulates:
  assumes "ossl_statem_client_read_transition s mt = (True, s')"
    and "state_message (hs s) \<noteq> None \<or> fst (ossl_statem_client_write_transition s) = WRITE_TRAN_FINISHED"
    and "client_phase_of (hs s) (hit s) = Some p"
  shows "\<exists>p'. client_spec p mt = Some p' \<and> client_phase_of (hs s') (hit s') = Some p'"
  using assms
  by (cases "hs s")
    (auto simp: client_read_defs ossl_statem_client_write_transition_def after_key_exch_def mt_defs
      split: if_splits)

lemma client_write_simulates:
  assumes "ossl_statem_client_write_transition s = (WRITE_TRAN_CONTINUE, s')"
    and "hs s \<noteq> TLS_ST_OK"
    and "client_phase_of (hs s) (hit s) = Some p"
  shows "client_phase_of (hs s') (hit s') = Some p"
  using assms
  by (cases "hs s")
    (auto simp: ossl_statem_client_write_transition_def Let_def split: if_splits)

lemma client_simulates:
  "client_run s ms \<Longrightarrow>
     \<exists>p. spec_run client_spec CStart ms = Some p \<and> client_phase_of (hs s) (hit s) = Some p"
proof (induction rule: client_run.induct)
  case (received s ms mt s')
  then obtain p where p: "spec_run client_spec CStart ms = Some p"
    "client_phase_of (hs s) (hit s) = Some p" by blast
  from client_read_simulates [OF received.hyps(3,2) p(2)] p(1) show ?case by auto
next
  case (wrote s ms s')
  with client_write_simulates show ?case by blast
qed auto

text \<open>The language of the client's automaton.\<close>

definition server_hellos :: "int list \<Rightarrow> bool" where
  "server_hellos ms \<longleftrightarrow> ms \<noteq> [] \<and> last ms = SSL3_MT_SERVER_HELLO \<and>
     set ms \<subseteq> {SSL3_MT_SERVER_HELLO, DTLS1_MT_HELLO_VERIFY_REQUEST}"

definition cert_part :: "int list \<Rightarrow> bool" where
  "cert_part c \<longleftrightarrow>
     c \<in> {[], [SSL3_MT_CERTIFICATE], [SSL3_MT_CERTIFICATE, SSL3_MT_CERTIFICATE_STATUS]}"

definition optional :: "int \<Rightarrow> int list \<Rightarrow> bool" where
  "optional m ms \<longleftrightarrow> ms = [] \<or> ms = [m]"

text \<open>The server's first flight of a full handshake.\<close>

definition server_flight :: "int list \<Rightarrow> bool" where
  "server_flight ms \<longleftrightarrow> (\<exists>h c k r. server_hellos h \<and> cert_part c \<and>
     optional SSL3_MT_SERVER_KEY_EXCHANGE k \<and> optional SSL3_MT_CERTIFICATE_REQUEST r \<and>
     ms = h @ c @ k @ r @ [SSL3_MT_SERVER_DONE])"

definition before_ticket :: "bool \<Rightarrow> int list \<Rightarrow> bool" where
  "before_ticket resumed ms \<longleftrightarrow> (if resumed then server_hellos ms else server_flight ms)"

fun client_lang :: "client_phase \<Rightarrow> int list \<Rightarrow> bool" where
  "client_lang CStart ms \<longleftrightarrow> set ms \<subseteq> {SSL3_MT_SERVER_HELLO, DTLS1_MT_HELLO_VERIFY_REQUEST}"
| "client_lang CHello ms \<longleftrightarrow> server_hellos ms"
| "client_lang CCert ms \<longleftrightarrow> (\<exists>h. server_hellos h \<and> ms = h @ [SSL3_MT_CERTIFICATE])"
| "client_lang CStatus ms \<longleftrightarrow>
     (\<exists>h. server_hellos h \<and> ms = h @ [SSL3_MT_CERTIFICATE, SSL3_MT_CERTIFICATE_STATUS])"
| "client_lang CKeyExch ms \<longleftrightarrow>
     (\<exists>h c. server_hellos h \<and> cert_part c \<and> ms = h @ c @ [SSL3_MT_SERVER_KEY_EXCHANGE])"
| "client_lang CCertReq ms \<longleftrightarrow>
     (\<exists>h c k. server_hellos h \<and> cert_part c \<and> optional SSL3_MT_SERVER_KEY_EXCHANGE k \<and>
        ms = h @ c @ k @ [SSL3_MT_CERTIFICATE_REQUEST])"
| "client_lang CDone ms \<longleftrightarrow> server_flight ms"
| "client_lang (CTicket r) ms \<longleftrightarrow> (\<exists>b. before_ticket r b \<and> ms = b @ [SSL3_MT_NEWSESSION_TICKET])"
| "client_lang (CChange r) ms \<longleftrightarrow> (\<exists>b t. before_ticket r b \<and> optional SSL3_MT_NEWSESSION_TICKET t \<and>
     ms = b @ t @ [SSL3_MT_CHANGE_CIPHER_SPEC])"
| "client_lang (CFinished r) ms \<longleftrightarrow>
     (\<exists>b t. before_ticket r b \<and> optional SSL3_MT_NEWSESSION_TICKET t \<and>
        ms = b @ t @ [SSL3_MT_CHANGE_CIPHER_SPEC, SSL3_MT_FINISHED])"

lemma optional_Nil [simp]: "optional m []" and optional_one [simp]: "optional m [m]"
  by (simp_all add: optional_def)

lemma after_key_exch_lang:
  assumes h: "server_hellos h" "cert_part c" "optional SSL3_MT_SERVER_KEY_EXCHANGE k"
    and st: "after_key_exch mt = Some p'"
  shows "client_lang p' (h @ c @ k @ [mt])"
proof -
  from st consider "mt = SSL3_MT_CERTIFICATE_REQUEST" "p' = CCertReq"
    | "mt = SSL3_MT_SERVER_DONE" "p' = CDone" by (auto simp: after_key_exch_def split: if_splits)
  then show ?thesis
  proof cases
    case 1
    with h show ?thesis by (auto intro: exI [of _ h] exI [of _ c] exI [of _ k])
  next
    case 2
    have "server_flight (h @ c @ k @ [] @ [SSL3_MT_SERVER_DONE])"
      unfolding server_flight_def using h by (metis optional_Nil)
    with 2 show ?thesis by simp
  qed
qed

text \<open>The step from a certificate part without or with the key exchange message.\<close>

lemma key_exch_lang:
  assumes "server_hellos h" "cert_part c"
    and "(if mt = SSL3_MT_SERVER_KEY_EXCHANGE then Some CKeyExch else after_key_exch mt) = Some p'"
  shows "client_lang p' (h @ c @ [mt])"
proof (cases "mt = SSL3_MT_SERVER_KEY_EXCHANGE")
  case True
  with assms show ?thesis by auto
next
  case False
  with after_key_exch_lang [OF assms(1,2) optional_Nil, of mt p'] assms(3) show ?thesis by simp
qed

lemma ticket_lang:
  assumes "before_ticket r b"
    and "(if mt = SSL3_MT_NEWSESSION_TICKET then Some (CTicket r)
          else if mt = SSL3_MT_CHANGE_CIPHER_SPEC then Some (CChange r) else None) = Some p'"
  shows "client_lang p' (b @ [mt])"
proof (cases "mt = SSL3_MT_NEWSESSION_TICKET")
  case True
  with assms show ?thesis by auto
next
  case False
  with assms(2) have "p' = CChange r" "mt = SSL3_MT_CHANGE_CIPHER_SPEC" by (auto split: if_splits)
  moreover have "\<exists>b' t. before_ticket r b' \<and> optional SSL3_MT_NEWSESSION_TICKET t \<and>
      b @ [SSL3_MT_CHANGE_CIPHER_SPEC] = b' @ t @ [SSL3_MT_CHANGE_CIPHER_SPEC]"
    using assms(1) by (intro exI [of _ b] exI [of _ "[]"]) simp
  ultimately show ?thesis by simp
qed

lemma cert_part_simps [simp]:
  "cert_part []" "cert_part [SSL3_MT_CERTIFICATE]"
  "cert_part [SSL3_MT_CERTIFICATE, SSL3_MT_CERTIFICATE_STATUS]"
  by (simp_all add: cert_part_def)

lemma client_lang_step:
  assumes l: "client_lang p ms" and st: "client_spec p mt = Some p'"
  shows "client_lang p' (ms @ [mt])"
proof (cases p)
  case CStart
  with l st show ?thesis by (auto simp: server_hellos_def split: if_splits)
next
  case CHello
  with l have h: "server_hellos ms" by simp
  consider "mt = DTLS1_MT_HELLO_VERIFY_REQUEST" | "mt = SSL3_MT_CERTIFICATE"
    | "mt = SSL3_MT_NEWSESSION_TICKET \<or> mt = SSL3_MT_CHANGE_CIPHER_SPEC"
    | "mt \<notin> {DTLS1_MT_HELLO_VERIFY_REQUEST, SSL3_MT_CERTIFICATE, SSL3_MT_NEWSESSION_TICKET,
             SSL3_MT_CHANGE_CIPHER_SPEC}" by blast
  then show ?thesis
  proof cases
    case 1
    with st CHello h show ?thesis by (auto simp: server_hellos_def)
  next
    case 2
    with st CHello h show ?thesis by (auto simp: mt_defs)
  next
    case 3
    with st CHello have "(if mt = SSL3_MT_NEWSESSION_TICKET then Some (CTicket True)
          else if mt = SSL3_MT_CHANGE_CIPHER_SPEC then Some (CChange True) else None) = Some p'"
      by (auto simp: mt_defs)
    with ticket_lang [of True ms mt p'] h show ?thesis by (simp add: before_ticket_def)
  next
    case 4
    with st CHello have "(if mt = SSL3_MT_SERVER_KEY_EXCHANGE then Some CKeyExch
        else after_key_exch mt) = Some p'" by (auto split: if_splits)
    with key_exch_lang [OF h, of "[]" mt p'] show ?thesis by simp
  qed
next
  case CCert
  with l obtain h where h: "server_hellos h" "ms = h @ [SSL3_MT_CERTIFICATE]" by auto
  show ?thesis
  proof (cases "mt = SSL3_MT_CERTIFICATE_STATUS")
    case True
    with st CCert h show ?thesis by auto
  next
    case False
    with st CCert key_exch_lang [OF h(1), of "[SSL3_MT_CERTIFICATE]" mt p'] h show ?thesis by simp
  qed
next
  case CStatus
  with l obtain h where h: "server_hellos h"
    "ms = h @ [SSL3_MT_CERTIFICATE, SSL3_MT_CERTIFICATE_STATUS]" by auto
  with st CStatus
    key_exch_lang [OF h(1), of "[SSL3_MT_CERTIFICATE, SSL3_MT_CERTIFICATE_STATUS]" mt p']
  show ?thesis by simp
next
  case CKeyExch
  with l obtain h c where "server_hellos h" "cert_part c" "ms = h @ c @ [SSL3_MT_SERVER_KEY_EXCHANGE]"
    by auto
  with after_key_exch_lang [of h c "[SSL3_MT_SERVER_KEY_EXCHANGE]" mt p'] st CKeyExch
  show ?thesis by simp
next
  case CCertReq
  with l obtain h c k where h: "server_hellos h" "cert_part c" "optional SSL3_MT_SERVER_KEY_EXCHANGE k"
    "ms = h @ c @ k @ [SSL3_MT_CERTIFICATE_REQUEST]" by auto
  have "server_flight (h @ c @ k @ [SSL3_MT_CERTIFICATE_REQUEST] @ [SSL3_MT_SERVER_DONE])"
    unfolding server_flight_def using h by (metis optional_one)
  with st CCertReq h(4) show ?thesis by (auto split: if_splits)
next
  case CDone
  with l st ticket_lang [of False ms mt p'] show ?thesis by (simp add: before_ticket_def)
next
  case (CTicket r)
  with l obtain b where b: "before_ticket r b" "ms = b @ [SSL3_MT_NEWSESSION_TICKET]" by auto
  have "client_lang (CChange r) (ms @ [SSL3_MT_CHANGE_CIPHER_SPEC])"
    unfolding client_lang.simps b(2) append_assoc using b(1) by (metis optional_one)
  moreover have "p' = CChange r" "mt = SSL3_MT_CHANGE_CIPHER_SPEC"
    using st CTicket by (simp_all split: if_splits)
  ultimately show ?thesis by simp
next
  case (CChange r)
  with l obtain b t where b: "before_ticket r b" "optional SSL3_MT_NEWSESSION_TICKET t"
    "ms = b @ t @ [SSL3_MT_CHANGE_CIPHER_SPEC]" by auto
  moreover have "p' = CFinished r" "mt = SSL3_MT_FINISHED"
    using st CChange by (simp_all split: if_splits)
  ultimately show ?thesis by (simp, blast)
next
  case (CFinished r)
  with st show ?thesis by simp
qed

lemma client_spec_lang: "spec_run client_spec CStart ms = Some p \<Longrightarrow> client_lang p ms"
proof (induction ms arbitrary: p rule: rev_induct)
  case (snoc m ms)
  then obtain q where "spec_run client_spec CStart ms = Some q" "client_spec q m = Some p"
    by (auto simp: bind_eq_Some_conv)
  with snoc.IH client_lang_step show ?case by blast
qed simp


text \<open>A resumed session and a full RSA handshake on the client.\<close>

lemma sample_client_run:
  "client_run (sample_ssl TLS_ST_OK True)
     [SSL3_MT_SERVER_HELLO, SSL3_MT_CHANGE_CIPHER_SPEC, SSL3_MT_FINISHED]"
proof -
  note defs = ossl_statem_client_write_transition_def client_read_defs mt_defs
  have "client_run (sample_ssl TLS_ST_CR_SRVR_HELLO False) ([] @ [SSL3_MT_SERVER_HELLO])"
    by (rule client_run.received [of "sample_ssl TLS_ST_CW_CLNT_HELLO False"], rule client_run.start)
       (simp_all add: defs)
  then have "client_run (sample_ssl TLS_ST_CR_SRVR_HELLO True) ([] @ [SSL3_MT_SERVER_HELLO])"
    by (rule client_run.process) simp_all
  then have "client_run (sample_ssl TLS_ST_CR_CHANGE True)
      (([] @ [SSL3_MT_SERVER_HELLO]) @ [SSL3_MT_CHANGE_CIPHER_SPEC])"
    by (rule client_run.received) (simp_all add: defs)
  then have "client_run (sample_ssl TLS_ST_CR_FINISHED True)
      ((([] @ [SSL3_MT_SERVER_HELLO]) @ [SSL3_MT_CHANGE_CIPHER_SPEC]) @ [SSL3_MT_FINISHED])"
    by (rule client_run.received) (simp_all add: defs)
  then have "client_run (sample_ssl TLS_ST_CW_CHANGE True)
      ((([] @ [SSL3_MT_SERVER_HELLO]) @ [SSL3_MT_CHANGE_CIPHER_SPEC]) @ [SSL3_MT_FINISHED])"
    by (rule client_run.wrote) (simp_all add: defs)
  then have "client_run (sample_ssl TLS_ST_CW_FINISHED True)
      ((([] @ [SSL3_MT_SERVER_HELLO]) @ [SSL3_MT_CHANGE_CIPHER_SPEC]) @ [SSL3_MT_FINISHED])"
    by (rule client_run.wrote) (simp_all add: defs)
  then have "client_run (ossl_statem_set_in_init False (sample_ssl TLS_ST_OK True))
      ((([] @ [SSL3_MT_SERVER_HELLO]) @ [SSL3_MT_CHANGE_CIPHER_SPEC]) @ [SSL3_MT_FINISHED])"
    by (rule client_run.wrote) (simp_all add: defs)
  then have "client_run (sample_ssl TLS_ST_OK True)
      ((([] @ [SSL3_MT_SERVER_HELLO]) @ [SSL3_MT_CHANGE_CIPHER_SPEC]) @ [SSL3_MT_FINISHED])"
    by (rule client_run.process) simp_all
  then show ?thesis by simp
qed

lemma sample_client_full_run:
  "client_run (sample_ssl TLS_ST_CR_CHANGE False)
     [SSL3_MT_SERVER_HELLO, SSL3_MT_CERTIFICATE, SSL3_MT_SERVER_DONE, SSL3_MT_CHANGE_CIPHER_SPEC]"
proof -
  note defs = ossl_statem_client_write_transition_def client_read_defs mt_defs
    key_exchange_expected_def
    SSL_aNULL_def SSL_aSRP_def SSL_aPSK_def SSL_kDHE_def SSL_kECDHE_def SSL_kDHEPSK_def
    SSL_kECDHEPSK_def SSL_kSRP_def SSL_PSK_def SSL_kPSK_def SSL_kRSAPSK_def
    TLS1_VERSION_def TLS1_FLAGS_SKIP_CERT_VERIFY_def
  have "client_run (sample_ssl TLS_ST_CR_SRVR_HELLO False) ([] @ [SSL3_MT_SERVER_HELLO])"
    by (rule client_run.received [of "sample_ssl TLS_ST_CW_CLNT_HELLO False"], rule client_run.start)
       (simp_all add: defs)
  then have "client_run (sample_ssl TLS_ST_CR_CERT False)
      (([] @ [SSL3_MT_SERVER_HELLO]) @ [SSL3_MT_CERTIFICATE])"
    by (rule client_run.received) (simp_all add: defs)
  then have "client_run (sample_ssl TLS_ST_CR_SRVR_DONE False)
      ((([] @ [SSL3_MT_SERVER_HELLO]) @ [SSL3_MT_CERTIFICATE]) @ [SSL3_MT_SERVER_DONE])"
    by (rule client_run.received) (simp_all add: defs)
  then have "client_run (sample_ssl TLS_ST_CW_KEY_EXCH False)
      ((([] @ [SSL3_MT_SERVER_HELLO]) @ [SSL3_MT_CERTIFICATE]) @ [SSL3_MT_SERVER_DONE])"
    by (rule client_run.wrote) (simp_all add: defs)
  then have "client_run (sample_ssl TLS_ST_CW_CHANGE False)
      ((([] @ [SSL3_MT_SERVER_HELLO]) @ [SSL3_MT_CERTIFICATE]) @ [SSL3_MT_SERVER_DONE])"
    by (rule client_run.wrote) (simp_all add: defs)
  then have "client_run (sample_ssl TLS_ST_CW_FINISHED False)
      ((([] @ [SSL3_MT_SERVER_HELLO]) @ [SSL3_MT_CERTIFICATE]) @ [SSL3_MT_SERVER_DONE])"
    by (rule client_run.wrote) (simp_all add: defs)
  then have "client_run (sample_ssl TLS_ST_CR_CHANGE False)
      (((([] @ [SSL3_MT_SERVER_HELLO]) @ [SSL3_MT_CERTIFICATE]) @ [SSL3_MT_SERVER_DONE]) @
        [SSL3_MT_CHANGE_CIPHER_SPEC])"
    by (rule client_run.received) (simp_all add: defs)
  then show ?thesis by simp
qed


text \<open>
  A client that is not resuming a session has accepted a ChangeCipherSpec only after
  the server's whole first flight, so the peer cannot make it switch keys before a key
  exchange.
\<close>

lemma no_early_ccs:
  assumes "client_run s ms" and "hs s = TLS_ST_CR_CHANGE" and "\<not> hit s"
  shows "\<exists>b t. server_flight b \<and> optional SSL3_MT_NEWSESSION_TICKET t \<and>
    ms = b @ t @ [SSL3_MT_CHANGE_CIPHER_SPEC]"
proof -
  from client_simulates [OF assms(1)] obtain p where p: "spec_run client_spec CStart ms = Some p"
    "client_phase_of (hs s) (hit s) = Some p" by blast
  with assms(2,3) have "p = CChange False" by simp
  with client_spec_lang [OF p(1)] show ?thesis by (simp add: before_ticket_def)
qed

theorem no_early_ccs_witness:
  "\<exists>b t. server_flight b \<and> optional SSL3_MT_NEWSESSION_TICKET t \<and>
    [SSL3_MT_SERVER_HELLO, SSL3_MT_CERTIFICATE, SSL3_MT_SERVER_DONE, SSL3_MT_CHANGE_CIPHER_SPEC] =
      b @ t @ [SSL3_MT_CHANGE_CIPHER_SPEC]"
  using no_early_ccs [OF sample_client_full_run] by simp

end
