(* ===== verification/Tls_Machine.thy ===== *)
theory Tls_Machine
  imports Tls_Protocol
begin

text \<open>
  The message flow state machine (ssl/statem/statem.c): the reading and the writing
  sub-machine and \<open>state_machine\<close>, which alternates them. A pass through the C loop is
  one function whose result is either the value returned or the state to go on with; the
  loops are partial functions, since a peer can keep a handshake going for ever. The
  notification of callbacks is left out.
\<close>

subsection \<open>Dispatch on the side\<close>

definition transition :: "'e SSL \<Rightarrow> int \<Rightarrow> bool \<times> 'e SSL" where
  "transition s mt = (if server s then ossl_statem_server_read_transition s mt
                      else ossl_statem_client_read_transition s mt)"

definition process_message :: "'e tls_ops \<Rightarrow> 'e SSL \<Rightarrow> MSG_PROCESS_RETURN \<times> 'e SSL" where
  "process_message ops s = (if server s then ossl_statem_server_process_message ops s
                            else ossl_statem_client_process_message ops s)"

definition max_message_size :: "'e SSL \<Rightarrow> nat" where
  "max_message_size s = (if server s then ossl_statem_server_max_message_size s
                         else ossl_statem_client_max_message_size s)"

definition post_process_message ::
  "'e tls_ops \<Rightarrow> 'e SSL \<Rightarrow> WORK_STATE \<Rightarrow> WORK_STATE \<times> 'e SSL" where
  "post_process_message ops s wst = (if server s then ossl_statem_server_post_process_message ops s wst
                                     else ossl_statem_client_post_process_message ops s wst)"

definition write_transition :: "'e SSL \<Rightarrow> WRITE_TRAN \<times> 'e SSL" where
  "write_transition s = (if server s then ossl_statem_server_write_transition s
                         else ossl_statem_client_write_transition s)"

definition pre_work :: "'e tls_ops \<Rightarrow> 'e SSL \<Rightarrow> WORK_STATE \<Rightarrow> WORK_STATE \<times> 'e SSL" where
  "pre_work ops s wst = (if server s then ossl_statem_server_pre_work ops s wst
                         else ossl_statem_client_pre_work ops s wst)"

definition post_work :: "'e tls_ops \<Rightarrow> 'e SSL \<Rightarrow> WORK_STATE \<Rightarrow> WORK_STATE \<times> 'e SSL" where
  "post_work ops s wst = (if server s then ossl_statem_server_post_work ops s wst
                          else ossl_statem_client_post_work ops s wst)"

definition construct_message :: "'e tls_ops \<Rightarrow> 'e SSL \<Rightarrow> int \<times> 'e SSL" where
  "construct_message ops s = (if server s then ossl_statem_server_construct_message ops s
                              else ossl_statem_client_construct_message ops s)"

definition upd_statem :: "(OSSL_STATEM \<Rightarrow> OSSL_STATEM) \<Rightarrow> 'e SSL \<Rightarrow> 'e SSL" where
  "upd_statem f s = s\<lparr>statem := f (statem s)\<rparr>"

subsection \<open>Reading\<close>

definition init_read_state_machine :: "'e SSL \<Rightarrow> 'e SSL" where
  "init_read_state_machine s = upd_statem (\<lambda>st. st\<lparr>read_state := READ_STATE_HEADER\<rparr>) s"

definition read_header :: "'e tls_ops \<Rightarrow> 'e SSL \<Rightarrow> (SUB_STATE_RETURN \<times> 'e SSL) + 'e SSL" where
  "read_header ops s =
     (let (ret, s) = call ops (if is_dtls s then Dtls_get_message else Tls_get_message_header) s in
      if ret = 0 then Inl (SUB_STATE_ERROR, s)
      else let (ok, s) = transition s (message_type s) in
      if \<not> ok then Inl (SUB_STATE_ERROR, ossl_statem_set_error s)
      else if message_size s > max_message_size s
      then Inl (SUB_STATE_ERROR, ssl3_send_alert SSL_AD_ILLEGAL_PARAMETER s)
      else let (grown, s) = (if \<not> is_dtls s \<and> message_size s > 0 then call ops Grow_init_buf s
                             else (1, s)) in
      if grown = 0 then Inl (SUB_STATE_ERROR, ssl3_send_alert SSL_AD_INTERNAL_ERROR s)
      else Inr (upd_statem (\<lambda>st. st\<lparr>read_state := READ_STATE_BODY\<rparr>) s))"

definition read_body :: "'e tls_ops \<Rightarrow> 'e SSL \<Rightarrow> (SUB_STATE_RETURN \<times> 'e SSL) + 'e SSL" where
  "read_body ops s =
     (let (ret, s) = (if \<not> is_dtls s then call ops Tls_get_message_body s else (1, s)) in
      if ret = 0 then Inl (SUB_STATE_ERROR, s)
      else let s = s\<lparr>first_packet := False\<rparr> in
      if length (body s) > 2 ^ 63 - 1
      then Inl (SUB_STATE_ERROR, ssl3_send_alert SSL_AD_INTERNAL_ERROR s)
      else let (ret, s) = process_message ops s;
               s = s\<lparr>init_num := 0\<rparr>
      in case ret of
           MSG_PROCESS_ERROR \<Rightarrow> Inl (SUB_STATE_ERROR, s)
         | MSG_PROCESS_FINISHED_READING \<Rightarrow> Inl (SUB_STATE_FINISHED, s)
         | MSG_PROCESS_CONTINUE_PROCESSING \<Rightarrow>
             Inr (upd_statem (\<lambda>st. st\<lparr>read_state := READ_STATE_POST_PROCESS,
                                       read_state_work := WORK_MORE_A\<rparr>) s)
         | MSG_PROCESS_CONTINUE_READING \<Rightarrow>
             Inr (upd_statem (\<lambda>st. st\<lparr>read_state := READ_STATE_HEADER\<rparr>) s))"

definition read_post_process :: "'e tls_ops \<Rightarrow> 'e SSL \<Rightarrow> (SUB_STATE_RETURN \<times> 'e SSL) + 'e SSL" where
  "read_post_process ops s =
     (let (wst, s) = post_process_message ops s (read_state_work (statem s));
          s = upd_statem (\<lambda>st. st\<lparr>read_state_work := wst\<rparr>) s
      in case wst of
           WORK_FINISHED_CONTINUE \<Rightarrow> Inr (upd_statem (\<lambda>st. st\<lparr>read_state := READ_STATE_HEADER\<rparr>) s)
         | WORK_FINISHED_STOP \<Rightarrow> Inl (SUB_STATE_FINISHED, s)
         | _ \<Rightarrow> Inl (SUB_STATE_ERROR, s))"

text \<open>One pass of the loop; the header state falls through to the body state.\<close>

definition read_pass :: "'e tls_ops \<Rightarrow> 'e SSL \<Rightarrow> (SUB_STATE_RETURN \<times> 'e SSL) + 'e SSL" where
  "read_pass ops s =
     (case read_state (statem s) of
        READ_STATE_HEADER \<Rightarrow> (case read_header ops s of Inl r \<Rightarrow> Inl r | Inr s \<Rightarrow> read_body ops s)
      | READ_STATE_BODY \<Rightarrow> read_body ops s
      | READ_STATE_POST_PROCESS \<Rightarrow> read_post_process ops s)"

partial_function (option) read_loop ::
  "'e tls_ops \<Rightarrow> 'e SSL \<Rightarrow> (SUB_STATE_RETURN \<times> 'e SSL) option" where
  "read_loop ops s = (case read_pass ops s of Inl r \<Rightarrow> Some r | Inr s \<Rightarrow> read_loop ops s)"

definition read_state_machine :: "'e tls_ops \<Rightarrow> 'e SSL \<Rightarrow> (SUB_STATE_RETURN \<times> 'e SSL) option" where
  "read_state_machine ops s =
     read_loop ops (if read_state_first_init (statem s)
                    then (upd_statem (\<lambda>st. st\<lparr>read_state_first_init := False\<rparr>) s)\<lparr>first_packet := True\<rparr>
                    else s)"

subsection \<open>Writing\<close>

definition init_write_state_machine :: "'e SSL \<Rightarrow> 'e SSL" where
  "init_write_state_machine s = upd_statem (\<lambda>st. st\<lparr>write_state := WRITE_STATE_TRANSITION\<rparr>) s"

definition write_transition_state :: "'e SSL \<Rightarrow> (SUB_STATE_RETURN \<times> 'e SSL) + 'e SSL" where
  "write_transition_state s =
     (case write_transition s of (tran, s) \<Rightarrow>
        (case tran of
           WRITE_TRAN_CONTINUE \<Rightarrow>
             Inr (upd_statem (\<lambda>st. st\<lparr>write_state := WRITE_STATE_PRE_WORK,
                                       write_state_work := WORK_MORE_A\<rparr>) s)
         | WRITE_TRAN_FINISHED \<Rightarrow> Inl (SUB_STATE_FINISHED, s)
         | WRITE_TRAN_ERROR \<Rightarrow> Inl (SUB_STATE_ERROR, s)))"

definition write_pre_work :: "'e tls_ops \<Rightarrow> 'e SSL \<Rightarrow> (SUB_STATE_RETURN \<times> 'e SSL) + 'e SSL" where
  "write_pre_work ops s =
     (let (wst, s) = pre_work ops s (write_state_work (statem s));
          s = upd_statem (\<lambda>st. st\<lparr>write_state_work := wst\<rparr>) s
      in case wst of
           WORK_FINISHED_CONTINUE \<Rightarrow>
             (case construct_message ops (upd_statem (\<lambda>st. st\<lparr>write_state := WRITE_STATE_SEND\<rparr>) s) of
                (ret, s) \<Rightarrow> if ret = 0 then Inl (SUB_STATE_ERROR, s) else Inr s)
         | WORK_FINISHED_STOP \<Rightarrow> Inl (SUB_STATE_END_HANDSHAKE, s)
         | _ \<Rightarrow> Inl (SUB_STATE_ERROR, s))"

definition write_send :: "'e tls_ops \<Rightarrow> 'e SSL \<Rightarrow> (SUB_STATE_RETURN \<times> 'e SSL) + 'e SSL" where
  "write_send ops s =
     (case call ops Statem_do_write s of
        (ret, s) \<Rightarrow> if ret \<le> 0 then Inl (SUB_STATE_ERROR, s)
                    else Inr (upd_statem (\<lambda>st. st\<lparr>write_state := WRITE_STATE_POST_WORK,
                                                   write_state_work := WORK_MORE_A\<rparr>) s))"

definition write_post_work :: "'e tls_ops \<Rightarrow> 'e SSL \<Rightarrow> (SUB_STATE_RETURN \<times> 'e SSL) + 'e SSL" where
  "write_post_work ops s =
     (let (wst, s) = post_work ops s (write_state_work (statem s));
          s = upd_statem (\<lambda>st. st\<lparr>write_state_work := wst\<rparr>) s
      in case wst of
           WORK_FINISHED_CONTINUE \<Rightarrow> Inr (upd_statem (\<lambda>st. st\<lparr>write_state := WRITE_STATE_TRANSITION\<rparr>) s)
         | WORK_FINISHED_STOP \<Rightarrow> Inl (SUB_STATE_END_HANDSHAKE, s)
         | _ \<Rightarrow> Inl (SUB_STATE_ERROR, s))"

definition and_then ::
  "('r + 's) \<Rightarrow> ('s \<Rightarrow> 'r + 's) \<Rightarrow> 'r + 's" where
  "and_then x f = (case x of Inl r \<Rightarrow> Inl r | Inr s \<Rightarrow> f s)"

text \<open>One pass: the states from \<open>WRITE_STATE_PRE_WORK\<close> on fall through.\<close>

definition write_pass :: "'e tls_ops \<Rightarrow> 'e SSL \<Rightarrow> (SUB_STATE_RETURN \<times> 'e SSL) + 'e SSL" where
  "write_pass ops s =
     (case write_state (statem s) of
        WRITE_STATE_TRANSITION \<Rightarrow> write_transition_state s
      | WRITE_STATE_PRE_WORK \<Rightarrow>
          and_then (and_then (write_pre_work ops s) (write_send ops)) (write_post_work ops)
      | WRITE_STATE_SEND \<Rightarrow> and_then (write_send ops s) (write_post_work ops)
      | WRITE_STATE_POST_WORK \<Rightarrow> write_post_work ops s)"

partial_function (option) write_state_machine ::
  "'e tls_ops \<Rightarrow> 'e SSL \<Rightarrow> (SUB_STATE_RETURN \<times> 'e SSL) option" where
  "write_state_machine ops s =
     (case write_pass ops s of Inl r \<Rightarrow> Some r | Inr s \<Rightarrow> write_state_machine ops s)"

subsection \<open>The whole machine\<close>

text \<open>
  \<open>SSL_clear\<close> (ssl_lib.c) as far as it concerns the modelled members; the buffers, the
  record layer and the session belong to \<open>SSL_clear_rest\<close>.
\<close>

definition SSL_clear :: "'e tls_ops \<Rightarrow> 'e SSL \<Rightarrow> bool \<times> 'e SSL" where
  "SSL_clear ops s =
     (let s = s\<lparr>hit := False, shutdown := 0\<rparr> in
      if renegotiate s \<noteq> 0 then (False, s)
      else (case call ops SSL_clear_rest ((ossl_statem_clear s)\<lparr>init_buf := False, first_packet := False\<rparr>) of
              (ret, s) \<Rightarrow> (ret \<noteq> 0, s)))"

text \<open>
  The initialisation for \<open>MSG_FLOW_UNINITED\<close> and \<open>MSG_FLOW_RENEGOTIATE\<close>; Inl is \<open>goto end\<close>.
  \<open>version\<close> is masked as in C, on its low 16 bits.
\<close>

definition version_ok :: "bool \<Rightarrow> 'e SSL \<Rightarrow> bool" where
  "version_ok srv s \<longleftrightarrow>
     (if is_dtls s
      then \<not> (version s div 256 mod 256 \<noteq> DTLS1_VERSION div 256 mod 256 \<and>
              (srv \<or> version s div 256 mod 256 \<noteq> DTLS1_BAD_VER div 256 mod 256))
      else version s div 256 = 3)"

definition need :: "'e tls_ops \<Rightarrow> callee \<Rightarrow> 'e SSL \<Rightarrow> 'e SSL + 'e SSL" where
  "need ops c s = (case call ops c s of (ret, s) \<Rightarrow> if ret = 0 then Inl s else Inr s)"

definition init_buffers :: "'e tls_ops \<Rightarrow> 'e SSL \<Rightarrow> 'e SSL + 'e SSL" where
  "init_buffers ops s =
     and_then (and_then (and_then (need ops Ssl_security_version s)
       (\<lambda>s. if init_buf s then Inr s
            else (case need ops Alloc_init_buf s of Inl s \<Rightarrow> Inl s | Inr s \<Rightarrow> Inr (s\<lparr>init_buf := True\<rparr>))))
       (need ops Ssl3_setup_buffers))
       (\<lambda>s. need ops Ssl_init_wbio_buffer (s\<lparr>init_num := 0, change_cipher_spec := False\<rparr>))"

definition init_mac :: "'e tls_ops \<Rightarrow> bool \<Rightarrow> 'e SSL \<Rightarrow> 'e SSL + 'e SSL" where
  "init_mac ops srv s =
     (if \<not> srv \<or> state (statem s) \<noteq> MSG_FLOW_RENEGOTIATE
      then (case call ops Ssl3_init_finished_mac s of
              (ret, s) \<Rightarrow> if ret = 0 then Inl (ossl_statem_set_error s) else Inr s)
      else Inr s)"

definition init_side :: "bool \<Rightarrow> 'e SSL \<Rightarrow> 'e SSL + 'e SSL" where
  "init_side srv s =
     (if srv then
        (if state (statem s) = MSG_FLOW_RENEGOTIATE \<and> \<not> send_connection_binding s \<and>
            options s AND SSL_OP_ALLOW_UNSAFE_LEGACY_RENEGOTIATION = 0
         then Inl (ossl_statem_set_error (ssl3_send_alert SSL3_AD_HANDSHAKE_FAILURE s))
         else Inr (s\<lparr>cert_request := False\<rparr>))
      else
        (let s = s\<lparr>hit := False, cert_req := 0\<rparr>
         in Inr (if is_dtls s then set_use_timer True s else s)))"

definition init_handshake :: "'e tls_ops \<Rightarrow> bool \<Rightarrow> 'e SSL \<Rightarrow> 'e SSL + 'e SSL" where
  "init_handshake ops srv s =
     (let s = (if state (statem s) = MSG_FLOW_UNINITED then set_hs TLS_ST_BEFORE s else s);
          s = s\<lparr>server := srv\<rparr>
      in if \<not> version_ok srv s then Inl s
         else (case and_then (and_then (init_buffers ops s) (init_mac ops srv)) (init_side srv) of
                 Inl s \<Rightarrow> Inl s
               | Inr s \<Rightarrow> Inr (upd_statem (\<lambda>st. st\<lparr>read_state_first_init := True\<rparr>)
                                (init_write_state_machine
                                  (upd_statem (\<lambda>st. st\<lparr>state := MSG_FLOW_WRITING\<rparr>) s)))))"

text \<open>The main loop; the flag says whether it ended in \<open>MSG_FLOW_FINISHED\<close>.\<close>

partial_function (option) flow_loop :: "'e tls_ops \<Rightarrow> 'e SSL \<Rightarrow> (bool \<times> 'e SSL) option" where
  "flow_loop ops s =
     (case state (statem s) of
        MSG_FLOW_FINISHED \<Rightarrow> Some (True, s)
      | MSG_FLOW_READING \<Rightarrow>
          (case read_state_machine ops s of
             None \<Rightarrow> None
           | Some r \<Rightarrow>
               (if fst r = SUB_STATE_FINISHED
                then flow_loop ops (init_write_state_machine
                                     (upd_statem (\<lambda>st. st\<lparr>state := MSG_FLOW_WRITING\<rparr>) (snd r)))
                else Some (False, snd r)))
      | MSG_FLOW_WRITING \<Rightarrow>
          (case write_state_machine ops s of
             None \<Rightarrow> None
           | Some r \<Rightarrow>
               (if fst r = SUB_STATE_FINISHED
                then flow_loop ops (init_read_state_machine
                                     (upd_statem (\<lambda>st. st\<lparr>state := MSG_FLOW_READING\<rparr>) (snd r)))
                else if fst r = SUB_STATE_END_HANDSHAKE
                then flow_loop ops (upd_statem (\<lambda>st. st\<lparr>state := MSG_FLOW_FINISHED\<rparr>) (snd r))
                else Some (False, snd r)))
      | _ \<Rightarrow> Some (False, ossl_statem_set_error s))"

definition leave_handshake :: "'e SSL \<Rightarrow> 'e SSL" where
  "leave_handshake s = upd_statem (\<lambda>st. st\<lparr>in_handshake := in_handshake st - 1\<rparr>) s"

definition state_machine :: "'e tls_ops \<Rightarrow> bool \<Rightarrow> 'e SSL \<Rightarrow> (int \<times> 'e SSL) option" where
  "state_machine ops srv s =
     (if state (statem s) = MSG_FLOW_ERROR then Some (-1, s)
      else
        let s = upd_statem (\<lambda>st. st\<lparr>in_handshake := in_handshake st + 1\<rparr>) s;
            (cleared, s) = (if \<not> SSL_in_init s \<or> SSL_in_before s then SSL_clear ops s else (True, s))
        in if \<not> cleared then Some (-1, s)
           else
             let s = (if state (statem s) = MSG_FLOW_RENEGOTIATE then s\<lparr>renegotiate := 1\<rparr> else s);
                 r = (if state (statem s) = MSG_FLOW_UNINITED \<or> state (statem s) = MSG_FLOW_RENEGOTIATE
                      then init_handshake ops srv s else Inr s)
             in case r of
                  Inl s \<Rightarrow> Some (-1, leave_handshake s)
                | Inr s \<Rightarrow>
                    (case flow_loop ops s of
                       None \<Rightarrow> None
                     | Some (finished, s) \<Rightarrow>
                         if finished
                         then Some (1, leave_handshake (upd_statem (\<lambda>st. st\<lparr>state := MSG_FLOW_UNINITED\<rparr>) s))
                         else Some (-1, leave_handshake s)))"

definition ossl_statem_connect :: "'e tls_ops \<Rightarrow> 'e SSL \<Rightarrow> (int \<times> 'e SSL) option" where
  "ossl_statem_connect ops s = state_machine ops False s"

definition ossl_statem_accept :: "'e tls_ops \<Rightarrow> 'e SSL \<Rightarrow> (int \<times> 'e SSL) option" where
  "ossl_statem_accept ops s = state_machine ops True s"

subsection \<open>Errors while reading\<close>

lemma upd_statem_simps [simp]:
  "statem (upd_statem f s) = f (statem s)" "server (upd_statem f s) = server s"
  "alerts (upd_statem f s) = alerts s" "is_dtls (upd_statem f s) = is_dtls s"
  "message_type (upd_statem f s) = message_type s" "message_size (upd_statem f s) = message_size s"
  "env (upd_statem f s) = env s" "hit (upd_statem f s) = hit s"
  by (simp_all add: upd_statem_def)

lemma transition_frame:
  "transition s mt = (ok, s') \<Longrightarrow>
     (if ok then state_message (hs s') = Some mt
      else s' \<in> {ssl3_send_alert SSL3_AD_UNEXPECTED_MESSAGE s, ssl3_send_alert SSL3_AD_HANDSHAKE_FAILURE s})"
  using client_read_sound [of s mt ok s'] server_read_sound [of s mt ok s']
  by (auto simp: transition_def split: if_splits)

lemma alert_simps [simp]:
  "statem (ssl3_send_alert a s) = statem s" "alerts (ssl3_send_alert a s) = alerts s @ [a]"
  "server (ssl3_send_alert a s) = server s" "hit (ssl3_send_alert a s) = hit s"
  "env (ssl3_send_alert a s) = env s" "message_size (ssl3_send_alert a s) = message_size s"
  by (simp_all add: ssl3_send_alert_def)

lemma set_error_simps [simp]:
  "state (statem (ossl_statem_set_error s)) = MSG_FLOW_ERROR" "alerts (ossl_statem_set_error s) = alerts s"
  "hs (ossl_statem_set_error s) = hs s"
  by (simp_all add: ossl_statem_set_error_def)

text \<open>
  C24: a message the current state does not allow makes the handshake fail for good: the
  call returns -1 with one fatal alert, and every later call returns -1 and changes
  nothing.
\<close>

lemma unexpected_message_fatal:
  fixes s :: "'e SSL" and ops :: "'e tls_ops"
  assumes st: "state (statem s) = MSG_FLOW_READING" "in_init (statem s)"
      "read_state (statem s) = READ_STATE_HEADER"
    and hdr: "\<forall>s. \<exists>ret s1. call ops (if is_dtls s then Dtls_get_message else Tls_get_message_header) s = (ret, s1) \<and>
        ret \<noteq> 0 \<and> statem s1 = statem s \<and> server s1 = server s \<and> message_type s1 = mt \<and> alerts s1 = alerts s"
    and bad: "\<forall>s1 :: 'e SSL. server s1 = server s \<and> hs s1 = hs s \<longrightarrow> \<not> fst (transition s1 mt)"
  shows "\<exists>s' a. state_machine ops srv s = Some (-1, s') \<and> alerts s' = alerts s @ [a] \<and>
    (\<forall>srv'. state_machine ops srv' s' = Some (-1, s'))"
proof -
  let ?s0 = "upd_statem (\<lambda>st. st\<lparr>in_handshake := in_handshake st + 1\<rparr>) s"
  let ?s1 = "if read_state_first_init (statem ?s0)
             then (upd_statem (\<lambda>st. st\<lparr>read_state_first_init := False\<rparr>) ?s0)\<lparr>first_packet := True\<rparr> else ?s0"
  have 1: "read_state (statem ?s1) = READ_STATE_HEADER" "hs ?s1 = hs s" "server ?s1 = server s"
    "alerts ?s1 = alerts s" "state (statem ?s1) = MSG_FLOW_READING"
    using st by simp_all
  from hdr obtain ret s2 where c: "call ops (if is_dtls ?s1 then Dtls_get_message
      else Tls_get_message_header) ?s1 = (ret, s2)" and ret: "ret \<noteq> 0" "statem s2 = statem ?s1"
      "server s2 = server ?s1" "message_type s2 = mt" "alerts s2 = alerts ?s1" by meson
  obtain ok s3 where t: "transition s2 mt = (ok, s3)" by force
  have "\<not> ok" using bad [rule_format, of s2] ret 1 t by simp
  with transition_frame [OF t] obtain a where s3: "s3 = ssl3_send_alert a s2" by auto
  let ?r = "ossl_statem_set_error s3"
  have "read_pass ops ?s1 = Inl (SUB_STATE_ERROR, ?r)"
    using c ret(1,4) t \<open>\<not> ok\<close> 1(1) by (simp add: read_pass_def read_header_def)
  then have "read_state_machine ops ?s0 = Some (SUB_STATE_ERROR, ?r)"
    unfolding read_state_machine_def by (subst read_loop.simps) simp
  then have "flow_loop ops ?s0 = Some (False, ?r)"
    using st(1) by (subst flow_loop.simps) simp
  then have m: "state_machine ops srv s = Some (-1, leave_handshake ?r)"
    using st by (simp add: state_machine_def SSL_in_init_def SSL_in_before_def Let_def)
  have "state (statem (leave_handshake ?r)) = MSG_FLOW_ERROR" by (simp add: leave_handshake_def)
  moreover have "alerts (leave_handshake ?r) = alerts s @ [a]"
    using s3 ret(5) 1(4) by (simp add: leave_handshake_def)
  ultimately show ?thesis using m by (auto simp: state_machine_def)
qed

text \<open>A ClientHello arrives at a server that waits for ChangeCipherSpec.\<close>

theorem unexpected_message_fatal_witness:
  "\<exists>s' a. state_machine (sample_ops\<lparr>call := \<lambda>c s. (1, s\<lparr>message_type := SSL3_MT_CLIENT_HELLO\<rparr>)\<rparr>) True
        (sample_ssl TLS_ST_SR_CERT_VRFY False) = Some (-1, s') \<and> alerts s' = [a]"
proof -
  let ?ops = "sample_ops\<lparr>call := \<lambda>c s. (1, s\<lparr>message_type := SSL3_MT_CLIENT_HELLO\<rparr>)\<rparr>"
  have "\<exists>s' a. state_machine ?ops True (sample_ssl TLS_ST_SR_CERT_VRFY False) = Some (-1, s') \<and>
      alerts s' = alerts (sample_ssl TLS_ST_SR_CERT_VRFY False) @ [a] \<and>
      (\<forall>srv'. state_machine ?ops srv' s' = Some (-1, s'))"
    by (rule unexpected_message_fatal [where mt = SSL3_MT_CLIENT_HELLO])
      (simp_all add: transition_def ossl_statem_server_read_transition_def
        server_read_error_def mt_defs)
  then show ?thesis by auto
qed

text \<open>
  A message larger than its state allows is refused with an alert and is not processed,
  but, unlike an unexpected message, it does not put the machine into the error state: it
  goes on waiting for a header in the state that stands for the message it skipped.
\<close>

lemma oversized_message_skipped:
  assumes st: "read_state (statem s) = READ_STATE_HEADER" "\<not> read_state_first_init (statem s)"
    and hdr: "call ops (if is_dtls s then Dtls_get_message else Tls_get_message_header) s = (ret, s1)"
    and "ret \<noteq> 0" and t: "transition s1 (message_type s1) = (True, s2)"
    and size: "message_size s2 > max_message_size s2"
  shows "\<exists>s'. read_state_machine ops s = Some (SUB_STATE_ERROR, s') \<and>
    alerts s' = alerts s2 @ [SSL_AD_ILLEGAL_PARAMETER] \<and> statem s' = statem s2 \<and>
    state_message (hs s') = Some (message_type s1)"
proof -
  let ?r = "ssl3_send_alert SSL_AD_ILLEGAL_PARAMETER s2"
  have "read_pass ops s = Inl (SUB_STATE_ERROR, ?r)"
    using assms by (simp add: read_pass_def read_header_def)
  then have "read_state_machine ops s = Some (SUB_STATE_ERROR, ?r)"
    using st(2) unfolding read_state_machine_def by (subst read_loop.simps) simp
  with transition_frame [OF t] show ?thesis by simp
qed

text \<open>A Finished message of 65 bytes.\<close>

theorem oversized_message_skipped_witness:
  "\<exists>s'. read_state_machine sample_ops ((sample_ssl TLS_ST_SR_CHANGE False)\<lparr>message_size := 65\<rparr>) =
      Some (SUB_STATE_ERROR, s') \<and> alerts s' = [SSL_AD_ILLEGAL_PARAMETER] \<and>
      \<not> ossl_statem_in_error s' \<and> state_message (hs s') = Some SSL3_MT_FINISHED"
proof -
  let ?s = "(sample_ssl TLS_ST_SR_CHANGE False)\<lparr>message_size := 65\<rparr>"
  have t: "transition ?s (message_type ?s) = (True, set_hs TLS_ST_SR_FINISHED ?s)"
    by (simp add: transition_def ossl_statem_server_read_transition_def set_hs_def)
  have "\<exists>s'. read_state_machine sample_ops ?s = Some (SUB_STATE_ERROR, s') \<and>
      alerts s' = alerts (set_hs TLS_ST_SR_FINISHED ?s) @ [SSL_AD_ILLEGAL_PARAMETER] \<and>
      statem s' = statem (set_hs TLS_ST_SR_FINISHED ?s) \<and> state_message (hs s') = Some (message_type ?s)"
    by (rule oversized_message_skipped [where ret = 1, OF _ _ _ _ t])
      (simp_all add: set_hs_def max_message_size_def
        ossl_statem_server_max_message_size_def FINISHED_MAX_LENGTH_def)
  then show ?thesis by (auto simp: set_hs_def ossl_statem_in_error_def)
qed

text \<open>
  A message gets to the body state only if its size is within the limit of its state
  and the state stands for its type, given that enlarging the buffer changes neither.
\<close>

lemma body_size_checked:
  assumes "read_header ops s = Inr s'"
    and "\<forall>s. hs (snd (call ops Grow_init_buf s)) = hs s \<and>
          message_size (snd (call ops Grow_init_buf s)) = message_size s \<and>
          message_type (snd (call ops Grow_init_buf s)) = message_type s \<and>
          max_message_size (snd (call ops Grow_init_buf s)) = max_message_size s"
  shows "message_size s' \<le> max_message_size s' \<and> (\<exists>mt. state_message (hs s') = Some mt)"
proof -
  obtain ret s1 where c: "call ops (if is_dtls s then Dtls_get_message else Tls_get_message_header) s = (ret, s1)"
    by force
  obtain ok s2 where t: "transition s1 (message_type s1) = (ok, s2)" by force
  define g where "g = (if \<not> is_dtls s2 \<and> message_size s2 > 0 then call ops Grow_init_buf s2 else (1, s2))"
  from assms(1) c t have r: "ok" "message_size s2 \<le> max_message_size s2"
      "s' = upd_statem (\<lambda>st. st\<lparr>read_state := READ_STATE_BODY\<rparr>) (snd g)"
    by (auto simp: read_header_def g_def Let_def split: if_splits prod.splits)
  have g: "hs (snd g) = hs s2" "message_size (snd g) = message_size s2"
    "max_message_size (snd g) = max_message_size s2"
    using assms(2) by (auto simp: g_def)
  have "max_message_size (upd_statem (\<lambda>st. st\<lparr>read_state := READ_STATE_BODY\<rparr>) s) = max_message_size s" for s :: "'a SSL"
    by (cases "hs s") (simp_all add: max_message_size_def upd_statem_def
        ossl_statem_server_max_message_size_def ossl_statem_client_max_message_size_def)
  with r g transition_frame [OF t] show ?thesis by simp
qed

theorem body_size_checked_witness:
  "\<exists>s'. read_header sample_ops (sample_ssl TLS_ST_SR_CHANGE False) = Inr s' \<and>
    message_size s' \<le> max_message_size s' \<and> (\<exists>mt. state_message (hs s') = Some mt)"
proof -
  obtain s' where r: "read_header sample_ops (sample_ssl TLS_ST_SR_CHANGE False) = Inr s'"
    by (simp add: read_header_def transition_def ossl_statem_server_read_transition_def
        max_message_size_def ossl_statem_server_max_message_size_def FINISHED_MAX_LENGTH_def)
  from body_size_checked [OF r] r show ?thesis by simp
qed

text \<open>
  When \<open>SSL_clear\<close> fails, for instance because \<open>renegotiate\<close> is still set,
  \<open>state_machine\<close> returns -1 without undoing its increment of \<open>in_handshake\<close>.
\<close>

lemma in_handshake_leak:
  assumes "state (statem s) \<noteq> MSG_FLOW_ERROR" and "\<not> in_init (statem s)" and "renegotiate s \<noteq> 0"
  shows "\<exists>s'. state_machine ops srv s = Some (-1, s') \<and>
    in_handshake (statem s') = in_handshake (statem s) + 1"
  using assms
  by (simp add: state_machine_def SSL_in_init_def SSL_clear_def upd_statem_def Let_def)

theorem in_handshake_leak_witness:
  "\<exists>s'. state_machine sample_ops True
      (ossl_statem_set_in_init False ((sample_ssl TLS_ST_OK False)\<lparr>renegotiate := 1\<rparr>)) = Some (-1, s') \<and>
    in_handshake (statem s') = 1"
  using in_handshake_leak [of "ossl_statem_set_in_init False ((sample_ssl TLS_ST_OK False)\<lparr>renegotiate := 1\<rparr>)"
      sample_ops True]
  by (simp add: ossl_statem_set_in_init_def)

end
