(* ===== verification/Byte_Words.thy ===== *)
theory Byte_Words
  imports Dev_Prelude
begin

text \<open>
  Bytes and words as numbers: the values of byte lists, of masked and joined words, as the
  encoders and decoders of libcrypto use them.
\<close>

subsection \<open>Byte lists as numbers\<close>

text \<open>The value of big-endian bytes.\<close>

definition be_value :: "byte list \<Rightarrow> nat" where
  "be_value bs = foldl (\<lambda>v b. 256 * v + unat b) 0 bs"

lemma be_value_Nil [simp]: "be_value [] = 0"
  by (simp add: be_value_def)

lemma be_value_snoc [simp]: "be_value (bs @ [b]) = 256 * be_value bs + unat b"
  by (simp add: be_value_def)

lemma be_value_append: "be_value (xs @ ys) = be_value xs * 256 ^ length ys + be_value ys"
  by (induction ys rule: rev_induct) (simp_all flip: append_assoc add: algebra_simps)

lemma be_value_Cons: "be_value (x # xs) = unat x * 256 ^ length xs + be_value xs"
  using be_value_append [of "[x]" xs] by (simp add: be_value_def)

lemma byte_less: "unat (b :: byte) < 256"
  using unsigned_less [of b, where 'a = nat] by simp

lemma be_value_less: "be_value bs < 256 ^ length bs"
proof (induction bs rule: rev_induct)
  case (snoc b bs)
  then show ?case using byte_less [of b] by simp
qed simp

lemma be_value_inject: "length xs = length ys \<Longrightarrow> be_value xs = be_value ys \<longleftrightarrow> xs = ys"
proof (induction xs arbitrary: ys rule: rev_induct)
  case (snoc x xs)
  then obtain zs z where ys: "ys = zs @ [z]" "length xs = length zs" by (cases ys rule: rev_cases) auto
  have d: "(256 * v + unat (b :: byte)) div 256 = v" "(256 * v + unat b) mod 256 = unat b" for v b
    using byte_less [of b] by simp_all
  have "be_value (xs @ [x]) = be_value (zs @ [z]) \<longleftrightarrow> be_value xs = be_value zs \<and> unat x = unat z"
    unfolding be_value_snoc using d by metis
  then show ?case unfolding ys(1) snoc.IH [OF ys(2)] by (auto intro: unsigned_word_eqI)
qed simp

text \<open>\<open>memcmp\<close> of the C library, on blocks of the same length.\<close>

fun memcmp :: "byte list \<Rightarrow> byte list \<Rightarrow> int" where
  "memcmp (x # xs) (y # ys) = (if x \<noteq> y then uint x - uint y else memcmp xs ys)"
| "memcmp _ _ = 0"

lemma leading_digit:
  assumes "a < b" and "r < (m :: nat)"
  shows "a * m + r < b * m + s"
proof -
  have "a * m + r < Suc a * m" using assms(2) by simp
  also have "\<dots> \<le> b * m" using assms(1) by (intro mult_le_mono1) simp
  finally show ?thesis by simp
qed

lemma memcmp_value:
  assumes "length xs = length ys"
  shows "memcmp xs ys < 0 \<longleftrightarrow> be_value xs < be_value ys" and "memcmp xs ys = 0 \<longleftrightarrow> xs = ys"
  using assms
proof (induction xs ys rule: list_induct2)
  case (Cons x xs y ys)
  let ?m = "256 ^ length ys :: nat"
  have less: "be_value xs < ?m" "be_value ys < ?m"
    using be_value_less [of xs] be_value_less [of ys] Cons.hyps by simp_all
  have u: "uint x - uint y < 0 \<longleftrightarrow> unat x < unat y" "uint x = uint y \<longleftrightarrow> x = y"
    by (simp_all add: word_uint_eq_iff flip: unat_mono word_less_def word_less_nat_alt)
  {
    case 1
    show ?case
    proof (cases "unat x" "unat y" rule: linorder_cases)
      case less
      with leading_digit [OF less \<open>be_value xs < ?m\<close>, of "be_value ys"] u Cons.hyps show ?thesis
        by (auto simp: be_value_Cons)
    next
      case equal
      then have "x = y" by (simp add: word_unat_eq_iff)
      with Cons show ?thesis by (simp add: be_value_Cons)
    next
      case greater
      with leading_digit [OF greater \<open>be_value ys < ?m\<close>, of "be_value xs"] u Cons.hyps show ?thesis
        by (auto simp: be_value_Cons)
    qed
  next
    case 2
    then show ?case using Cons u by simp
  }
qed simp_all

lemma memcmp_sgn: "length a = length b \<Longrightarrow> sgn (memcmp a b) = sgn (int (be_value a) - int (be_value b))"
  using memcmp_value [of a b] by (auto simp: sgn_if be_value_inject)

subsection \<open>Bytes in words\<close>

lemma uint_ucast_byte: "uint (ucast (c :: byte) :: u32) = uint c"
  using uint_lt2p [of c] by (simp add: unsigned_ucast_eq take_bit_int_eq_self)

lemma unat_u32: "m < 2 ^ 32 \<Longrightarrow> unat (word_of_nat m :: u32) = m"
  by (simp add: unat_of_nat take_bit_nat_eq_self)

lemma foldl_or_zero: "foldl (\<lambda>pad c. pad OR c) a bs = (0 :: byte) \<longleftrightarrow> a = 0 \<and> (\<forall>b \<in> set bs. b = 0)"
proof -
  have "(v :: byte) OR w = 0 \<longleftrightarrow> v = 0 \<and> w = 0" for v w by (auto simp: bit_eq_iff bit_simps)
  then show ?thesis by (induction bs arbitrary: a) auto
qed

lemma top_bit_byte: "(b :: byte) AND 0x80 \<noteq> 0 \<longleftrightarrow> 128 \<le> unat b"
proof -
  have "b AND 0x80 \<noteq> 0 \<longleftrightarrow> bit b 7"
    using and_exp_eq_0_iff_not_bit [of b 7] by simp
  also have "\<dots> \<longleftrightarrow> bit (unat b) 7" by (simp add: bit_unsigned_iff)
  also have "\<dots> \<longleftrightarrow> odd (unat b div 128)" by (simp add: bit_iff_odd)
  also have "unat b div 128 = (if 128 \<le> unat b then 1 else 0)" using byte_less [of b] by auto
  finally show ?thesis by simp
qed

lemma xor_ones: "unat ((b :: byte) XOR 0xFF) = 255 - unat b"
proof -
  have ones: "(0xFF :: byte) = mask 8" by (simp add: mask_eq_exp_minus_1)
  have "b XOR 0xFF = NOT b" unfolding ones by (rule bit_word_eqI) (simp add: bit_simps)
  moreover have "uint (NOT b) = 255 - uint b"
  proof -
    have "(- u - 1) mod 256 = 255 - u" if "0 \<le> u" "u < 256" for u :: int
      using that mod_add_self2 [of "- u - 1" 256] by (simp add: mod_pos_pos_trivial)
    from this [of "uint b"] show ?thesis
      using uint_lt2p [of b] by (simp add: unsigned_not_eq take_bit_eq_mod not_int_def)
  qed
  ultimately have "nat (uint (b XOR 0xFF)) = 255 - nat (uint b)" using uint_lt2p [of b] by (simp only: nat_diff_distrib' uint_ge_0)
  then show ?thesis by simp
qed

lemma unat_ucast_byte: "unat (ucast (b :: byte) :: u32) = unat b"
  using byte_less [of b] by (simp add: unsigned_ucast_eq take_bit_nat_eq_self)

lemma div_is: "0 < m \<Longrightarrow> u div m = q \<longleftrightarrow> q * m \<le> u \<and> u < (q + 1) * (m :: nat)"
  using less_eq_div_iff_mult_less_eq [of m q u] div_less_iff_less_mult [of m u "q + 1"] by auto

lemma high_bits: "unat ((b :: byte) AND NOT (mask k)) = unat b div 2 ^ k * 2 ^ k"
proof -
  have "b AND NOT (mask k) = push_bit k (drop_bit k b)" by (rule bit_word_eqI) (auto simp: bit_simps)
  moreover have "unat b div 2 ^ k * 2 ^ k < 256" using byte_less [of b] div_times_less_eq_dividend [of "unat b" "2 ^ k"]
    by (rule le_less_trans [rotated])
  moreover have "unat (push_bit k (drop_bit k b)) = take_bit 8 (push_bit k (drop_bit k (unat b)))"
    by (simp only: unsigned_push_bit_eq unat_drop_bit_eq) simp
  ultimately show ?thesis
    by (simp only: take_bit_nat_eq_self drop_bit_eq_div push_bit_eq_mult) (simp add: take_bit_nat_eq_self)
qed

lemma low_bits: "unat ((b :: byte) AND mask k) = unat b mod 2 ^ k"
  unfolding take_bit_eq_mask [symmetric] unsigned_take_bit_eq by (simp add: take_bit_eq_mod)

lemma or_value:
  assumes "unat (a :: u64) < 2 ^ m" "unat y < 2 ^ k" "m + k \<le> 64"
  shows "unat (push_bit k a OR y) = unat a * 2 ^ k + unat y \<and> unat a * 2 ^ k + unat y < 2 ^ (m + k)"
proof -
  have y: "take_bit k y = y"
    by (rule unsigned_word_eqI [where 'a = nat]) (use assms(2) in \<open>simp add: unsigned_take_bit_eq take_bit_nat_eq_self\<close>)
  have "push_bit k a AND take_bit k y = 0" by (rule bit_word_eqI) (auto simp: bit_simps)
  then have s: "push_bit k a OR y = push_bit k a + y" unfolding y by (rule disjunctive_add_eq_or [symmetric])
  have "(unat a + 1) * 2 ^ k \<le> 2 ^ m * 2 ^ k" using assms(1) by (intro mult_right_mono) auto
  then have lt: "unat a * 2 ^ k + unat y < 2 ^ (m + k)" using assms(2) by (simp add: power_add)
  also have "(2 :: nat) ^ (m + k) \<le> 2 ^ 64" by (rule power_increasing [OF assms(3)]) simp
  finally have lt64: "unat a * 2 ^ k + unat y < 2 ^ 64" .
  have "unat (push_bit k a) = unat a * 2 ^ k"
    using lt64 unfolding unsigned_push_bit_eq by (simp add: push_bit_eq_mult take_bit_nat_eq_self)
  then have "unat (push_bit k a + y) = unat a * 2 ^ k + unat y"
    using lt64 by (simp add: unat_word_ariths)
  then show ?thesis using s lt by simp
qed

text \<open>Masks of single bytes.\<close>

lemma and_mask_byte: "unat ((b :: byte) AND 0x7f) = unat b mod 128" "unat (b AND 0x1f) = unat b mod 32"
  "b AND 0xff = b"
proof -
  have m: "(0x7f :: byte) = mask 7" "(0x1f :: byte) = mask 5" "(0xff :: byte) = mask 8"
    by (simp_all add: mask_eq_exp_minus_1)
  show "unat (b AND 0x7f) = unat b mod 128" "unat (b AND 0x1f) = unat b mod 32"
    unfolding m take_bit_eq_mask [symmetric] unsigned_take_bit_eq by (simp_all add: take_bit_eq_mod)
  show "b AND 0xff = b" unfolding m by (rule bit_word_eqI) (simp add: bit_simps)
qed

lemma or_top_byte: "unat (b :: byte) < 128 \<Longrightarrow> unat (b OR 0x80) = unat b + 128"
proof -
  assume lt: "unat b < 128"
  then have "b AND 0x80 = 0" using top_bit_byte [of b] by simp
  then have "b OR 0x80 = b + 0x80" by (rule disjunctive_add_eq_or [symmetric])
  then show ?thesis using lt by (simp add: unat_word_ariths)
qed

lemma unat_byte_of_nat: "unat (word_of_nat v :: byte) = v mod 256"
  by (simp add: unat_of_nat take_bit_eq_mod)

end
