(* ===== verification/Buffers.thy ===== *)
theory Buffers
  imports Byte_Words
begin

text \<open>
  Byte buffers of the C code: words stored in little and in big endian order, the
  exclusive or of two buffers byte by byte and eight bytes at a time, and a buffer
  overwritten at an offset.
\<close>

subsection \<open>Exclusive or of buffers\<close>

definition xor_bytes :: "byte list \<Rightarrow> byte list \<Rightarrow> byte list" where
  "xor_bytes xs ys = map2 (XOR) xs ys"

lemma length_xor_bytes [simp, buf_simps]: "length (xor_bytes xs ys) = min (length xs) (length ys)"
  by (simp add: xor_bytes_def)

lemma nth_xor_bytes [simp, buf_simps]:
  "i < length xs \<Longrightarrow> i < length ys \<Longrightarrow> xor_bytes xs ys ! i = xs ! i XOR ys ! i"
  by (simp add: xor_bytes_def)

lemma xor_bytes_Nil [simp]: "xor_bytes [] ys = []" "xor_bytes xs [] = []"
  by (simp_all add: xor_bytes_def)

lemma xor_bytes_Cons [simp]: "xor_bytes (x # xs) (y # ys) = (x XOR y) # xor_bytes xs ys"
  by (simp add: xor_bytes_def)

lemma xor_xor_word [simp]: "(a XOR b) XOR b = (a :: 'a :: len word)" "b XOR (a XOR b) = a"
  "b XOR (b XOR a) = a" "(b XOR a) XOR b = a"
  by (simp_all add: xor.assoc xor.left_commute xor.commute)

lemma xor_bytes_cancel [simp]:
  "length xs \<le> length ys \<Longrightarrow> xor_bytes (xor_bytes xs ys) ys = xs"
  by (rule nth_equalityI) simp_all

lemma xor_bytes_commute: "xor_bytes xs ys = xor_bytes ys xs"
  by (rule nth_equalityI) (simp_all add: xor.commute)

lemma take_xor_bytes: "take n (xor_bytes xs ys) = xor_bytes (take n xs) (take n ys)"
  by (simp add: xor_bytes_def take_map take_zip)

lemma drop_xor_bytes: "drop n (xor_bytes xs ys) = xor_bytes (drop n xs) (drop n ys)"
  by (simp add: xor_bytes_def drop_map drop_zip)

lemma xor_bytes_append:
  "length xs = length xs' \<Longrightarrow>
     xor_bytes (xs @ ys) (xs' @ ys') = xor_bytes xs xs' @ xor_bytes ys ys'"
  by (simp add: xor_bytes_def)

lemma xor_bytes_take_right: "length xs \<le> n \<Longrightarrow> xor_bytes xs (take n ys) = xor_bytes xs ys"
  by (rule nth_equalityI) auto

lemma xor_bytes_take_left: "length ys \<le> n \<Longrightarrow> xor_bytes (take n xs) ys = xor_bytes xs ys"
  by (metis xor_bytes_commute xor_bytes_take_right)

subsection \<open>Little endian words\<close>

fun load_le :: "byte list \<Rightarrow> 'a :: len word" where
  "load_le [] = 0"
| "load_le (b # bs) = ucast b OR push_bit 8 (load_le bs)"

fun store_le :: "nat \<Rightarrow> 'a :: len word \<Rightarrow> byte list" where
  "store_le 0 w = []"
| "store_le (Suc n) w = ucast w # store_le n (drop_bit 8 w)"

lemma length_store_le [simp, buf_simps]: "length (store_le n w) = n"
  by (induction n arbitrary: w) simp_all

lemma bit_load_le:
  "bit (load_le bs :: 'a :: len word) k \<Longrightarrow> k < 8 * length bs"
proof (induction bs arbitrary: k)
  case (Cons b bs)
  have "bit b k \<Longrightarrow> k < 8" using bit_imp_le_length [of b k] by simp
  with Cons show ?case by (fastforce simp: bit_simps)
qed simp

lemma ucast_load_le: "8 \<le> LENGTH('a) \<Longrightarrow>
   (ucast (ucast b OR push_bit 8 (w :: 'a :: len word) :: 'a word) :: byte) = b"
  by (rule bit_word_eqI) (simp add: bit_simps)

lemma drop_load_le:
  assumes "8 * Suc (length bs) \<le> LENGTH('a)"
  shows "drop_bit 8 (ucast (b :: byte) OR push_bit 8 (load_le bs) :: 'a :: len word) = load_le bs"
proof (rule bit_word_eqI)
  fix k assume "k < LENGTH('a)"
  have "\<not> bit b (8 + k)" using bit_imp_le_length [of b "8 + k"] by auto
  then show "bit (drop_bit 8 (ucast b OR push_bit 8 (load_le bs) :: 'a word)) k = bit (load_le bs :: 'a word) k"
    using assms bit_load_le [of bs k, where 'a = 'a] by (auto simp: bit_simps)
qed

lemma store_load_le:
  "8 * length bs \<le> LENGTH('a) \<Longrightarrow> store_le (length bs) (load_le bs :: 'a :: len word) = bs"
proof (induction bs)
  case (Cons b bs)
  then show ?case by (simp add: ucast_load_le drop_load_le del: drop_bit_or)
qed simp

lemma store_le_xor: "store_le n (v XOR w) = xor_bytes (store_le n v) (store_le n w)"
  by (induction n arbitrary: v w) (simp_all add: drop_bit_xor unsigned_xor_eq)

text \<open>A loop over the machine words of two buffers, \<open>out[n] = in[n] ^ iv[n]\<close> on \<open>size_t\<close>.\<close>

fun xor_words :: "byte list \<Rightarrow> byte list \<Rightarrow> nat \<Rightarrow> byte list" where
  "xor_words xs ys 0 = []"
| "xor_words xs ys (Suc k) =
     store_le 8 (load_le (take 8 xs) XOR load_le (take 8 ys) :: u64)
     @ xor_words (drop 8 xs) (drop 8 ys) k"

lemma xor_words_eq:
  "8 * k \<le> length xs \<Longrightarrow> 8 * k \<le> length ys \<Longrightarrow>
     xor_words xs ys k = xor_bytes (take (8 * k) xs) (take (8 * k) ys)"
proof (induction k arbitrary: xs ys)
  case (Suc k)
  have 8: "store_le 8 (load_le (take 8 zs) :: u64) = take 8 zs" if "8 \<le> length zs" for zs
    using store_load_le [of "take 8 zs", where 'a = 64] that by simp
  have "take (8 * Suc k) zs = take 8 zs @ take (8 * k) (drop 8 zs)" for zs :: "byte list"
    by (simp add: take_add [symmetric] ac_simps)
  with Suc 8 show ?case by (simp add: store_le_xor xor_bytes_append)
qed simp

text \<open>The two machine words of a 16 byte block.\<close>

abbreviation xor_block :: "byte list \<Rightarrow> byte list \<Rightarrow> byte list" where
  "xor_block xs ys \<equiv> xor_words xs ys 2"

lemma xor_block_eq:
  "16 \<le> length xs \<Longrightarrow> 16 \<le> length ys \<Longrightarrow> xor_block xs ys = xor_bytes (take 16 xs) (take 16 ys)"
  using xor_words_eq [of 2 xs ys] by simp

subsection \<open>Big endian words\<close>

definition load_be :: "byte list \<Rightarrow> 'a :: len word" where
  "load_be bs = load_le (rev bs)"

definition store_be :: "nat \<Rightarrow> 'a :: len word \<Rightarrow> byte list" where
  "store_be n w = rev (store_le n w)"

lemma length_store_be [simp, buf_simps]: "length (store_be n w) = n"
  by (simp add: store_be_def)

lemma store_load_be:
  "8 * length bs \<le> LENGTH('a) \<Longrightarrow> store_be (length bs) (load_be bs :: 'a :: len word) = bs"
  using store_load_le [of "rev bs", where 'a = 'a] by (simp add: store_be_def load_be_def)

lemma load_store_le:
  "LENGTH('a) \<le> 8 * n \<Longrightarrow> load_le (store_le n w) = (w :: 'a :: len word)"
proof -
  have "load_le (store_le n w) = take_bit (8 * n) (w :: 'a word)" for n
  proof (induction n arbitrary: w)
    case (Suc n)
    show ?case
    proof (rule bit_word_eqI)
      fix k assume "k < LENGTH('a)"
      then show "bit (load_le (store_le (Suc n) w) :: 'a word) k = bit (take_bit (8 * Suc n) w) k"
        by (cases "k < 8") (auto simp: Suc bit_simps)
    qed
  qed simp
  then show "LENGTH('a) \<le> 8 * n \<Longrightarrow> load_le (store_le n w) = w"
    by (simp add: bit_eq_iff bit_simps)
qed

lemma load_le_xor:
  assumes "length xs = n" and "length ys = n" and "8 * n = LENGTH('a)"
  shows "load_le xs XOR load_le ys = (load_le (xor_bytes xs ys) :: 'a :: len word)"
proof -
  have "store_le n (load_le xs XOR load_le ys :: 'a word) = xor_bytes xs ys"
    using assms store_load_le [of xs, where 'a = 'a] store_load_le [of ys, where 'a = 'a]
    by (simp add: store_le_xor)
  then show ?thesis using load_store_le [of n "load_le xs XOR load_le ys :: 'a word"] assms(3) by simp
qed

lemma load_store_be: "LENGTH('a) \<le> 8 * n \<Longrightarrow> load_be (store_be n w) = (w :: 'a :: len word)"
  by (simp add: load_be_def store_be_def load_store_le)

lemma unat_load_le:
  "8 * length bs \<le> LENGTH('a) \<Longrightarrow>
     unat (load_le bs :: 'a :: len word) = foldr (\<lambda>b v. unat b + 256 * v) bs 0"
proof (induction bs)
  case (Cons b bs)
  let ?w = "load_le bs :: 'a word"
  have l: "8 * length bs + 8 \<le> LENGTH('a)" using Cons.prems by simp
  have w: "unat ?w = foldr (\<lambda>b v. unat b + 256 * v) bs 0" using Cons by simp
  have "take_bit (8 * length bs) ?w = ?w" by (auto simp: bit_eq_iff bit_simps dest: bit_load_le)
  then have "unat ?w < 2 ^ (8 * length bs)"
    by (metis take_bit_nat_less_exp unsigned_take_bit_eq)
  then have s: "256 * unat ?w < 2 ^ LENGTH('a)"
  proof -
    assume "unat ?w < 2 ^ (8 * length bs)"
    then have "256 * unat ?w < 2 ^ (8 * length bs + 8)" by (simp add: power_add)
    also have "\<dots> \<le> 2 ^ LENGTH('a)" using l by (intro power_increasing) simp_all
    finally show ?thesis .
  qed
  have "unat (push_bit 8 ?w) = take_bit LENGTH('a) (push_bit 8 (unat ?w))"
    by (rule unsigned_push_bit_eq)
  also have "\<dots> = 256 * unat ?w"
    using s by (simp add: push_bit_eq_mult take_bit_nat_eq_self mult.commute)
  finally have p: "unat (push_bit 8 ?w) = 256 * unat ?w" .
  have "unat (ucast b OR push_bit 8 ?w) = unat (ucast b :: 'a word) OR 256 * unat ?w"
    by (simp add: unsigned_or_eq p)
  also have "unat (ucast b :: 'a word) = unat b"
  proof -
    have "unat b < 2 ^ LENGTH(8)" by (rule unsigned_less)
    also have "(2 :: nat) ^ LENGTH(8) \<le> 2 ^ LENGTH('a)" using l by (intro power_increasing) simp_all
    finally show ?thesis by (simp add: unsigned_ucast_eq take_bit_nat_eq_self)
  qed
  also have "unat b OR 256 * unat ?w = unat b + 256 * unat ?w"
  proof -
    have "256 * unat ?w = push_bit 8 (unat ?w)" by (simp add: push_bit_eq_mult mult.commute)
    moreover have "unat b OR push_bit 8 (unat ?w) = unat b + push_bit 8 (unat ?w)"
      by (rule disjunctive_add [symmetric]) (auto simp: bit_simps dest: bit_imp_le_length)
    ultimately show ?thesis by (simp only:)
  qed
  finally show ?case by (simp add: w)
qed simp

lemma be_value_load: "8 * length bs \<le> LENGTH('a) \<Longrightarrow> unat (load_be bs :: 'a :: len word) = be_value bs"
  using unat_load_le [of "rev bs", where 'a = 'a]
  by (simp add: load_be_def be_value_def foldr_conv_foldl add.commute)

lemma be_value_store: "LENGTH('a) = 8 * n \<Longrightarrow> be_value (store_be n w) = unat (w :: 'a :: len word)"
  using be_value_load [of "store_be n w", where 'a = 'a] by (simp add: load_store_be)

subsection \<open>Writing into a buffer\<close>

definition write_at :: "byte list \<Rightarrow> nat \<Rightarrow> byte list \<Rightarrow> byte list" where
  "write_at buf i bs = take i buf @ bs @ drop (i + length bs) buf"

lemma length_write_at [simp, buf_simps]:
  "i + length bs \<le> length buf \<Longrightarrow> length (write_at buf i bs) = length buf"
  by (simp add: write_at_def)

lemma write_at_0: "write_at buf 0 bs = bs @ drop (length bs) buf"
  by (simp add: write_at_def)

end
