(* ===== verification/Cbc.thy ===== *)
theory Cbc
  imports Seed
begin

text \<open>
  Cipher block chaining (crypto/modes/cbc128.c) for an arbitrary 128-bit block function,
  and its use by SEED (seed_cbc.c). The block function has its key built in. The paths
  that work on machine words (\<open>xor_block\<close>) and those that work on bytes are separate
  functions, as in the source; in the build modelled unaligned word accesses are allowed.
  The locale \<open>block_cipher\<close> is the contract the modes need from a cipher.
\<close>

subsection \<open>The contract of a block cipher\<close>

locale block_cipher =
  fixes enc dec :: "byte list \<Rightarrow> byte list"
  assumes length_enc: "length b = 16 \<Longrightarrow> length (enc b) = 16"
    and length_dec: "length b = 16 \<Longrightarrow> length (dec b) = 16"
    and dec_enc: "length b = 16 \<Longrightarrow> dec (enc b) = b"
    and enc_dec: "length b = 16 \<Longrightarrow> enc (dec b) = b"

interpretation seed: block_cipher "SEED_encrypt ks" "SEED_decrypt ks" for ks
  by unfold_locales (simp_all add: SEED_decrypt_encrypt SEED_encrypt_decrypt)

subsection \<open>Encryption\<close>

text \<open>\<open>while (len >= 16)\<close>: output, chaining block and what is left of the input.\<close>

function cbc_enc_words ::
  "(byte list \<Rightarrow> byte list) \<Rightarrow> byte list \<Rightarrow> byte list \<Rightarrow> byte list \<times> byte list \<times> byte list" where
  "cbc_enc_words block iv inp =
     (if 16 \<le> length inp
      then let out = block (xor_block inp iv);
               (outs, iv', rest) = cbc_enc_words block out (drop 16 inp)
           in (out @ outs, iv', rest)
      else ([], iv, inp))"
  by pat_completeness auto
termination by (relation "measure (\<lambda>(block, iv, inp). length inp)") auto

text \<open>\<open>while (len)\<close>: a partial block is completed with the bytes of the chaining block.\<close>

function cbc_enc_bytes ::
  "(byte list \<Rightarrow> byte list) \<Rightarrow> byte list \<Rightarrow> byte list \<Rightarrow> byte list \<times> byte list" where
  "cbc_enc_bytes block iv inp =
     (if inp = [] then ([], iv)
      else let out = block (xor_bytes (take 16 inp) iv @ drop (length inp) (take 16 iv))
           in if length inp \<le> 16 then (out, out)
              else let (outs, iv') = cbc_enc_bytes block out (drop 16 inp) in (out @ outs, iv'))"
  by pat_completeness auto
termination by (relation "measure (\<lambda>(block, iv, inp). length inp)") auto

definition CRYPTO_cbc128_encrypt ::
  "(byte list \<Rightarrow> byte list) \<Rightarrow> byte list \<Rightarrow> byte list \<Rightarrow> byte list \<times> byte list" where
  "CRYPTO_cbc128_encrypt block inp ivec =
     (if inp = [] then ([], ivec)
      else let (out, iv, rest) = cbc_enc_words block ivec inp;
               (out', iv') = cbc_enc_bytes block iv rest
           in (out @ out', iv'))"

text \<open>With \<open>OPENSSL_SMALL_FOOTPRINT\<close> only the second loop is compiled.\<close>

definition CRYPTO_cbc128_encrypt_small ::
  "(byte list \<Rightarrow> byte list) \<Rightarrow> byte list \<Rightarrow> byte list \<Rightarrow> byte list \<times> byte list" where
  "CRYPTO_cbc128_encrypt_small block inp ivec =
     (if inp = [] then ([], ivec) else cbc_enc_bytes block ivec inp)"

declare cbc_enc_words.simps [simp del] cbc_enc_bytes.simps [simp del]

subsection \<open>Decryption\<close>

text \<open>
  The input is a buffer of whole blocks and \<open>len\<close> the number of bytes wanted. The first
  function is the loop for \<open>in != out\<close>.
\<close>

function cbc_dec_words ::
  "(byte list \<Rightarrow> byte list) \<Rightarrow> byte list \<Rightarrow> byte list \<Rightarrow> nat
   \<Rightarrow> byte list \<times> byte list \<times> byte list \<times> nat" where
  "cbc_dec_words block iv inp len =
     (if 16 \<le> len
      then let out = xor_block (block (take 16 inp)) iv;
               (outs, iv', rest, len') = cbc_dec_words block (take 16 inp) (drop 16 inp) (len - 16)
           in (out @ outs, iv', rest, len')
      else ([], iv, inp, len))"
  by pat_completeness auto
termination by (relation "measure (\<lambda>(block, iv, inp, len). len)") auto

function cbc_dec_bytes ::
  "(byte list \<Rightarrow> byte list) \<Rightarrow> byte list \<Rightarrow> byte list \<Rightarrow> nat \<Rightarrow> byte list \<times> byte list" where
  "cbc_dec_bytes block iv inp len =
     (if len = 0 then ([], iv)
      else let tmp = block (take 16 inp);
               out = take len (xor_bytes tmp iv)
           in if len \<le> 16 then (out, take 16 inp)
              else let (outs, iv') = cbc_dec_bytes block (take 16 inp) (drop 16 inp) (len - 16)
                   in (out @ outs, iv'))"
  by pat_completeness auto
termination by (relation "measure (\<lambda>(block, iv, inp, len). len)") auto

definition CRYPTO_cbc128_decrypt ::
  "(byte list \<Rightarrow> byte list) \<Rightarrow> byte list \<Rightarrow> nat \<Rightarrow> byte list \<Rightarrow> byte list \<times> byte list" where
  "CRYPTO_cbc128_decrypt block inp len ivec =
     (if len = 0 then ([], ivec)
      else let (out, iv, rest, len') = cbc_dec_words block ivec inp len;
               (out', iv') = cbc_dec_bytes block iv rest len'
           in (out @ out', iv'))"

text \<open>
  The loop for \<open>in == out\<close>, on the one buffer: each word is read before it is overwritten
  at the same place.
\<close>

function cbc_dec_in_place ::
  "(byte list \<Rightarrow> byte list) \<Rightarrow> byte list \<Rightarrow> byte list \<Rightarrow> nat \<Rightarrow> nat
   \<Rightarrow> byte list \<times> byte list \<times> nat \<times> nat" where
  "cbc_dec_in_place block ivec buf pos len =
     (if 16 \<le> len
      then let inp = take 16 (drop pos buf);
               tmp = block inp;
               buf = write_at buf pos (xor_block tmp ivec)
           in cbc_dec_in_place block inp buf (pos + 16) (len - 16)
      else (ivec, buf, pos, len))"
  by pat_completeness auto
termination by (relation "measure (\<lambda>(block, ivec, buf, pos, len). len)") auto

definition CRYPTO_cbc128_decrypt_in_place ::
  "(byte list \<Rightarrow> byte list) \<Rightarrow> byte list \<Rightarrow> nat \<Rightarrow> byte list \<Rightarrow> byte list \<times> byte list" where
  "CRYPTO_cbc128_decrypt_in_place block buf len ivec =
     (if len = 0 then (buf, ivec)
      else let (iv, buf, pos, len') = cbc_dec_in_place block ivec buf 0 len;
               (out, iv') = cbc_dec_bytes block iv (drop pos buf) len'
           in (write_at buf pos out, iv'))"

declare cbc_dec_words.simps [simp del] cbc_dec_bytes.simps [simp del] cbc_dec_in_place.simps [simp del]

definition SEED_cbc_encrypt ::
  "byte list \<Rightarrow> nat \<Rightarrow> u32 list \<Rightarrow> byte list \<Rightarrow> bool \<Rightarrow> byte list \<times> byte list" where
  "SEED_cbc_encrypt inp len ks ivec enc =
     (if enc then CRYPTO_cbc128_encrypt (SEED_encrypt ks) (take len inp) ivec
      else CRYPTO_cbc128_decrypt (SEED_decrypt ks) inp len ivec)"

subsection \<open>Word loops and byte loops\<close>

lemma cbc_enc_bytes_full:
  assumes "16 \<le> length inp" and "length iv = 16"
  shows "cbc_enc_bytes block iv inp =
     (let out = block (xor_block inp iv);
          (outs, iv') = cbc_enc_bytes block out (drop 16 inp)
      in (out @ outs, iv'))"
proof -
  have x: "xor_bytes (take 16 inp) iv @ drop (length inp) (take 16 iv) = xor_block inp iv"
    using assms by (simp add: xor_block_eq)
  have ne: "inp \<noteq> []" using assms(1) by auto
  show ?thesis
  proof (cases "length inp = 16")
    case True
    then have "drop 16 inp = []" by simp
    moreover have "cbc_enc_bytes block out [] = ([], out)" for out
      by (subst cbc_enc_bytes.simps) simp
    ultimately show ?thesis using True ne x
      by (subst cbc_enc_bytes.simps) (simp add: Let_def)
  next
    case False
    then show ?thesis using assms(1) ne x by (subst cbc_enc_bytes.simps) (simp add: Let_def)
  qed
qed

lemma cbc_enc_words_bytes:
  assumes "\<And>b. length b = 16 \<Longrightarrow> length (block b) = 16" and "length iv = 16"
  shows "(case cbc_enc_words block iv inp of (out, iv', rest) \<Rightarrow>
            case cbc_enc_bytes block iv' rest of (out', iv'') \<Rightarrow> (out @ out', iv'')) =
         cbc_enc_bytes block iv inp"
  using assms
proof (induction block iv inp rule: cbc_enc_words.induct)
  case (1 block iv inp)
  show ?case
  proof (cases "16 \<le> length inp")
    case False
    then show ?thesis by (subst cbc_enc_words.simps) (simp split: prod.split)
  next
    case True
    have "length (xor_block inp iv) = 16" using True "1.prems" by (simp add: xor_block_eq)
    with "1.prems" have l: "length (block (xor_block inp iv)) = 16" by blast
    obtain outs iv' rest where w: "cbc_enc_words block (block (xor_block inp iv)) (drop 16 inp) = (outs, iv', rest)"
      by (metis prod_cases3)
    obtain o2 iv2 where b: "cbc_enc_bytes block iv' rest = (o2, iv2)" by force
    from "1.IH" [OF True refl "1.prems"(1) l] w b
    have r: "cbc_enc_bytes block (block (xor_block inp iv)) (drop 16 inp) = (outs @ o2, iv2)" by simp
    show ?thesis unfolding cbc_enc_bytes_full [OF True "1.prems"(2)]
      by (subst cbc_enc_words.simps) (use True in \<open>simp add: Let_def w b r\<close>)
  qed
qed

lemma cbc_dec_bytes_full:
  assumes "16 \<le> len" and "16 \<le> length inp" and "length iv = 16"
    and "\<And>b. length b = 16 \<Longrightarrow> length (block b) = 16"
  shows "cbc_dec_bytes block iv inp len =
     (let out = xor_block (block (take 16 inp)) iv;
          (outs, iv') = cbc_dec_bytes block (take 16 inp) (drop 16 inp) (len - 16)
      in (out @ outs, iv'))"
proof -
  have l: "length (block (take 16 inp)) = 16" using assms(2,4) by simp
  have x: "take len (xor_bytes (block (take 16 inp)) iv) = xor_block (block (take 16 inp)) iv"
    using assms(1,3) l by (simp add: xor_block_eq)
  show ?thesis
  proof (cases "len = 16")
    case True
    moreover have "cbc_dec_bytes block out rest 0 = ([], out)" for out rest
      by (subst cbc_dec_bytes.simps) simp
    ultimately show ?thesis using x by (subst cbc_dec_bytes.simps) (simp add: Let_def)
  next
    case False
    then show ?thesis using assms(1) x by (subst cbc_dec_bytes.simps) (simp add: Let_def)
  qed
qed

lemma cbc_dec_words_bytes:
  assumes "\<And>b. length b = 16 \<Longrightarrow> length (block b) = 16" and "length iv = 16" and "len \<le> length inp"
  shows "(case cbc_dec_words block iv inp len of (out, iv', rest, len') \<Rightarrow>
            case cbc_dec_bytes block iv' rest len' of (out', iv'') \<Rightarrow> (out @ out', iv'')) =
         cbc_dec_bytes block iv inp len"
  using assms
proof (induction block iv inp len rule: cbc_dec_words.induct)
  case (1 block iv inp len)
  show ?case
  proof (cases "16 \<le> len")
    case False
    then show ?thesis by (subst cbc_dec_words.simps) (simp split: prod.split)
  next
    case True
    have l: "length (take 16 inp) = 16" "len - 16 \<le> length (drop 16 inp)" using True "1.prems" by simp_all
    obtain outs iv' rest len' where w: "cbc_dec_words block (take 16 inp) (drop 16 inp) (len - 16) = (outs, iv', rest, len')"
      by (metis prod_cases4)
    obtain o2 iv2 where b: "cbc_dec_bytes block iv' rest len' = (o2, iv2)" by force
    from "1.IH" [OF True refl "1.prems"(1) l] w b
    have r: "cbc_dec_bytes block (take 16 inp) (drop 16 inp) (len - 16) = (outs @ o2, iv2)" by simp
    have "16 \<le> length inp" using True "1.prems"(3) by simp
    from cbc_dec_bytes_full [OF True this "1.prems"(2,1)]
    have f: "cbc_dec_bytes block iv inp len = (xor_block (block (take 16 inp)) iv @ outs @ o2, iv2)"
      by (simp add: Let_def r)
    show ?thesis unfolding f
      by (subst cbc_dec_words.simps) (use True in \<open>simp add: Let_def w b\<close>)
  qed
qed

lemma cbc_encrypt_bytes:
  assumes "\<And>b. length b = 16 \<Longrightarrow> length (block b) = 16" and "length iv = 16"
  shows "CRYPTO_cbc128_encrypt block inp iv = cbc_enc_bytes block iv inp"
proof (cases "inp = []")
  case True
  then show ?thesis by (simp add: CRYPTO_cbc128_encrypt_def cbc_enc_bytes.simps)
next
  case False
  then show ?thesis using cbc_enc_words_bytes [OF assms]
    by (simp add: CRYPTO_cbc128_encrypt_def Let_def)
qed

lemma cbc_decrypt_bytes:
  assumes "\<And>b. length b = 16 \<Longrightarrow> length (block b) = 16" and "length iv = 16" and "len \<le> length inp"
  shows "CRYPTO_cbc128_decrypt block inp len iv = cbc_dec_bytes block iv inp len"
proof (cases "len = 0")
  case True
  then show ?thesis by (simp add: CRYPTO_cbc128_decrypt_def cbc_dec_bytes.simps)
next
  case False
  then show ?thesis using cbc_dec_words_bytes [OF assms]
    by (simp add: CRYPTO_cbc128_decrypt_def Let_def)
qed

text \<open>
  The word-wise and the small-footprint build of CBC encryption agree for every block
  function that returns blocks.
\<close>

lemma cbc_encrypt_small_equal:
  assumes "\<And>b. length b = 16 \<Longrightarrow> length (block b) = 16" and "length iv = 16"
  shows "CRYPTO_cbc128_encrypt block inp iv = CRYPTO_cbc128_encrypt_small block inp iv"
  using cbc_encrypt_bytes [OF assms] by (simp add: CRYPTO_cbc128_encrypt_small_def cbc_enc_bytes.simps)

theorem cbc_encrypt_small_equal_witness:
  "CRYPTO_cbc128_encrypt (SEED_encrypt (SEED_set_key (replicate 16 0))) (replicate 21 7) (replicate 16 1) =
   CRYPTO_cbc128_encrypt_small (SEED_encrypt (SEED_set_key (replicate 16 0))) (replicate 21 7) (replicate 16 1)"
  by (rule cbc_encrypt_small_equal) simp_all

subsection \<open>Round trip\<close>

lemma pad_xor:
  assumes "length x \<le> 16" and "length iv = 16"
  shows "take (length x) (xor_bytes (xor_bytes x iv @ drop (length x) iv) iv) = x"
  using assms by (intro nth_equalityI) (simp_all add: nth_append)

context block_cipher
begin

lemma cbc_enc_short:
  assumes "inp \<noteq> []" and "length inp \<le> 16" and "length iv = 16"
  shows "cbc_enc_bytes enc iv inp =
    (enc (xor_bytes inp iv @ drop (length inp) iv), enc (xor_bytes inp iv @ drop (length inp) iv))"
  using assms by (subst cbc_enc_bytes.simps) (simp add: Let_def)

lemma cbc_enc_long:
  assumes "length inp > 16" and "length iv = 16"
  shows "cbc_enc_bytes enc iv inp =
    (let c = enc (xor_bytes (take 16 inp) iv); (outs, iv') = cbc_enc_bytes enc c (drop 16 inp)
     in (c @ outs, iv'))"
  using assms by (subst cbc_enc_bytes.simps) (auto simp: Let_def)

lemma cbc_enc_length:
  "length iv = 16 \<Longrightarrow> cbc_enc_bytes enc iv inp = (out, iv') \<Longrightarrow>
     length out = (length inp + 15) div 16 * 16 \<and> length iv' = 16"
proof (induction "length inp" arbitrary: inp iv out iv' rule: less_induct)
  case less
  consider "inp = []" | "inp \<noteq> []" "length inp \<le> 16" | "length inp > 16" by fastforce
  then show ?case
  proof cases
    case 1
    with less.prems show ?thesis by (simp add: cbc_enc_bytes.simps)
  next
    case 2
    let ?x = "xor_bytes inp iv @ drop (length inp) iv"
    have "length ?x = 16" using 2 less.prems by simp
    then have "length (enc ?x) = 16" by (rule length_enc)
    moreover have "(length inp + 15) div 16 = 1"
      using 2 by (cases "length inp") (simp_all add: div_nat_eqI)
    ultimately show ?thesis using less.prems(2) cbc_enc_short [OF 2 less.prems(1)] by auto
  next
    case 3
    let ?c = "enc (xor_bytes (take 16 inp) iv)"
    have c: "length ?c = 16" using 3 less.prems by (intro length_enc) simp
    obtain outs iv2 where r: "cbc_enc_bytes enc ?c (drop 16 inp) = (outs, iv2)" by force
    have "length (drop 16 inp) < length inp" using 3 by simp
    from less.hyps [OF this c r] have "length outs = (length inp - 16 + 15) div 16 * 16" "length iv2 = 16"
      by simp_all
    moreover have "(length inp + 15) div 16 = 1 + (length inp - 16 + 15) div 16"
      using 3 div_add_self1 [of 16 "length inp - 16 + 15"] by simp
    ultimately show ?thesis
      using less.prems(2) cbc_enc_long [OF 3 less.prems(1)] r c by (auto simp: Let_def)
  qed
qed

lemma cbc_round_trip:
  "length iv = 16 \<Longrightarrow> cbc_enc_bytes enc iv inp = (out, iv') \<Longrightarrow>
     cbc_dec_bytes dec iv out (length inp) = (inp, iv')"
proof (induction "length inp" arbitrary: inp iv out iv' rule: less_induct)
  case less
  consider "inp = []" | "inp \<noteq> []" "length inp \<le> 16" | "length inp > 16" by fastforce
  then show ?case
  proof cases
    case 1
    with less.prems show ?thesis by (simp add: cbc_enc_bytes.simps cbc_dec_bytes.simps)
  next
    case 2
    let ?x = "xor_bytes inp iv @ drop (length inp) iv"
    have x: "length ?x = 16" using 2 less.prems by simp
    have o: "out = enc ?x" "iv' = enc ?x" using less.prems(2) cbc_enc_short [OF 2 less.prems(1)] by auto
    then have "take 16 out = out" "dec out = ?x" using x length_enc dec_enc by simp_all
    then show ?thesis using 2 less.prems(1) o pad_xor [of inp iv]
      by (subst cbc_dec_bytes.simps) (simp add: Let_def)
  next
    case 3
    let ?x = "xor_bytes (take 16 inp) iv"
    have x: "length ?x = 16" using 3 less.prems by simp
    then have c: "length (enc ?x) = 16" "dec (enc ?x) = ?x" by (simp_all add: length_enc dec_enc)
    obtain outs iv2 where r: "cbc_enc_bytes enc (enc ?x) (drop 16 inp) = (outs, iv2)" by force
    have "length (drop 16 inp) < length inp" using 3 by simp
    from less.hyps [OF this c(1) r]
    have "cbc_dec_bytes dec (enc ?x) outs (length inp - 16) = (drop 16 inp, iv2)" by simp
    moreover have "out = enc ?x @ outs" "iv' = iv2"
      using less.prems(2) cbc_enc_long [OF 3 less.prems(1)] r by (auto simp: Let_def)
    ultimately show ?thesis using 3 c less.prems(1)
      by (subst cbc_dec_bytes.simps) (auto simp: Let_def)
  qed
qed

text \<open>Encrypting a whole number of blocks and then the rest is encrypting everything.\<close>

lemma cbc_streaming:
  "length iv = 16 \<Longrightarrow> length xs mod 16 = 0 \<Longrightarrow>
     cbc_enc_bytes enc iv (xs @ ys) =
       (case cbc_enc_bytes enc iv xs of (o1, iv1) \<Rightarrow>
          case cbc_enc_bytes enc iv1 ys of (o2, iv2) \<Rightarrow> (o1 @ o2, iv2))"
proof (induction "length xs" arbitrary: xs iv rule: less_induct)
  case less
  show ?case
  proof (cases "xs = []")
    case True
    then show ?thesis by (simp add: cbc_enc_bytes.simps [of enc iv "[]"] split: prod.split)
  next
    case False
    with less.prems(2) have 16: "16 \<le> length xs"
      by (metis length_0_conv less_eq_nat.simps(1) linorder_not_less mod_less)
    let ?c = "enc (xor_block xs iv)"
    have "xor_block (xs @ ys) iv = xor_block xs iv" using 16 less.prems(1) by (simp add: xor_block_eq)
    moreover have c: "length ?c = 16" using 16 less.prems(1) by (intro length_enc) (simp add: xor_block_eq)
    moreover have "cbc_enc_bytes enc ?c (drop 16 xs @ ys) =
       (case cbc_enc_bytes enc ?c (drop 16 xs) of (o1, iv1) \<Rightarrow>
          case cbc_enc_bytes enc iv1 ys of (o2, iv2) \<Rightarrow> (o1 @ o2, iv2))"
      using 16 less.prems(2) c by (intro less.hyps) (simp_all add: le_mod_geq)
    ultimately show ?thesis
      using cbc_enc_bytes_full [of "xs @ ys" iv enc] cbc_enc_bytes_full [of xs iv enc] 16 less.prems(1)
      by (simp add: Let_def split: prod.split)
  qed
qed

end

text \<open>
  C26: SEED in CBC mode decrypts what it encrypts, for every length: the decryption of the
  padded ciphertext to the length of the plaintext is the plaintext, and both directions
  leave the same chaining block.
\<close>

lemma SEED_cbc_round_trip:
  assumes "length iv = 16" and "SEED_cbc_encrypt inp (length inp) ks iv True = (out, iv')"
  shows "SEED_cbc_encrypt out (length inp) ks iv False = (inp, iv') \<and>
         length out = (length inp + 15) div 16 * 16"
proof -
  have e: "cbc_enc_bytes (SEED_encrypt ks) iv inp = (out, iv')"
    using assms cbc_encrypt_bytes [of "SEED_encrypt ks" iv inp] by (simp add: SEED_cbc_encrypt_def)
  from seed.cbc_enc_length [OF assms(1) e] have l: "length out = (length inp + 15) div 16 * 16" by simp
  then have "length inp \<le> length out" by presburger
  with cbc_decrypt_bytes [of "SEED_decrypt ks" iv "length inp" out] assms(1)
    seed.cbc_round_trip [OF assms(1) e] l
  show ?thesis by (simp add: SEED_cbc_encrypt_def)
qed

theorem SEED_cbc_round_trip_witness:
  "\<exists>out iv'. SEED_cbc_encrypt (replicate 21 7) 21 (SEED_set_key (replicate 16 0)) (replicate 16 1) True = (out, iv') \<and>
     SEED_cbc_encrypt out 21 (SEED_set_key (replicate 16 0)) (replicate 16 1) False = (replicate 21 7, iv') \<and>
     length out = 32"
proof -
  obtain out iv' where e:
    "SEED_cbc_encrypt (replicate 21 7) 21 (SEED_set_key (replicate 16 0)) (replicate 16 1) True = (out, iv')"
    by force
  with SEED_cbc_round_trip [of "replicate 16 1" "replicate 21 7" "SEED_set_key (replicate 16 0)" out iv']
  show ?thesis by simp
qed

text \<open>
  CBC encryption of a long message may be split at any block boundary: the chaining
  block the first call leaves makes the second one continue.
\<close>

lemma cbc_encrypt_streaming:
  assumes "block_cipher enc dec" and "length iv = 16" and "length xs mod 16 = 0"
  shows "CRYPTO_cbc128_encrypt enc (xs @ ys) iv =
    (case CRYPTO_cbc128_encrypt enc xs iv of (o1, iv1) \<Rightarrow>
       case CRYPTO_cbc128_encrypt enc ys iv1 of (o2, iv2) \<Rightarrow> (o1 @ o2, iv2))"
proof -
  have l: "length b = 16 \<Longrightarrow> length (enc b) = 16" for b
    by (rule block_cipher.length_enc [OF assms(1)])
  obtain o1 iv1 where 1: "cbc_enc_bytes enc iv xs = (o1, iv1)" by force
  from block_cipher.cbc_enc_length [OF assms(1,2) 1] have "length iv1 = 16" by simp
  with block_cipher.cbc_streaming [OF assms, of ys] 1 show ?thesis
    by (simp add: cbc_encrypt_bytes [OF l] assms(2))
qed

theorem cbc_encrypt_streaming_witness:
  "CRYPTO_cbc128_encrypt (SEED_encrypt (SEED_set_key (replicate 16 0))) (replicate 16 3 @ [5]) (replicate 16 1) =
    (case CRYPTO_cbc128_encrypt (SEED_encrypt (SEED_set_key (replicate 16 0))) (replicate 16 3) (replicate 16 1) of
       (o1, iv1) \<Rightarrow> case CRYPTO_cbc128_encrypt (SEED_encrypt (SEED_set_key (replicate 16 0))) [5] iv1 of
         (o2, iv2) \<Rightarrow> (o1 @ o2, iv2))"
  by (rule cbc_encrypt_streaming [OF seed.block_cipher_axioms]) simp_all

subsection \<open>Decrypting in place\<close>

lemma drop_write_at: "pos + length bs \<le> k \<Longrightarrow> k \<le> length buf \<Longrightarrow> drop k (write_at buf pos bs) = drop k buf"
  by (simp add: write_at_def drop_append)

lemma take_write_at:
  "pos + length bs \<le> length buf \<Longrightarrow> take (pos + length bs) (write_at buf pos bs) = take pos buf @ bs"
  by (simp add: write_at_def)

lemma cbc_dec_in_place_words:
  assumes "\<And>b. length b = 16 \<Longrightarrow> length (block b) = 16" and "length iv = 16"
    and "pos + len \<le> length buf"
    and "cbc_dec_words block iv (drop pos buf) len = (out, iv', rest, len')"
  shows "cbc_dec_in_place block iv buf pos len = (iv', write_at buf pos out, pos + length out, len') \<and>
    rest = drop (pos + length out) buf \<and> length out + len' = len"
  using assms
proof (induction block iv buf pos len arbitrary: out rule: cbc_dec_in_place.induct)
  case (1 block iv buf pos len)
  show ?case
  proof (cases "16 \<le> len")
    case False
    with "1.prems"(4) show ?thesis
      by (auto simp: cbc_dec_words.simps cbc_dec_in_place.simps write_at_def)
  next
    case True
    let ?inp = "take 16 (drop pos buf)"
    let ?o = "xor_block (block ?inp) iv"
    let ?buf = "write_at buf pos ?o"
    have i: "length ?inp = 16" using True "1.prems"(3) by simp
    then have ol: "length ?o = 16" using "1.prems"(1,2) by (simp add: xor_block_eq)
    then have bl: "length ?buf = length buf" using True "1.prems"(3) by simp
    have d: "drop (pos + 16) ?buf = drop (pos + 16) buf"
      using ol True "1.prems"(3) by (intro drop_write_at) simp_all
    obtain outs where w: "cbc_dec_words block ?inp (drop (pos + 16) buf) (len - 16) = (outs, iv', rest, len')"
      and out: "out = ?o @ outs"
      using "1.prems"(4) True
      by (subst (asm) cbc_dec_words.simps) (auto simp: Let_def ac_simps split: prod.splits)
    have "pos + 16 + (len - 16) \<le> length ?buf" using True "1.prems"(3) bl by simp
    from "1.IH" [OF True refl refl refl "1.prems"(1) i this, of outs] w d
    have ih: "cbc_dec_in_place block ?inp ?buf (pos + 16) (len - 16) =
        (iv', write_at ?buf (pos + 16) outs, pos + 16 + length outs, len')"
      "rest = drop (pos + 16 + length outs) ?buf" "length outs + len' = len - 16" by auto
    have "write_at ?buf (pos + 16) outs = write_at buf pos out"
    proof -
      have "take (pos + 16) ?buf = take pos buf @ ?o"
        using take_write_at [of pos ?o buf] ol True "1.prems"(3) by simp
      moreover have "drop (pos + 16 + length outs) ?buf = drop (pos + length out) buf"
        using ol ih(3) True "1.prems"(3) by (subst drop_write_at) (simp_all add: out add.assoc)
      ultimately show ?thesis by (simp add: write_at_def out)
    qed
    moreover have "rest = drop (pos + length out) buf"
      using ih(2,3) ol True "1.prems"(3) drop_write_at [of pos ?o "pos + 16 + length outs" buf]
      by (simp add: out add.assoc)
    ultimately show ?thesis using ih True ol out
      by (subst cbc_dec_in_place.simps) (simp add: Let_def)
  qed
qed

text \<open>
  Decrypting in place gives the bytes of the decryption into another buffer and leaves
  the bytes behind the length alone.
\<close>

lemma cbc_decrypt_in_place:
  assumes "\<And>b. length b = 16 \<Longrightarrow> length (block b) = 16" and "length iv = 16" and "len \<le> length buf"
    and "CRYPTO_cbc128_decrypt block buf len iv = (out, iv')"
  shows "CRYPTO_cbc128_decrypt_in_place block buf len iv = (out @ drop (length out) buf, iv')"
proof (cases "len = 0")
  case True
  with assms(4) show ?thesis by (simp add: CRYPTO_cbc128_decrypt_def CRYPTO_cbc128_decrypt_in_place_def)
next
  case False
  obtain o1 iv1 rest len1 where w: "cbc_dec_words block iv buf len = (o1, iv1, rest, len1)"
    by (metis prod_cases4)
  obtain o2 iv2 where b: "cbc_dec_bytes block iv1 rest len1 = (o2, iv2)" by force
  from cbc_dec_in_place_words [OF assms(1,2), where pos = 0 and len = len and buf = buf and out = o1 and iv' = iv1 and rest = rest and len' = len1] assms(3) w
  have p: "cbc_dec_in_place block iv buf 0 len = (iv1, write_at buf 0 o1, length o1, len1)"
    "rest = drop (length o1) buf" "length o1 + len1 = len" by simp_all
  have d: "drop (length o1) (write_at buf 0 o1) = rest"
    using p(2,3) assms(3) by (subst drop_write_at) simp_all
  have "out = o1 @ o2" "iv' = iv2" using assms(4) False w b
    by (simp_all add: CRYPTO_cbc128_decrypt_def)
  moreover have "write_at (write_at buf 0 o1) (length o1) o2 = (o1 @ o2) @ drop (length o1 + length o2) buf"
    by (simp add: write_at_def add.commute)
  ultimately show ?thesis using False p(1) d b
    by (simp add: CRYPTO_cbc128_decrypt_in_place_def)
qed

theorem cbc_decrypt_in_place_witness:
  "\<exists>out iv'. CRYPTO_cbc128_decrypt (SEED_decrypt (SEED_set_key (replicate 16 0))) (replicate 40 9) 20 (replicate 16 1) = (out, iv') \<and>
     CRYPTO_cbc128_decrypt_in_place (SEED_decrypt (SEED_set_key (replicate 16 0))) (replicate 40 9) 20 (replicate 16 1) =
       (out @ drop (length out) (replicate 40 9), iv')"
proof -
  obtain out iv' where e:
    "CRYPTO_cbc128_decrypt (SEED_decrypt (SEED_set_key (replicate 16 0))) (replicate 40 9) 20 (replicate 16 1) = (out, iv')"
    by force
  have "CRYPTO_cbc128_decrypt_in_place (SEED_decrypt (SEED_set_key (replicate 16 0))) (replicate 40 9) 20 (replicate 16 1) =
       (out @ drop (length out) (replicate 40 9), iv')"
    by (rule cbc_decrypt_in_place [OF _ _ _ e]) simp_all
  with e show ?thesis by blast
qed

end
