(* ===== verification/Stream_Modes.thy ===== *)
theory Stream_Modes
  imports Cbc
begin

text \<open>
  The modes that turn a block cipher into a stream cipher: CFB, OFB and CTR
  (crypto/modes/cfb128.c, ofb128.c, ctr128.c) and their use by SEED. The three C functions
  have the same four loops, which differ in three places: how a new key stream block is
  made (\<open>refill\<close>), what happens to one byte (\<open>step\<close>) and to one block of machine words
  (\<open>words\<close>). The loops are written once, and each mode supplies its three parts. \<open>*num\<close>
  is the position in the key stream block.
\<close>

subsection \<open>The loops\<close>

text \<open>\<open>while (l < len)\<close>, the only loop of the small-footprint build.\<close>

fun stream_bytes ::
  "('s \<Rightarrow> 's) \<Rightarrow> ('s \<Rightarrow> nat \<Rightarrow> byte \<Rightarrow> byte \<times> 's) \<Rightarrow> 's \<Rightarrow> nat \<Rightarrow> byte list \<Rightarrow> byte list \<times> 's \<times> nat"
where
  "stream_bytes refill step s n [] = ([], s, n)"
| "stream_bytes refill step s n (c # cs) =
     (let s = (if n = 0 then refill s else s);
          (out, s) = step s n c;
          (outs, s, n) = stream_bytes refill step s ((n + 1) mod 16) cs
      in (out # outs, s, n))"

text \<open>\<open>while (n && len)\<close>: the rest of the current key stream block.\<close>

fun stream_head ::
  "('s \<Rightarrow> nat \<Rightarrow> byte \<Rightarrow> byte \<times> 's) \<Rightarrow> 's \<Rightarrow> nat \<Rightarrow> byte list \<Rightarrow> byte list \<times> 's \<times> nat \<times> byte list"
where
  "stream_head step s n [] = ([], s, n, [])"
| "stream_head step s n (c # cs) =
     (if n = 0 then ([], s, n, c # cs)
      else let (out, s) = step s n c;
               (outs, s, n, rest) = stream_head step s ((n + 1) mod 16) cs
           in (out # outs, s, n, rest))"

text \<open>\<open>while (len >= 16)\<close>: whole blocks.\<close>

function stream_words ::
  "('s \<Rightarrow> 's) \<Rightarrow> ('s \<Rightarrow> byte list \<Rightarrow> byte list \<times> 's) \<Rightarrow> 's \<Rightarrow> byte list \<Rightarrow> byte list \<times> 's \<times> byte list"
where
  "stream_words refill words s inp =
     (if 16 \<le> length inp
      then let s = refill s;
               (out, s) = words s (take 16 inp);
               (outs, s, rest) = stream_words refill words s (drop 16 inp)
           in (out @ outs, s, rest)
      else ([], s, inp))"
  by pat_completeness auto
termination by (relation "measure (\<lambda>(refill, words, s, inp). length inp)") auto

declare stream_words.simps [simp del]

text \<open>\<open>while (len--)\<close>: a last partial block.\<close>

fun stream_tail ::
  "('s \<Rightarrow> nat \<Rightarrow> byte \<Rightarrow> byte \<times> 's) \<Rightarrow> 's \<Rightarrow> nat \<Rightarrow> byte list \<Rightarrow> byte list \<times> 's \<times> nat"
where
  "stream_tail step s n [] = ([], s, n)"
| "stream_tail step s n (c # cs) =
     (let (out, s) = step s n c;
          (outs, s, n) = stream_tail step s (n + 1) cs
      in (out # outs, s, n))"

definition stream_fast ::
  "('s \<Rightarrow> 's) \<Rightarrow> ('s \<Rightarrow> nat \<Rightarrow> byte \<Rightarrow> byte \<times> 's) \<Rightarrow> ('s \<Rightarrow> byte list \<Rightarrow> byte list \<times> 's)
   \<Rightarrow> 's \<Rightarrow> nat \<Rightarrow> byte list \<Rightarrow> byte list \<times> 's \<times> nat" where
  "stream_fast refill step words s n inp =
     (let (o1, s, n, inp) = stream_head step s n inp;
          (o2, s, inp) = stream_words refill words s inp
      in if inp = [] then (o1 @ o2, s, n)
         else let s = refill s;
                  (o3, s, n) = stream_tail step s n inp
              in (o1 @ o2 @ o3, s, n))"

subsection \<open>Cipher feedback\<close>

text \<open>The state is \<open>ivec\<close>; the byte fed back is the ciphertext byte.\<close>

definition cfb_refill :: "(byte list \<Rightarrow> byte list) \<Rightarrow> byte list \<Rightarrow> byte list" where
  "cfb_refill block ivec = block ivec"

definition cfb_step :: "bool \<Rightarrow> byte list \<Rightarrow> nat \<Rightarrow> byte \<Rightarrow> byte \<times> byte list" where
  "cfb_step enc ivec n c =
     (let out = ivec ! n XOR c in (out, ivec[n := (if enc then out else c)]))"

definition cfb_words :: "bool \<Rightarrow> byte list \<Rightarrow> byte list \<Rightarrow> byte list \<times> byte list" where
  "cfb_words enc ivec inp = (let out = xor_block ivec inp in (out, if enc then out else inp))"

definition CRYPTO_cfb128_encrypt ::
  "(byte list \<Rightarrow> byte list) \<Rightarrow> byte list \<Rightarrow> byte list \<Rightarrow> nat \<Rightarrow> bool \<Rightarrow> byte list \<times> byte list \<times> nat" where
  "CRYPTO_cfb128_encrypt block inp ivec num enc =
     stream_fast (cfb_refill block) (cfb_step enc) (cfb_words enc) ivec num inp"

definition CRYPTO_cfb128_encrypt_small ::
  "(byte list \<Rightarrow> byte list) \<Rightarrow> byte list \<Rightarrow> byte list \<Rightarrow> nat \<Rightarrow> bool \<Rightarrow> byte list \<times> byte list \<times> nat" where
  "CRYPTO_cfb128_encrypt_small block inp ivec num enc =
     stream_bytes (cfb_refill block) (cfb_step enc) ivec num inp"

definition SEED_cfb128_encrypt ::
  "byte list \<Rightarrow> u32 list \<Rightarrow> byte list \<Rightarrow> nat \<Rightarrow> bool \<Rightarrow> byte list \<times> byte list \<times> nat" where
  "SEED_cfb128_encrypt inp ks ivec num enc = CRYPTO_cfb128_encrypt (SEED_encrypt ks) inp ivec num enc"

subsection \<open>Output feedback\<close>

definition ofb_step :: "byte list \<Rightarrow> nat \<Rightarrow> byte \<Rightarrow> byte \<times> byte list" where
  "ofb_step ivec n c = (c XOR ivec ! n, ivec)"

definition ofb_words :: "byte list \<Rightarrow> byte list \<Rightarrow> byte list \<times> byte list" where
  "ofb_words ivec inp = (xor_block inp ivec, ivec)"

definition CRYPTO_ofb128_encrypt ::
  "(byte list \<Rightarrow> byte list) \<Rightarrow> byte list \<Rightarrow> byte list \<Rightarrow> nat \<Rightarrow> byte list \<times> byte list \<times> nat" where
  "CRYPTO_ofb128_encrypt block inp ivec num = stream_fast block ofb_step ofb_words ivec num inp"

definition CRYPTO_ofb128_encrypt_small ::
  "(byte list \<Rightarrow> byte list) \<Rightarrow> byte list \<Rightarrow> byte list \<Rightarrow> nat \<Rightarrow> byte list \<times> byte list \<times> nat" where
  "CRYPTO_ofb128_encrypt_small block inp ivec num = stream_bytes block ofb_step ivec num inp"

definition SEED_ofb128_encrypt ::
  "byte list \<Rightarrow> u32 list \<Rightarrow> byte list \<Rightarrow> nat \<Rightarrow> byte list \<times> byte list \<times> nat" where
  "SEED_ofb128_encrypt inp ks ivec num = CRYPTO_ofb128_encrypt (SEED_encrypt ks) inp ivec num"

subsection \<open>Counter mode\<close>

text \<open>
  \<open>ctr128_inc\<close> and \<open>ctr96_inc\<close>: the carry runs through all bytes. \<open>ctr128_inc_aligned\<close>
  is \<open>ctr128_inc\<close> on a little endian machine and works on the two 64-bit words of the
  counter on a big endian one.
\<close>

fun ctr_inc_loop :: "nat \<Rightarrow> u32 \<Rightarrow> byte list \<Rightarrow> byte list" where
  "ctr_inc_loop 0 c counter = counter"
| "ctr_inc_loop (Suc n) c counter =
     (let c = c + ucast (counter ! n) in ctr_inc_loop n (drop_bit 8 c) (counter[n := ucast c]))"

definition ctr128_inc :: "byte list \<Rightarrow> byte list" where
  "ctr128_inc counter = ctr_inc_loop 16 1 counter"

definition ctr_inc_word :: "u64 \<Rightarrow> u64 \<Rightarrow> u64 \<times> u64" where
  "ctr_inc_word data c = (let d = data + c in (d, drop_bit 63 ((d - c) AND NOT d)))"

definition ctr128_inc_aligned :: "bool \<Rightarrow> byte list \<Rightarrow> byte list" where
  "ctr128_inc_aligned little counter =
     (if little then ctr128_inc counter
      else let (data1, c) = ctr_inc_word (load_be (drop 8 counter)) 1;
               (data0, c) = ctr_inc_word (load_be (take 8 counter)) c
           in store_be 8 data0 @ store_be 8 data1)"

definition ctr96_inc :: "byte list \<Rightarrow> byte list" where
  "ctr96_inc counter = ctr_inc_loop 12 1 counter"

text \<open>The state is the counter block and \<open>ecount_buf\<close>.\<close>

definition ctr_refill ::
  "bool \<Rightarrow> (byte list \<Rightarrow> byte list) \<Rightarrow> byte list \<times> byte list \<Rightarrow> byte list \<times> byte list" where
  "ctr_refill little block = (\<lambda>(ivec, ecount_buf). (ctr128_inc_aligned little ivec, block ivec))"

definition ctr_step ::
  "byte list \<times> byte list \<Rightarrow> nat \<Rightarrow> byte \<Rightarrow> byte \<times> byte list \<times> byte list" where
  "ctr_step s n c = (c XOR snd s ! n, s)"

definition ctr_words ::
  "byte list \<times> byte list \<Rightarrow> byte list \<Rightarrow> byte list \<times> byte list \<times> byte list" where
  "ctr_words s inp = (xor_block inp (snd s), s)"

definition CRYPTO_ctr128_encrypt ::
  "bool \<Rightarrow> (byte list \<Rightarrow> byte list) \<Rightarrow> byte list \<Rightarrow> byte list \<Rightarrow> byte list \<Rightarrow> nat
   \<Rightarrow> byte list \<times> (byte list \<times> byte list) \<times> nat" where
  "CRYPTO_ctr128_encrypt little block inp ivec ecount_buf num =
     stream_fast (ctr_refill little block) ctr_step ctr_words (ivec, ecount_buf) num inp"

text \<open>The small-footprint build calls \<open>ctr128_inc\<close>.\<close>

definition ctr_refill_small ::
  "(byte list \<Rightarrow> byte list) \<Rightarrow> byte list \<times> byte list \<Rightarrow> byte list \<times> byte list" where
  "ctr_refill_small block = (\<lambda>(ivec, ecount_buf). (ctr128_inc ivec, block ivec))"

definition CRYPTO_ctr128_encrypt_small ::
  "(byte list \<Rightarrow> byte list) \<Rightarrow> byte list \<Rightarrow> byte list \<Rightarrow> byte list \<Rightarrow> nat
   \<Rightarrow> byte list \<times> (byte list \<times> byte list) \<times> nat" where
  "CRYPTO_ctr128_encrypt_small block inp ivec ecount_buf num =
     stream_bytes (ctr_refill_small block) ctr_step (ivec, ecount_buf) num inp"

subsection \<open>The fast loops against the byte loop\<close>

text \<open>
  The contract of a mode: the step of a block is sixteen byte steps, on states that are
  well formed.
\<close>

locale stream_mode =
  fixes refill :: "'s \<Rightarrow> 's"
    and step :: "'s \<Rightarrow> nat \<Rightarrow> byte \<Rightarrow> byte \<times> 's"
    and words :: "'s \<Rightarrow> byte list \<Rightarrow> byte list \<times> 's"
    and ok :: "'s \<Rightarrow> bool"
  assumes ok_refill: "ok s \<Longrightarrow> ok (refill s)"
    and ok_step: "ok s \<Longrightarrow> n < 16 \<Longrightarrow> ok (snd (step s n c))"
    and words_tail: "ok s \<Longrightarrow> length inp = 16 \<Longrightarrow>
      stream_tail step s 0 inp = (case words s inp of (out, s') \<Rightarrow> (out, s', 16))"
begin

lemma head_bytes:
  "ok s \<Longrightarrow> n < 16 \<Longrightarrow> stream_head step s n inp = (o1, s1, n1, rest) \<Longrightarrow>
     ok s1 \<and> n1 < 16 \<and> (rest = [] \<or> n1 = 0) \<and>
     (stream_bytes refill step s1 n1 rest = (o2, s2, n2) \<longrightarrow>
        stream_bytes refill step s n inp = (o1 @ o2, s2, n2))"
proof (induction inp arbitrary: s n o1)
  case (Cons c cs)
  show ?case
  proof (cases "n = 0")
    case True
    with Cons.prems show ?thesis by auto
  next
    case False
    obtain out t where st: "step s n c = (out, t)" by force
    with ok_step [OF Cons.prems(1,2), of c] have "ok t" by simp
    from Cons.prems(3) False st obtain outs
      where h: "stream_head step t ((n + 1) mod 16) cs = (outs, s1, n1, rest)" and o1: "o1 = out # outs"
      by (auto simp: Let_def split: prod.splits)
    have "(n + 1) mod 16 < 16" by simp
    from Cons.IH [OF \<open>ok t\<close> this h] False st o1 show ?thesis by (auto simp: Let_def)
  qed
qed simp

lemma tail_bytes:
  "0 < n \<Longrightarrow> n + length inp \<le> 16 \<Longrightarrow> n < 16 \<Longrightarrow> stream_tail step s n inp = (out, s', n') \<Longrightarrow>
     stream_bytes refill step s n inp = (out, s', n' mod 16) \<and> n' = n + length inp"
proof (induction inp arbitrary: s n out)
  case (Cons c cs)
  obtain o1 t where st: "step s n c = (o1, t)" by force
  from Cons.prems(4) st obtain outs
    where h: "stream_tail step t (n + 1) cs = (outs, s', n')" and out: "out = o1 # outs"
    by (auto simp: Let_def split: prod.splits)
  show ?case
  proof (cases "n + 1 < 16")
    case True
    with Cons.IH [OF _ _ True h] Cons.prems st out show ?thesis by (simp add: Let_def)
  next
    case False
    have "length cs \<le> 0" using Cons.prems(2,3) False unfolding list.size by linarith
    then have "cs = []" "n + 1 = 16" using Cons.prems(3) False by simp_all
    with h out st Cons.prems(1) show ?thesis by (auto simp: Let_def)
  qed
qed simp

lemma tail_bytes_start:
  assumes "inp \<noteq> []" and "length inp \<le> 16" and "stream_tail step (refill s) 0 inp = (out, s', n')"
  shows "stream_bytes refill step s 0 inp = (out, s', n' mod 16) \<and> n' = length inp"
proof -
  obtain c cs where inp: "inp = c # cs" using assms(1) by (cases inp) auto
  obtain o1 t where st: "step (refill s) 0 c = (o1, t)" by force
  from assms(3) inp st obtain outs
    where h: "stream_tail step t 1 cs = (outs, s', n')" and out: "out = o1 # outs"
    by (auto simp: Let_def split: prod.splits)
  have "1 + length cs \<le> 16" using assms(2) inp by simp
  from tail_bytes [OF _ this _ h] inp st out show ?thesis by (simp add: Let_def)
qed

lemma bytes_append:
  "stream_bytes refill step s n (xs @ ys) =
     (case stream_bytes refill step s n xs of (o1, s1, n1) \<Rightarrow>
        case stream_bytes refill step s1 n1 ys of (o2, s2, n2) \<Rightarrow> (o1 @ o2, s2, n2))"
  by (induction xs arbitrary: s n) (auto simp: Let_def split: prod.splits)

lemma bytes_ok:
  "ok s \<Longrightarrow> n < 16 \<Longrightarrow> stream_bytes refill step s n inp = (out, s', n') \<Longrightarrow> ok s' \<and> n' < 16"
proof (induction inp arbitrary: s n out)
  case (Cons c cs)
  let ?s = "if n = 0 then refill s else s"
  have "ok ?s" using Cons.prems(1) ok_refill by simp
  obtain o1 t where st: "step ?s n c = (o1, t)" by force
  with ok_step [OF \<open>ok ?s\<close> Cons.prems(2), of c] have "ok t" by simp
  from Cons.prems(3) st obtain outs
    where h: "stream_bytes refill step t ((n + 1) mod 16) cs = (outs, s', n')"
    by (auto simp: Let_def split: prod.splits)
  have "(n + 1) mod 16 < 16" by simp
  from Cons.IH [OF \<open>ok t\<close> this h] show ?case .
qed simp

lemma words_bytes:
  "ok s \<Longrightarrow> stream_words refill words s inp = (o1, s1, rest) \<Longrightarrow>
     ok s1 \<and> length rest < 16 \<and>
     (stream_bytes refill step s1 0 rest = (o2, s2, n2) \<longrightarrow>
        stream_bytes refill step s 0 inp = (o1 @ o2, s2, n2))"
proof (induction "length inp" arbitrary: inp s o1 rule: less_induct)
  case less
  show ?case
  proof (cases "16 \<le> length inp")
    case False
    with less.prems show ?thesis by (auto simp: stream_words.simps [of refill words s inp])
  next
    case True
    let ?b = "take 16 inp"
    have b: "length ?b = 16" "?b \<noteq> []" using True by auto
    have okr: "ok (refill s)" using less.prems(1) by (rule ok_refill)
    obtain out t where w: "words (refill s) ?b = (out, t)" by force
    from words_tail [OF okr b(1)] w have t: "stream_tail step (refill s) 0 ?b = (out, t, 16)" by simp
    from tail_bytes_start [OF b(2) _ t] b have sb: "stream_bytes refill step s 0 ?b = (out, t, 0)" by simp
    have "ok t'" if "stream_tail step u n xs = (v, t', k)" "ok u" "n + length xs \<le> 16" for u n xs v t' k
      using that
    proof (induction xs arbitrary: u n v)
      case (Cons x xs)
      obtain o1 u1 where "step u n x = (o1, u1)" by force
      with Cons ok_step [of u n x] show ?case by (fastforce simp: Let_def split: prod.splits)
    qed simp
    from this [OF t okr] b have okt: "ok t" by simp
    from less.prems(2) True w obtain outs
      where r: "stream_words refill words t (drop 16 inp) = (outs, s1, rest)" and o1: "o1 = out @ outs"
      by (subst (asm) stream_words.simps) (auto simp: Let_def split: prod.splits)
    have "length (drop 16 inp) < length inp" using True by simp
    from less.hyps [OF this okt r] o1 sb bytes_append [of s 0 ?b "drop 16 inp"]
    show ?thesis by auto
  qed
qed

theorem fast_eq:
  assumes "ok s" and "n < 16"
  shows "stream_fast refill step words s n inp = stream_bytes refill step s n inp"
proof -
  obtain o1 s1 n1 r1 where h: "stream_head step s n inp = (o1, s1, n1, r1)" by (metis prod_cases4)
  obtain o2 s2 r2 where w: "stream_words refill words s1 r1 = (o2, s2, r2)" by (metis prod_cases3)
  from head_bytes [OF assms h] have s1: "ok s1" "n1 < 16" "r1 = [] \<or> n1 = 0" by auto
  show ?thesis
  proof (cases "r1 = []")
    case True
    with w have "o2 = []" "s2 = s1" "r2 = []" by (auto simp: stream_words.simps)
    with True h w head_bytes [OF assms h, of "[]" s1 n1] show ?thesis
      by (simp add: stream_fast_def)
  next
    case False
    with s1 have n1: "n1 = 0" by simp
    from words_bytes [OF s1(1) w] have s2: "ok s2" "length r2 < 16" by auto
    show ?thesis
    proof (cases "r2 = []")
      case True
      with words_bytes [OF s1(1) w, of "[]" s2 0] head_bytes [OF assms h, of o2 s2 0] h w n1
      show ?thesis by (simp add: stream_fast_def)
    next
      case r2: False
      obtain o3 s3 n3 where t: "stream_tail step (refill s2) 0 r2 = (o3, s3, n3)" by (metis prod_cases3)
      from tail_bytes_start [OF r2 _ t] s2(2)
      have "stream_bytes refill step s2 0 r2 = (o3, s3, n3)" by simp
      with words_bytes [OF s1(1) w, of o3 s3 n3] head_bytes [OF assms h, of "o2 @ o3" s3 n3] h w n1 t r2
      show ?thesis by (simp add: stream_fast_def)
    qed
  qed
qed

end

text \<open>A mode and the one that undoes it, byte by byte.\<close>

lemma stream_bytes_inverse:
  assumes "\<And>s n c. n < 16 \<Longrightarrow> step' s n (fst (step s n c)) = (c, snd (step s n c))"
  shows "n < 16 \<Longrightarrow> stream_bytes refill step s n inp = (out, s', n') \<Longrightarrow>
    stream_bytes refill step' s n out = (inp, s', n') \<and> length out = length inp"
proof (induction inp arbitrary: s n out)
  case (Cons c cs)
  let ?s = "if n = 0 then refill s else s"
  obtain o1 t where st: "step ?s n c = (o1, t)" by force
  from Cons.prems(2) st obtain outs
    where h: "stream_bytes refill step t ((n + 1) mod 16) cs = (outs, s', n')" and out: "out = o1 # outs"
    by (auto simp: Let_def split: prod.splits)
  have "(n + 1) mod 16 < 16" by simp
  from Cons.IH [OF this h] assms [OF Cons.prems(1), of ?s c] st out show ?case by (simp add: Let_def)
qed simp

subsection \<open>The three modes\<close>

text \<open>A loop of byte steps on a key stream that does not change.\<close>

lemma tail_xor:
  assumes "\<And>s n c. step s n c = (c XOR ks s ! n, s)"
  shows "n + length inp \<le> length (ks s) \<Longrightarrow>
    stream_tail step s n inp = (xor_bytes inp (drop n (ks s)), s, n + length inp)"
proof (induction inp arbitrary: n)
  case (Cons c cs)
  then have "drop n (ks s) = ks s ! n # drop (Suc n) (ks s)" by (simp add: Cons_nth_drop_Suc)
  with Cons show ?case by (simp add: assms Let_def)
qed simp

lemma ofb_mode:
  assumes "\<And>b. length b = 16 \<Longrightarrow> length (block b) = 16"
  shows "stream_mode block ofb_step ofb_words (\<lambda>iv. length iv = 16)"
proof
  fix s inp :: "byte list" assume "length s = 16" "length inp = 16"
  then show "stream_tail ofb_step s 0 inp = (case ofb_words s inp of (out, s') \<Rightarrow> (out, s', 16))"
    using tail_xor [of ofb_step "\<lambda>s. s" 0 inp s]
    by (simp add: ofb_step_def ofb_words_def xor_block_eq)
qed (simp_all add: assms ofb_step_def)

lemma length_ctr_inc_loop [simp]: "length (ctr_inc_loop n c counter) = length counter"
  by (induction n arbitrary: c counter) (simp_all add: Let_def)

lemma ctr_mode:
  assumes "\<And>b. length b = 16 \<Longrightarrow> length (block b) = 16"
  shows "stream_mode (ctr_refill little block) ctr_step ctr_words (\<lambda>(iv, ec). length iv = 16 \<and> length ec = 16)"
proof
  fix s :: "byte list \<times> byte list" and inp :: "byte list"
  assume "case s of (iv, ec) \<Rightarrow> length iv = 16 \<and> length ec = 16" "length inp = 16"
  then show "stream_tail ctr_step s 0 inp = (case ctr_words s inp of (out, s') \<Rightarrow> (out, s', 16))"
    using tail_xor [of ctr_step snd 0 inp s]
    by (cases s) (simp add: ctr_step_def ctr_words_def xor_block_eq)
qed (auto simp: assms ctr_step_def ctr_refill_def ctr128_inc_aligned_def ctr128_inc_def split: prod.split)

lemma cfb_tail:
  "n + length inp \<le> length iv \<Longrightarrow>
     stream_tail (cfb_step enc) iv n inp =
       (let out = xor_bytes (drop n iv) inp
        in (out, write_at iv n (if enc then out else inp), n + length inp))"
proof (induction inp arbitrary: n iv)
  case Nil
  then show ?case by (simp add: write_at_def)
next
  case (Cons c cs)
  let ?b = "if enc then iv ! n XOR c else c"
  have d: "drop n iv = iv ! n # drop (Suc n) iv" using Cons.prems by (simp add: Cons_nth_drop_Suc)
  have ih: "stream_tail (cfb_step enc) (iv[n := ?b]) (Suc n) cs =
       (let out = xor_bytes (drop (Suc n) iv) cs
        in (out, write_at (iv[n := ?b]) (Suc n) (if enc then out else cs), Suc n + length cs))"
    using Cons.IH [of "Suc n" "iv[n := ?b]"] Cons.prems by simp
  have "write_at (iv[n := b]) (Suc n) bs = write_at iv n (b # bs)" for b bs
    using Cons.prems by (simp add: write_at_def take_Suc_conv_app_nth take_update_swap list_update_append)
  then show ?case using ih by (simp add: cfb_step_def [of enc iv n c] Let_def d)
qed

lemma cfb_mode:
  assumes "\<And>b. length b = 16 \<Longrightarrow> length (block b) = 16"
  shows "stream_mode (cfb_refill block) (cfb_step enc) (cfb_words enc) (\<lambda>iv. length iv = 16)"
proof
  fix s inp :: "byte list" assume "length s = 16" "length inp = 16"
  then show "stream_tail (cfb_step enc) s 0 inp = (case cfb_words enc s inp of (out, s') \<Rightarrow> (out, s', 16))"
    using cfb_tail [of 0 inp s enc] by (simp add: cfb_words_def xor_block_eq write_at_def Let_def)
qed (simp_all add: assms cfb_step_def cfb_refill_def Let_def)

interpretation seed_ofb: stream_mode "SEED_encrypt ks" ofb_step ofb_words "\<lambda>iv. length iv = 16" for ks
  by (rule ofb_mode) simp

interpretation seed_cfb: stream_mode "cfb_refill (SEED_encrypt ks)" "cfb_step enc" "cfb_words enc"
    "\<lambda>iv. length iv = 16" for ks enc
  by (rule cfb_mode) simp

interpretation seed_ctr: stream_mode "ctr_refill little (SEED_encrypt ks)" ctr_step ctr_words
    "\<lambda>(iv, ec). length iv = 16 \<and> length ec = 16" for little ks
  by (rule ctr_mode) simp

text \<open>
  C32: SEED in CFB mode decrypts what it encrypts, from any position, with the same final
  state on both sides.
\<close>

lemma SEED_cfb_round_trip:
  assumes "length iv = 16" and "num < 16"
    and "SEED_cfb128_encrypt inp ks iv num True = (out, iv', num')"
  shows "SEED_cfb128_encrypt out ks iv num False = (inp, iv', num') \<and> length out = length inp"
proof -
  have "cfb_step False s n (fst (cfb_step True s n c)) = (c, snd (cfb_step True s n c))" for s n c
    by (simp add: cfb_step_def Let_def)
  from stream_bytes_inverse [of "cfb_step False" "cfb_step True", OF this assms(2)]
  show ?thesis using assms(3) seed_cfb.fast_eq [OF assms(1,2)]
    by (simp add: SEED_cfb128_encrypt_def CRYPTO_cfb128_encrypt_def)
qed

theorem SEED_cfb_round_trip_witness:
  "\<exists>out iv' num'. SEED_cfb128_encrypt (replicate 40 7) (SEED_set_key (replicate 16 0)) (replicate 16 1) 5 True = (out, iv', num') \<and>
     SEED_cfb128_encrypt out (SEED_set_key (replicate 16 0)) (replicate 16 1) 5 False = (replicate 40 7, iv', num') \<and>
     length out = 40"
proof -
  obtain out iv' num' where e:
    "SEED_cfb128_encrypt (replicate 40 7) (SEED_set_key (replicate 16 0)) (replicate 16 1) 5 True = (out, iv', num')"
    by (metis prod_cases3)
  have "SEED_cfb128_encrypt out (SEED_set_key (replicate 16 0)) (replicate 16 1) 5 False = (replicate 40 7, iv', num') \<and>
     length out = length (replicate 40 (7 :: byte))"
    by (rule SEED_cfb_round_trip [OF _ _ e]) simp_all
  with e show ?thesis by auto
qed

text \<open>
  OFB is its own inverse, and a message may be split anywhere: the second call
  continues in the middle of the key stream block.
\<close>

lemma SEED_ofb_involution:
  assumes "length iv = 16" and "num < 16"
    and "SEED_ofb128_encrypt (xs @ ys) ks iv num = (out, iv', num')"
  shows "SEED_ofb128_encrypt out ks iv num = (xs @ ys, iv', num') \<and>
    (case SEED_ofb128_encrypt xs ks iv num of (o1, iv1, n1) \<Rightarrow>
       (case SEED_ofb128_encrypt ys ks iv1 n1 of (o2, iv2, n2) \<Rightarrow> out = o1 @ o2 \<and> iv' = iv2 \<and> num' = n2))"
proof -
  have f: "SEED_ofb128_encrypt zs ks v n = stream_bytes (SEED_encrypt ks) ofb_step v n zs"
    if "length v = 16" "n < 16" for zs v n
    using seed_ofb.fast_eq [OF that] by (simp add: SEED_ofb128_encrypt_def CRYPTO_ofb128_encrypt_def)
  have "ofb_step s n (fst (ofb_step s n c)) = (c, snd (ofb_step s n c))" for s n c
    by (simp add: ofb_step_def)
  from stream_bytes_inverse [of ofb_step ofb_step, OF this assms(2)] assms(3) [unfolded f [OF assms(1,2)]]
  have 1: "SEED_ofb128_encrypt out ks iv num = (xs @ ys, iv', num')"
    unfolding f [OF assms(1,2)] by blast
  obtain o1 iv1 n1 where x: "stream_bytes (SEED_encrypt ks) ofb_step iv num xs = (o1, iv1, n1)"
    by (metis prod_cases3)
  obtain o2 iv2 n2 where y: "stream_bytes (SEED_encrypt ks) ofb_step iv1 n1 ys = (o2, iv2, n2)"
    by (metis prod_cases3)
  have "(out, iv', num') = (o1 @ o2, iv2, n2)"
    using seed_ofb.bytes_append [where s = iv and n = num and xs = xs and ys = ys and ks = ks]
      assms(3) x y f [OF assms(1,2)] by simp
  moreover have "SEED_ofb128_encrypt xs ks iv num = (o1, iv1, n1)"
    using f [OF assms(1,2)] x by simp
  moreover have "SEED_ofb128_encrypt ys ks iv1 n1 = (o2, iv2, n2)"
    using f [of iv1 n1] seed_ofb.bytes_ok [OF assms(1,2) x] y by simp
  ultimately show ?thesis using 1 by simp
qed

theorem SEED_ofb_involution_witness:
  "\<exists>out iv' num'. SEED_ofb128_encrypt (replicate 20 7 @ [8]) (SEED_set_key (replicate 16 0)) (replicate 16 1) 3 = (out, iv', num') \<and>
     SEED_ofb128_encrypt out (SEED_set_key (replicate 16 0)) (replicate 16 1) 3 = (replicate 20 7 @ [8], iv', num')"
proof -
  obtain out iv' num' where e:
    "SEED_ofb128_encrypt (replicate 20 7 @ [8]) (SEED_set_key (replicate 16 0)) (replicate 16 1) 3 = (out, iv', num')"
    by (metis prod_cases3)
  have "SEED_ofb128_encrypt out (SEED_set_key (replicate 16 0)) (replicate 16 1) 3 = (replicate 20 7 @ [8], iv', num')"
    by (rule conjunct1 [OF SEED_ofb_involution [OF _ _ e]]) simp_all
  with e show ?thesis by blast
qed

text \<open>
  CTR mode is its own inverse for every block function that returns blocks.
\<close>

lemma ctr_involution:
  assumes "\<And>b. length b = 16 \<Longrightarrow> length (block b) = 16"
    and "length iv = 16" and "length ec = 16" and "num < 16"
    and "CRYPTO_ctr128_encrypt little block inp iv ec num = (out, st, num')"
  shows "CRYPTO_ctr128_encrypt little block out iv ec num = (inp, st, num')"
proof -
  have f: "CRYPTO_ctr128_encrypt little block zs iv ec num =
      stream_bytes (ctr_refill little block) ctr_step (iv, ec) num zs" for zs
    using stream_mode.fast_eq [OF ctr_mode [OF assms(1)], where s = "(iv, ec)" and n = num and inp = zs] assms(2-4)
    by (simp add: CRYPTO_ctr128_encrypt_def)
  have "ctr_step s n (fst (ctr_step s n c)) = (c, snd (ctr_step s n c))" for s n c
    by (simp add: ctr_step_def)
  from stream_bytes_inverse [of ctr_step ctr_step, OF this assms(4)] assms(5) [unfolded f]
  show ?thesis unfolding f by blast
qed

theorem ctr_involution_witness:
  "\<exists>out st num'. CRYPTO_ctr128_encrypt True (SEED_encrypt (SEED_set_key (replicate 16 0))) (replicate 50 7) (replicate 16 255) (replicate 16 0) 0 = (out, st, num') \<and>
     CRYPTO_ctr128_encrypt True (SEED_encrypt (SEED_set_key (replicate 16 0))) out (replicate 16 255) (replicate 16 0) 0 = (replicate 50 7, st, num')"
proof -
  obtain out st num' where e:
    "CRYPTO_ctr128_encrypt True (SEED_encrypt (SEED_set_key (replicate 16 0))) (replicate 50 7) (replicate 16 255) (replicate 16 0) 0 = (out, st, num')"
    by (metis prod_cases3)
  have "CRYPTO_ctr128_encrypt True (SEED_encrypt (SEED_set_key (replicate 16 0))) out (replicate 16 255) (replicate 16 0) 0 = (replicate 50 7, st, num')"
    by (rule ctr_involution [OF _ _ _ _ e]) simp_all
  with e show ?thesis by blast
qed

subsection \<open>The counter\<close>

lemma ctr_inc_loop_frame: "n \<le> k \<Longrightarrow> k < length counter \<Longrightarrow> ctr_inc_loop n c counter ! k = counter ! k"
  by (induction n arbitrary: c counter) (simp_all add: Let_def)

lemma ctr_inc_loop_value:
  "n \<le> length counter \<Longrightarrow> unat c < 2 ^ 24 \<Longrightarrow>
     be_value (take n (ctr_inc_loop n c counter)) = (be_value (take n counter) + unat c) mod 256 ^ n"
proof (induction n arbitrary: c counter)
  case 0
  then show ?case by (simp add: be_value_def)
next
  case (Suc n)
  let ?x = "c + ucast (counter ! n) :: u32"
  let ?r = "ctr_inc_loop n (drop_bit 8 ?x) (counter[n := ucast ?x])"
  have b: "unat (counter ! n) < 256" using unsigned_less [of "counter ! n"] by simp
  have x: "unat ?x = unat c + unat (counter ! n)"
    using Suc.prems(2) b by (subst unat_add_lem [THEN iffD1]) (simp_all add: unsigned_ucast_eq take_bit_nat_def)
  have lo: "unat (ucast ?x :: byte) = unat ?x mod 256" by (simp add: unsigned_ucast_eq take_bit_nat_def)
  have hi: "unat (drop_bit 8 ?x) = unat ?x div 256" by (simp only: unat_drop_bit_eq) (simp add: drop_bit_eq_div)
  have "unat (drop_bit 8 ?x) < 2 ^ 24" using Suc.prems(2) b x hi by simp
  from Suc.IH [OF _ this, of "counter[n := ucast ?x]"] Suc.prems(1)
  have ih: "be_value (take n ?r) = (be_value (take n counter) + unat ?x div 256) mod 256 ^ n"
    by (simp add: hi)
  have "take (Suc n) ?r = take n ?r @ [?r ! n]" "?r ! n = ucast ?x"
    using Suc.prems(1) by (simp_all add: take_Suc_conv_app_nth ctr_inc_loop_frame)
  then have "be_value (take (Suc n) ?r) =
      256 * ((be_value (take n counter) + unat ?x div 256) mod 256 ^ n) + unat ?x mod 256"
    by (simp add: ih lo)
  also have "\<dots> = (256 * be_value (take n counter) + unat ?x) mod (256 * 256 ^ n)"
    by (subst mod_mult2_eq) simp
  also have "256 * be_value (take n counter) + unat ?x = be_value (take (Suc n) counter) + unat c"
    using Suc.prems(1) x by (simp add: take_Suc_conv_app_nth)
  finally show ?case by (simp add: Let_def)
qed

text \<open>On a big endian machine: the carry out of a word.\<close>

lemma ctr_inc_word_value:
  assumes "c = 0 \<or> c = 1" and "ctr_inc_word w c = (d, c')"
  shows "unat d + 2 ^ 64 * unat c' = unat w + unat c \<and> (c' = 0 \<or> c' = 1)"
proof -
  have bit63: "bit v 63 \<longleftrightarrow> 2 ^ 63 \<le> unat v" for v :: u64
  proof -
    have "bit v 63 \<longleftrightarrow> bit (unat v) 63" by (simp add: bit_unsigned_iff)
    then have "bit v 63 \<longleftrightarrow> odd (unat v div 2 ^ 63)" by (simp only: bit_iff_odd [of "unat v"])
    moreover have "unat v < 2 ^ LENGTH(64)" by (rule unsigned_less)
    then have "unat v div 2 ^ 63 < 2" by simp
    ultimately show ?thesis by (cases "unat v div 2 ^ 63") auto
  qed
  have d: "d = w + c" "c' = of_bool (2 ^ 63 \<le> unat w \<and> unat (w + c) < 2 ^ 63)"
  proof -
    have "drop_bit 63 (w AND NOT (w + c)) = of_bool (bit w 63 \<and> \<not> bit (w + c) 63)"
      by (rule bit_word_eqI) (auto simp: bit_simps)
    with assms(2) show "d = w + c" "c' = of_bool (2 ^ 63 \<le> unat w \<and> unat (w + c) < 2 ^ 63)"
      by (auto simp: ctr_inc_word_def Let_def bit63 not_le)
  qed
  have "unat w < 2 ^ LENGTH(64)" by (rule unsigned_less)
  then have w: "unat w < 2 ^ 64" by simp
  show ?thesis
  proof (cases "unat w + unat c < 2 ^ 64")
    case True
    then have "unat (w + c) = unat w + unat c" by (subst unat_add_lem [THEN iffD1]) simp_all
    with d show ?thesis by auto
  next
    case False
    with w assms(1) have m: "c = 1" "unat w = 2 ^ 64 - 1" by auto
    then have "w = - 1"
      by (simp add: word_unat_eq_iff unsigned_minus_1_eq_mask mask_eq_exp_minus_1)
    with d m show ?thesis by simp
  qed
qed

lemma ctr_inc_big_value:
  assumes "length counter = 16"
  shows "be_value (ctr128_inc_aligned False counter) = (be_value counter + 1) mod 2 ^ 128"
proof -
  let ?l = "load_be (drop 8 counter) :: u64" and ?h = "load_be (take 8 counter) :: u64"
  obtain d1 c1 where 1: "ctr_inc_word ?l 1 = (d1, c1)" by force
  obtain d0 c0 where 0: "ctr_inc_word ?h c1 = (d0, c0)" by force
  from ctr_inc_word_value [OF _ 1] have v1: "unat d1 + 2 ^ 64 * unat c1 = unat ?l + 1" "c1 = 0 \<or> c1 = 1" by simp_all
  from ctr_inc_word_value [OF v1(2) 0] have v0: "unat d0 + 2 ^ 64 * unat c0 = unat ?h + unat c1" by simp
  have v: "be_value counter = 2 ^ 64 * unat ?h + unat ?l"
    using be_value_append [of "take 8 counter" "drop 8 counter"] assms
    by (simp add: be_value_load [of "take 8 counter", where 'a = 64] be_value_load [of "drop 8 counter", where 'a = 64])
  have r: "be_value (ctr128_inc_aligned False counter) = 2 ^ 64 * unat d0 + unat d1"
    using be_value_append [of "store_be 8 d0" "store_be 8 d1"]
    by (simp add: ctr128_inc_aligned_def 1 0 be_value_store)
  have "2 ^ 64 * unat d0 + unat d1 + 2 ^ 128 * unat c0 = be_value counter + 1"
    using v v0 v1(1) by simp
  moreover have "2 ^ 64 * unat d0 + unat d1 < 2 ^ 128"
    using be_value_less [of "ctr128_inc_aligned False counter"] r by (simp add: ctr128_inc_aligned_def 1 0)
  ultimately show ?thesis unfolding r by (metis mod_less mod_mult_self2)
qed

lemma ctr_inc_big_loop:
  assumes "length counter = 16"
  shows "ctr128_inc_aligned False counter = ctr128_inc counter"
proof (rule be_value_inject [THEN iffD1])
  show "length (ctr128_inc_aligned False counter) = length (ctr128_inc counter)"
    using assms by (simp add: ctr128_inc_aligned_def ctr128_inc_def split: prod.split)
  show "be_value (ctr128_inc_aligned False counter) = be_value (ctr128_inc counter)"
    using ctr_inc_big_value [OF assms] ctr_inc_loop_value [of 16 counter 1] assms by (simp add: ctr128_inc_def)
qed

text \<open>
  \<open>ctr128_inc\<close> adds one to the 128-bit big endian counter, modulo 2^128,
  \<open>ctr128_inc_aligned\<close> does the same on machines of either byte order, and \<open>ctr96_inc\<close>
  adds one to the upper 96 bits and leaves the lower 32 alone.
\<close>

lemma ctr_inc_value:
  assumes "length counter = 16"
  shows "be_value (ctr128_inc counter) = (be_value counter + 1) mod 2 ^ 128 \<and>
    ctr128_inc_aligned little counter = ctr128_inc counter \<and>
    be_value (take 12 (ctr96_inc counter)) = (be_value (take 12 counter) + 1) mod 2 ^ 96 \<and>
    drop 12 (ctr96_inc counter) = drop 12 counter"
proof (intro conjI)
  show "be_value (ctr128_inc counter) = (be_value counter + 1) mod 2 ^ 128"
    using ctr_inc_loop_value [of 16 counter 1] assms by (simp add: ctr128_inc_def)
  show "ctr128_inc_aligned little counter = ctr128_inc counter"
    using ctr_inc_big_loop [OF assms] by (cases little) (simp_all add: ctr128_inc_aligned_def)
  show "be_value (take 12 (ctr96_inc counter)) = (be_value (take 12 counter) + 1) mod 2 ^ 96"
    using ctr_inc_loop_value [of 12 counter 1] assms by (simp add: ctr96_inc_def)
  show "drop 12 (ctr96_inc counter) = drop 12 counter"
    unfolding ctr96_inc_def
    by (rule nth_equalityI) (simp_all add: assms ctr_inc_loop_frame)
qed

theorem ctr_inc_value_witness:
  "be_value (ctr128_inc (replicate 16 255)) = (be_value (replicate 16 255) + 1) mod 2 ^ 128 \<and>
   ctr128_inc_aligned False (replicate 16 255) = ctr128_inc (replicate 16 255) \<and>
   drop 12 (ctr96_inc (replicate 16 255)) = replicate 4 255"
  using ctr_inc_value [of "replicate 16 255" False] by simp

lemma stream_bytes_cong:
  assumes "\<And>s. ok s \<Longrightarrow> refill' s = refill s" and "\<And>s. ok s \<Longrightarrow> ok (refill s)"
    and "\<And>s n c. ok s \<Longrightarrow> n < 16 \<Longrightarrow> ok (snd (step s n c))"
  shows "ok s \<Longrightarrow> n < 16 \<Longrightarrow> stream_bytes refill' step s n inp = stream_bytes refill step s n inp"
proof (induction inp arbitrary: s n)
  case (Cons c cs)
  let ?s = "if n = 0 then refill s else s"
  have "ok ?s" using assms(2) Cons.prems by simp
  then have o: "ok (snd (step ?s n c))" using assms(3) Cons.prems by simp
  obtain out t where st: "step ?s n c = (out, t)" by force
  have r: "(if n = 0 then refill' s else s) = ?s" using assms(1) Cons.prems by simp
  have "stream_bytes refill' step t ((n + 1) mod 16) cs = stream_bytes refill step t ((n + 1) mod 16) cs"
    using o st by (intro Cons.IH) simp_all
  then show ?case by (simp only: stream_bytes.simps Let_def r st prod.case)
qed simp

text \<open>
  The word-wise builds of CFB, OFB and CTR are the byte-wise ones, at every position in
  the key stream, in both directions of CFB and for both byte orders of the machine.
\<close>

lemma stream_small_equal:
  assumes "\<And>b. length b = 16 \<Longrightarrow> length (block b) = 16"
    and "length iv = 16" and "length ec = 16" and "num < 16"
  shows "CRYPTO_cfb128_encrypt block inp iv num enc = CRYPTO_cfb128_encrypt_small block inp iv num enc \<and>
    CRYPTO_ofb128_encrypt block inp iv num = CRYPTO_ofb128_encrypt_small block inp iv num \<and>
    CRYPTO_ctr128_encrypt little block inp iv ec num = CRYPTO_ctr128_encrypt_small block inp iv ec num"
proof (intro conjI)
  show "CRYPTO_cfb128_encrypt block inp iv num enc = CRYPTO_cfb128_encrypt_small block inp iv num enc"
    unfolding CRYPTO_cfb128_encrypt_def CRYPTO_cfb128_encrypt_small_def
    by (rule stream_mode.fast_eq [OF cfb_mode [OF assms(1)] assms(2,4)])
  show "CRYPTO_ofb128_encrypt block inp iv num = CRYPTO_ofb128_encrypt_small block inp iv num"
    unfolding CRYPTO_ofb128_encrypt_def CRYPTO_ofb128_encrypt_small_def
    by (rule stream_mode.fast_eq [OF ofb_mode [OF assms(1)] assms(2,4)])
  have ok: "case (iv, ec) of (iv, ec) \<Rightarrow> length iv = 16 \<and> length ec = 16" using assms(2,3) by simp
  have "stream_bytes (ctr_refill_small block) ctr_step (iv, ec) num inp =
      stream_bytes (ctr_refill little block) ctr_step (iv, ec) num inp"
  proof (rule stream_bytes_cong [where ok = "\<lambda>(iv, ec). length iv = 16 \<and> length ec = 16"])
    show "ctr_refill_small block s = ctr_refill little block s"
      if "case s of (iv, ec) \<Rightarrow> length iv = 16 \<and> length ec = 16" for s
      using that ctr_inc_big_loop
      by (cases little) (auto simp: ctr_refill_small_def ctr_refill_def ctr128_inc_aligned_def)
  qed (use assms ok stream_mode.ok_refill [OF ctr_mode [OF assms(1)]] stream_mode.ok_step [OF ctr_mode [OF assms(1)]]
      in \<open>simp_all\<close>)
  then show "CRYPTO_ctr128_encrypt little block inp iv ec num = CRYPTO_ctr128_encrypt_small block inp iv ec num"
    using stream_mode.fast_eq [OF ctr_mode [OF assms(1)] ok assms(4)]
    by (simp add: CRYPTO_ctr128_encrypt_def CRYPTO_ctr128_encrypt_small_def)
qed

theorem stream_small_equal_witness:
  "CRYPTO_ctr128_encrypt False (SEED_encrypt (SEED_set_key (replicate 16 0))) (replicate 40 7) (replicate 16 1) (replicate 16 0) 5 =
   CRYPTO_ctr128_encrypt_small (SEED_encrypt (SEED_set_key (replicate 16 0))) (replicate 40 7) (replicate 16 1) (replicate 16 0) 5"
  by (rule stream_small_equal [THEN conjunct2, THEN conjunct2]) simp_all

end
