(* ===== verification/Cts.thy ===== *)
theory Cts
  imports Cbc
begin

text \<open>
  Ciphertext stealing on top of CBC (crypto/modes/cts128.c): the variant of RFC 2040 and
  RFC 3962, which swaps the last two blocks, and the one proposed by NIST. Each exists for
  a block function and for a CBC function; the latter are modelled in the default build,
  without \<open>CBC_HANDLES_TRUNCATED_IO\<close>. The result None stands for the return value 0, with
  which the functions write nothing; otherwise the return value is the length of the
  input and the result is the output with the final \<open>ivec\<close>.
\<close>

type_synonym cbc_fun = "byte list \<Rightarrow> nat \<Rightarrow> byte list \<Rightarrow> bool \<Rightarrow> byte list \<times> byte list"

subsection \<open>Encryption\<close>

definition cts_residue :: "nat \<Rightarrow> nat" where
  "cts_residue len = (if len mod 16 = 0 then 16 else len mod 16)"

definition CRYPTO_cts128_encrypt_block ::
  "(byte list \<Rightarrow> byte list) \<Rightarrow> byte list \<Rightarrow> byte list \<Rightarrow> (byte list \<times> byte list) option" where
  "CRYPTO_cts128_encrypt_block block inp ivec =
     (if length inp \<le> 16 then None
      else let residue = cts_residue (length inp);
               len = length inp - residue;
               (out, ivec) = CRYPTO_cbc128_encrypt block (take len inp) ivec;
               ivec = block (xor_bytes (drop len inp) ivec @ drop residue ivec);
               out = out @ take residue (drop (len - 16) out);
               out = write_at out (len - 16) ivec
           in Some (out, ivec))"

definition CRYPTO_nistcts128_encrypt_block ::
  "(byte list \<Rightarrow> byte list) \<Rightarrow> byte list \<Rightarrow> byte list \<Rightarrow> (byte list \<times> byte list) option" where
  "CRYPTO_nistcts128_encrypt_block block inp ivec =
     (if length inp < 16 then None
      else let residue = length inp mod 16;
               len = length inp - residue;
               (out, ivec) = CRYPTO_cbc128_encrypt block (take len inp) ivec
           in if residue = 0 then Some (out, ivec)
              else let ivec = block (xor_bytes (drop len inp) ivec @ drop residue ivec);
                       out = write_at out (len - 16 + residue) ivec
                   in Some (out, ivec))"

definition CRYPTO_cts128_encrypt ::
  "cbc_fun \<Rightarrow> byte list \<Rightarrow> byte list \<Rightarrow> (byte list \<times> byte list) option" where
  "CRYPTO_cts128_encrypt cbc inp ivec =
     (if length inp \<le> 16 then None
      else let residue = cts_residue (length inp);
               len = length inp - residue;
               (out, ivec) = cbc (take len inp) len ivec True;
               tmp = write_at (replicate 16 0) 0 (drop len inp);
               out = out @ take residue (drop (len - 16) out);
               (c, ivec) = cbc tmp 16 ivec True;
               out = write_at out (len - 16) c
           in Some (out, ivec))"

definition CRYPTO_nistcts128_encrypt ::
  "cbc_fun \<Rightarrow> byte list \<Rightarrow> byte list \<Rightarrow> (byte list \<times> byte list) option" where
  "CRYPTO_nistcts128_encrypt cbc inp ivec =
     (if length inp < 16 then None
      else let residue = length inp mod 16;
               len = length inp - residue;
               (out, ivec) = cbc (take len inp) len ivec True
           in if residue = 0 then Some (out, ivec)
              else let tmp = write_at (replicate 16 0) 0 (drop len inp);
                       (c, ivec) = cbc tmp 16 ivec True;
                       out = write_at out (len - 16 + residue) c
                   in Some (out, ivec))"

subsection \<open>Decryption\<close>

text \<open>\<open>if (len)\<close>: the blocks before the last two.\<close>

definition CRYPTO_cts128_decrypt_block ::
  "(byte list \<Rightarrow> byte list) \<Rightarrow> byte list \<Rightarrow> byte list \<Rightarrow> (byte list \<times> byte list) option" where
  "CRYPTO_cts128_decrypt_block block inp ivec =
     (if length inp \<le> 16 then None
      else let residue = cts_residue (length inp);
               len = length inp - (16 + residue);
               (out, ivec) = (if len \<noteq> 0 then CRYPTO_cbc128_decrypt block inp len ivec else ([], ivec));
               inp = drop len inp;
               hi = block (take 16 inp);
               lo = block (write_at hi 0 (take residue (drop 16 inp)));
               out = out @ xor_bytes lo ivec @ xor_bytes (take residue hi) (drop 16 inp)
           in Some (out, take 16 inp))"

definition CRYPTO_nistcts128_decrypt_block ::
  "(byte list \<Rightarrow> byte list) \<Rightarrow> byte list \<Rightarrow> byte list \<Rightarrow> (byte list \<times> byte list) option" where
  "CRYPTO_nistcts128_decrypt_block block inp ivec =
     (if length inp < 16 then None
      else let residue = length inp mod 16
           in if residue = 0 then Some (CRYPTO_cbc128_decrypt block inp (length inp) ivec)
              else let len = length inp - (16 + residue);
                       (out, ivec) = (if len \<noteq> 0 then CRYPTO_cbc128_decrypt block inp len ivec
                                      else ([], ivec));
                       inp = drop len inp;
                       hi = block (take 16 (drop residue inp));
                       lo = block (write_at hi 0 (take residue inp));
                       out = out @ xor_bytes lo ivec @ xor_bytes (take residue hi) (take 16 inp)
                   in Some (out, take 16 (drop residue inp)))"

text \<open>
  In the CBC versions the first call has \<open>tmp.c + 16\<close> as its \<open>ivec\<close>, so it leaves the
  ciphertext block behind the decrypted one.
\<close>

definition CRYPTO_cts128_decrypt ::
  "cbc_fun \<Rightarrow> byte list \<Rightarrow> byte list \<Rightarrow> (byte list \<times> byte list) option" where
  "CRYPTO_cts128_decrypt cbc inp ivec =
     (if length inp \<le> 16 then None
      else let residue = cts_residue (length inp);
               len = length inp - (16 + residue);
               (out, ivec) = (if len \<noteq> 0 then cbc inp len ivec False else ([], ivec));
               inp = drop len inp;
               (d, c) = cbc inp 16 (replicate 16 0) False;
               tmp = write_at (d @ c) 0 (take residue (drop 16 inp));
               (tmp, ivec) = cbc tmp 32 ivec False
           in Some (out @ take (16 + residue) tmp, ivec))"

definition CRYPTO_nistcts128_decrypt ::
  "cbc_fun \<Rightarrow> byte list \<Rightarrow> byte list \<Rightarrow> (byte list \<times> byte list) option" where
  "CRYPTO_nistcts128_decrypt cbc inp ivec =
     (if length inp < 16 then None
      else let residue = length inp mod 16
           in if residue = 0 then Some (cbc inp (length inp) ivec False)
              else let len = length inp - (16 + residue);
                       (out, ivec) = (if len \<noteq> 0 then cbc inp len ivec False else ([], ivec));
                       inp = drop len inp;
                       (d, c) = cbc (drop residue inp) 16 (replicate 16 0) False;
                       tmp = write_at (d @ c) 0 (take residue inp);
                       (tmp, ivec) = cbc tmp 32 ivec False
                   in Some (out @ take (16 + residue) tmp, ivec))"

subsection \<open>The last two blocks\<close>

lemma cts_residue_Suc: "cts_residue (Suc m) = Suc (m mod 16)"
  by (simp add: cts_residue_def mod_Suc)

lemma cts_residue_app [simp]:
  assumes "length xs mod 16 = 0" and "0 < n" and "n \<le> 16"
  shows "cts_residue (length xs + (16 + n)) = n"
proof -
  obtain m where n: "n = Suc m" "m < 16" using assms by (cases n) auto
  have "(length xs + (16 + m)) mod 16 = m"
    using assms(1) n(2) by (subst mod_add_left_eq [symmetric]) simp
  then show ?thesis using n cts_residue_Suc [of "length xs + (16 + m)"] by (simp add: ac_simps)
qed

text \<open>An input longer than a block: whole blocks, the block before the last, the rest.\<close>

lemma cts_split:
  assumes "16 < length (inp :: byte list)"
  obtains xs l r where "inp = xs @ l @ r" "length xs mod 16 = 0" "length l = 16"
    "0 < length r" "length r \<le> 16"
proof -
  define q t where "q = (length inp - 1) div 16" and "t = (length inp - 1) mod 16"
  have n: "length inp = 16 * q + t + 1" "t < 16" using assms by (simp_all add: q_def t_def)
  with assms have q: "0 < q" by (cases q) simp_all
  let ?n = "16 * (q - 1)"
  have "inp = take ?n inp @ take 16 (drop ?n inp) @ drop (?n + 16) inp"
    by (metis append_take_drop_id drop_drop add.commute)
  moreover have "?n + 16 \<le> length inp" "length inp - (?n + 16) = t + 1" "length (take ?n inp) = ?n"
    using n q by (cases q; simp)+
  ultimately show thesis
    using n(2) by (intro that [of "take ?n inp" "take 16 (drop ?n inp)" "drop (?n + 16) inp"]) simp_all
qed

lemma xor_zero_pad:
  "length r \<le> 16 \<Longrightarrow> length iv = 16 \<Longrightarrow>
     xor_bytes (write_at (replicate 16 0) 0 r) iv = xor_bytes r iv @ drop (length r) iv"
  by (intro nth_equalityI) (auto simp: write_at_def nth_append)

lemma cbc_dec_prefix:
  "length out mod 16 = 0 \<Longrightarrow>
     cbc_dec_bytes block iv (out @ rest) (length out) = cbc_dec_bytes block iv out (length out)"
proof (induction "length out" arbitrary: out iv rule: less_induct)
  case less
  show ?case
  proof (cases "out = []")
    case True
    then show ?thesis by (simp add: cbc_dec_bytes.simps)
  next
    case False
    then have 16: "16 \<le> length out" using less.prems
      by (metis length_0_conv less_eq_nat.simps(1) linorder_not_less mod_less)
    have "cbc_dec_bytes block (take 16 out) (drop 16 out @ rest) (length out - 16) =
        cbc_dec_bytes block (take 16 out) (drop 16 out) (length out - 16)"
      using less.hyps [of "drop 16 out" "take 16 out"] 16 less.prems by (simp add: le_mod_geq)
    with 16 show ?thesis by (subst (1 2) cbc_dec_bytes.simps) (simp add: Let_def)
  qed
qed

context block_cipher
begin

text \<open>CBC of the whole blocks of an input that ends in a block \<open>l\<close>, and back.\<close>

lemma cbc_enc_blocks:
  assumes "length xs mod 16 = 0" and "length iv = 16" and "length l = 16"
    and "CRYPTO_cbc128_encrypt enc xs iv = (o1, iv1)"
  shows "CRYPTO_cbc128_encrypt enc (xs @ l) iv = (o1 @ enc (xor_bytes l iv1), enc (xor_bytes l iv1))"
    and "length o1 = length xs" "length iv1 = 16"
    and "CRYPTO_cbc128_decrypt dec (o1 @ rest) (length xs) iv = (xs, iv1)"
proof -
  have e: "cbc_enc_bytes enc iv xs = (o1, iv1)"
    using assms(4) cbc_encrypt_bytes [OF length_enc assms(2)] by simp
  from cbc_enc_length [OF assms(2) e] assms(1)
  show l: "length o1 = length xs" "length iv1 = 16" by (auto simp: div_plus_div_distrib_dvd_left)
  have "cbc_enc_bytes enc iv1 l = (enc (xor_bytes l iv1), enc (xor_bytes l iv1))"
    using cbc_enc_short [of l iv1] assms(3) l by (cases l) auto
  with cbc_streaming [OF assms(2,1), of l] e
  show "CRYPTO_cbc128_encrypt enc (xs @ l) iv = (o1 @ enc (xor_bytes l iv1), enc (xor_bytes l iv1))"
    using cbc_encrypt_bytes [OF length_enc assms(2)] by simp
  have "CRYPTO_cbc128_decrypt dec (o1 @ rest) (length xs) iv = cbc_dec_bytes dec iv (o1 @ rest) (length o1)"
    using cbc_decrypt_bytes [OF length_dec assms(2)] l by simp
  also have "\<dots> = (xs, iv1)"
    using cbc_dec_prefix [of o1 dec iv rest] cbc_round_trip [OF assms(2) e] l assms(1) by simp
  finally show "CRYPTO_cbc128_decrypt dec (o1 @ rest) (length xs) iv = (xs, iv1)" .
qed

text \<open>What the two variants compute: the block \<open>c\<close> is cut and \<open>z\<close> is complete.\<close>

lemma cts_encrypt_parts:
  assumes "length xs mod 16 = 0" and "length iv = 16" and "length l = 16" and "0 < length r" "length r \<le> 16"
    and "CRYPTO_cbc128_encrypt enc xs iv = (o1, iv1)"
    and c: "c = enc (xor_bytes l iv1)" and z: "z = enc (xor_bytes r c @ drop (length r) c)"
  shows "CRYPTO_cts128_encrypt_block enc (xs @ l @ r) iv = Some (o1 @ z @ take (length r) c, z)"
    and "length r < 16 \<Longrightarrow>
      CRYPTO_nistcts128_encrypt_block enc (xs @ l @ r) iv = Some (o1 @ take (length r) c @ z, z)"
proof -
  note b = cbc_enc_blocks [OF assms(1,2,3,6), folded c]
  have cl: "length c = 16" unfolding c using assms(3) b(3) by (intro length_enc) simp
  have zl: "length z = 16" unfolding z using assms(5) cl by (intro length_enc) simp
  have x: "xor_bytes r c @ drop (length r) c = xor_bytes r c @ drop (length r) c" ..
  have len: "length (xs @ l @ r) - cts_residue (length (xs @ l @ r)) = length xs + 16"
    using assms by simp
  show "CRYPTO_cts128_encrypt_block enc (xs @ l @ r) iv = Some (o1 @ z @ take (length r) c, z)"
    using assms(1,3-5) b(1,2) cl zl
    by (simp add: CRYPTO_cts128_encrypt_block_def Let_def z [symmetric] write_at_def)
  assume r: "length r < 16"
  have m: "(length xs + (16 + length r)) mod 16 = length r"
    using assms(1) r by (subst mod_add_left_eq [symmetric]) simp
  show "CRYPTO_nistcts128_encrypt_block enc (xs @ l @ r) iv = Some (o1 @ take (length r) c @ z, z)"
    using assms(3-5) b(1,2) cl zl r
    by (simp add: CRYPTO_nistcts128_encrypt_block_def Let_def z [symmetric] write_at_def m)
qed

lemma cts_decrypt_parts:
  assumes "length xs mod 16 = 0" and "length iv = 16" and "length l = 16" and "0 < length r" "length r \<le> 16"
    and "CRYPTO_cbc128_encrypt enc xs iv = (o1, iv1)"
    and c: "c = enc (xor_bytes l iv1)" and z: "z = enc (xor_bytes r c @ drop (length r) c)"
  shows "CRYPTO_cts128_decrypt_block dec (o1 @ z @ take (length r) c) iv = Some (xs @ l @ r, z)"
    and "length r < 16 \<Longrightarrow>
      CRYPTO_nistcts128_decrypt_block dec (o1 @ take (length r) c @ z) iv = Some (xs @ l @ r, z)"
proof -
  note b = cbc_enc_blocks [OF assms(1,2,3,6), folded c]
  have cl: "length c = 16" unfolding c using assms(3) b(3) by (intro length_enc) simp
  let ?p = "xor_bytes r c @ drop (length r) c"
  have pl: "length ?p = 16" using assms(5) cl by simp
  have zl: "length z = 16" unfolding z using pl by (rule length_enc)
  have dz: "dec z = ?p" unfolding z using pl by (rule dec_enc)
  have dc: "dec c = xor_bytes l iv1" unfolding c using assms(3) b(3) by (intro dec_enc) simp
  have w: "write_at ?p 0 (take (length r) c) = c" using assms(5) cl by (simp add: write_at_def)
  have r: "xor_bytes (xor_bytes r c) (take (length r) c @ w) = r" for w
    using assms(5) cl by (intro nth_equalityI) (simp_all add: nth_append)
  have l: "xor_bytes (xor_bytes l iv1) iv1 = l" using assms(3) b(3) by simp
  have d: "iv1 = iv" if "xs = []"
    using b(4) [of "[]"] that by (simp add: CRYPTO_cbc128_decrypt_def)
  show "CRYPTO_cts128_decrypt_block dec (o1 @ z @ take (length r) c) iv = Some (xs @ l @ r, z)"
    using assms(1,4,5) b(2) cl zl d l r [of "[]"]
    by (auto simp: CRYPTO_cts128_decrypt_block_def Let_def dz w dc b(4))
  assume r16: "length r < 16"
  have m: "(length xs + (length r + 16)) mod 16 = length r"
    using assms(1) r16 by (subst mod_add_left_eq [symmetric]) simp
  show "CRYPTO_nistcts128_decrypt_block dec (o1 @ take (length r) c @ z) iv = Some (xs @ l @ r, z)"
    using assms(4) b(2) cl zl d r16 l r
    by (auto simp: CRYPTO_nistcts128_decrypt_block_def Let_def dz w dc b(4) m)
qed

lemma cts_inverse:
  assumes "length iv = 16" and "16 < length inp"
  shows "\<exists>out iv'. CRYPTO_cts128_encrypt_block enc inp iv = Some (out, iv') \<and> length out = length inp \<and>
    CRYPTO_cts128_decrypt_block dec out iv = Some (inp, iv')"
proof -
  obtain xs l r where s: "inp = xs @ l @ r" "length xs mod 16 = 0" "length l = 16" "0 < length r" "length r \<le> 16"
    using cts_split [OF assms(2)] by blast
  obtain o1 iv1 where o1: "CRYPTO_cbc128_encrypt enc xs iv = (o1, iv1)" by force
  note e = cts_encrypt_parts(1) [OF s(2) assms(1) s(3-5) o1 refl refl]
  note d = cts_decrypt_parts(1) [OF s(2) assms(1) s(3-5) o1 refl refl]
  note b = cbc_enc_blocks(2,3) [OF s(2) assms(1) s(3) o1]
  show ?thesis unfolding s(1) e using d b s(3,5) by (simp add: length_enc)
qed

lemma nistcts_inverse:
  assumes "length iv = 16" and "16 \<le> length inp"
  shows "\<exists>out iv'. CRYPTO_nistcts128_encrypt_block enc inp iv = Some (out, iv') \<and> length out = length inp \<and>
    CRYPTO_nistcts128_decrypt_block dec out iv = Some (inp, iv')"
proof (cases "length inp mod 16 = 0")
  case True
  obtain out iv' where e: "CRYPTO_cbc128_encrypt enc inp iv = (out, iv')" by force
  from cbc_enc_blocks(2) [OF True assms(1) _ e, of "replicate 16 0"]
    cbc_enc_blocks(4) [OF True assms(1) _ e, where l = "replicate 16 0" and rest = "[]"]
  have "length out = length inp" "CRYPTO_cbc128_decrypt dec out (length inp) iv = (inp, iv')" by simp_all
  with True assms(2) e show ?thesis
    by (simp add: CRYPTO_nistcts128_encrypt_block_def CRYPTO_nistcts128_decrypt_block_def Let_def)
next
  case False
  then have "16 < length inp" using assms(2) by (cases "length inp = 16") simp_all
  then obtain xs l r where s: "inp = xs @ l @ r" "length xs mod 16 = 0" "length l = 16" "0 < length r" "length r \<le> 16"
    using cts_split by blast
  have r: "length r < 16"
  proof (rule ccontr)
    assume "\<not> length r < 16"
    with s have "length inp = 16 * (length xs div 16) + 32" by (simp add: mult.commute) presburger
    with False show False by (simp add: mod_mult_self4)
  qed
  obtain o1 iv1 where o1: "CRYPTO_cbc128_encrypt enc xs iv = (o1, iv1)" by force
  note e = cts_encrypt_parts(2) [OF s(2) assms(1) s(3-5) o1 refl refl r]
  note d = cts_decrypt_parts(2) [OF s(2) assms(1) s(3-5) o1 refl refl r]
  note b = cbc_enc_blocks(2,3) [OF s(2) assms(1) s(3) o1]
  show ?thesis unfolding s(1) e using d b s(3,5) by (simp add: length_enc)
qed

text \<open>CBC over one and over two blocks.\<close>

lemma cbc_one_block:
  assumes "length iv = 16" and "length b = 16"
  shows "CRYPTO_cbc128_encrypt enc b iv = (enc (xor_bytes b iv), enc (xor_bytes b iv))"
  using cbc_enc_blocks(1) [OF _ assms, where xs = "[]" and ?o1.0 = "[]" and ?iv1.0 = iv]
  by (simp add: CRYPTO_cbc128_encrypt_def)

lemma cbc_dec_one_block:
  assumes "length iv = 16" and "16 \<le> length b"
  shows "CRYPTO_cbc128_decrypt dec b 16 iv = (xor_bytes (dec (take 16 b)) iv, take 16 b)"
  using assms cbc_decrypt_bytes [where block = dec and len = 16 and inp = b, OF length_dec assms(1)]
  by (simp add: length_dec) (subst cbc_dec_bytes.simps, simp add: Let_def length_dec)

lemma cbc_dec_two_blocks:
  assumes "length iv = 16" and "length x = 16" and "length y = 16"
  shows "CRYPTO_cbc128_decrypt dec (x @ y) 32 iv = (xor_bytes (dec x) iv @ xor_bytes (dec y) x, y)"
proof -
  have "cbc_dec_bytes dec x y 16 = (xor_bytes (dec y) x, y)"
    using assms by (subst cbc_dec_bytes.simps) (simp add: Let_def length_dec)
  then show ?thesis
    using assms cbc_decrypt_bytes [where block = dec and len = 32 and inp = "x @ y", OF length_dec assms(1)]
    by simp (subst cbc_dec_bytes.simps, simp add: Let_def length_dec)
qed

end



text \<open>
  The NIST variant does the same for every message of at least a block.
\<close>

lemma nistcts_round_trip:
  assumes "block_cipher enc dec" and "length iv = 16" and "16 \<le> length inp"
  shows "\<exists>out iv'. CRYPTO_nistcts128_encrypt_block enc inp iv = Some (out, iv') \<and> length out = length inp \<and>
    CRYPTO_nistcts128_decrypt_block dec out iv = Some (inp, iv')"
  using block_cipher.nistcts_inverse [OF assms] .

theorem nistcts_round_trip_witness:
  "\<exists>out iv'. CRYPTO_nistcts128_encrypt_block (SEED_encrypt (SEED_set_key (replicate 16 0))) (replicate 37 5) (replicate 16 1) =
      Some (out, iv') \<and> length out = 37 \<and>
    CRYPTO_nistcts128_decrypt_block (SEED_decrypt (SEED_set_key (replicate 16 0))) out (replicate 16 1) =
      Some (replicate 37 5, iv')"
  using nistcts_round_trip [OF seed.block_cipher_axioms, of "replicate 16 1" "replicate 37 5" "SEED_set_key (replicate 16 0)"]
  by simp

subsection \<open>The CBC versions compute the same\<close>

text \<open>The CBC mode of a cipher as the function the CBC versions take.\<close>

definition cbc_mode :: "(byte list \<Rightarrow> byte list) \<Rightarrow> (byte list \<Rightarrow> byte list) \<Rightarrow> cbc_fun" where
  "cbc_mode enc dec inp len iv e =
     (if e then CRYPTO_cbc128_encrypt enc (take len inp) iv else CRYPTO_cbc128_decrypt dec inp len iv)"

lemma cbc_dec_iv_length:
  "length iv = 16 \<Longrightarrow> len mod 16 = 0 \<Longrightarrow> len \<le> length inp \<Longrightarrow>
     length (snd (cbc_dec_bytes block iv inp len)) = 16"
proof (induction len arbitrary: iv inp rule: less_induct)
  case (less len)
  show ?case
  proof (cases "len = 0")
    case True
    then show ?thesis using less.prems by (simp add: cbc_dec_bytes.simps)
  next
    case False
    then have 16: "16 \<le> len" using less.prems(2) by (metis linorder_not_less mod_less)
    then have "length (snd (cbc_dec_bytes block (take 16 inp) (drop 16 inp) (len - 16))) = 16"
      using less.prems by (intro less.IH) (simp_all add: le_mod_geq)
    then show ?thesis using 16 less.prems(3) by (subst cbc_dec_bytes.simps) (auto simp: Let_def split: prod.split)
  qed
qed

context block_cipher
begin

lemma cts_enc_cbc:
  assumes "length iv = 16"
  shows "CRYPTO_cts128_encrypt (cbc_mode enc dec) inp iv = CRYPTO_cts128_encrypt_block enc inp iv"
proof (cases "16 < length inp")
  case True
  then obtain xs l r where s: "inp = xs @ l @ r" "length xs mod 16 = 0" "length l = 16" "0 < length r" "length r \<le> 16"
    by (rule cts_split)
  obtain o1 iv1 where o1: "CRYPTO_cbc128_encrypt enc xs iv = (o1, iv1)" by force
  note b = cbc_enc_blocks [OF s(2) assms s(3) o1]
  have "length (enc (xor_bytes l iv1)) = 16" using s(3) b(3) by (intro length_enc) simp
  then show ?thesis using s b
    by (simp add: CRYPTO_cts128_encrypt_def CRYPTO_cts128_encrypt_block_def cbc_mode_def Let_def
        cbc_one_block xor_zero_pad)
qed (simp add: CRYPTO_cts128_encrypt_def CRYPTO_cts128_encrypt_block_def)

lemma cts_dec_cbc:
  assumes "length iv = 16"
  shows "CRYPTO_cts128_decrypt (cbc_mode enc dec) inp iv = CRYPTO_cts128_decrypt_block dec inp iv"
proof (cases "16 < length inp")
  case True
  then obtain xs l r where s: "inp = xs @ l @ r" "length xs mod 16 = 0" "length l = 16" "0 < length r" "length r \<le> 16"
    by (rule cts_split)
  obtain out iv1 where d: "(if xs \<noteq> [] then CRYPTO_cbc128_decrypt dec inp (length xs) iv else ([], iv)) = (out, iv1)"
    by force
  have "length (snd (CRYPTO_cbc128_decrypt dec inp (length xs) iv)) = 16"
    using cbc_decrypt_bytes [where block = dec and len = "length xs" and inp = inp, OF length_dec assms]
      cbc_dec_iv_length [OF assms s(2), of inp dec] s(1) by simp
  with d assms have iv1: "length iv1 = 16" by (auto split: if_splits)
  let ?x = "write_at (dec l) 0 r"
  have "length (dec l) = 16" using s(3) by (rule length_dec)
  with s(5) have x: "length ?x = 16" "write_at (dec l @ l) 0 r = ?x @ l" by (simp_all add: write_at_def)
  have lo: "length (xor_bytes (dec ?x) iv1) = 16" using x(1) iv1 by (simp add: length_dec)
  have hi: "take (length r) (xor_bytes (dec l) ?x) = xor_bytes (take (length r) (dec l)) r"
    using s(5) \<open>length (dec l) = 16\<close> by (simp add: take_xor_bytes write_at_def)
  have z: "xor_bytes (dec l) (replicate 16 0) = dec l"
    using \<open>length (dec l) = 16\<close> by (intro nth_equalityI) simp_all
  note parts = s(2-5) x lo hi z cbc_dec_one_block [of "replicate 16 0" "l @ r"]
    cbc_dec_two_blocks [OF iv1 x(1) s(3)] d [unfolded s(1)]
  show ?thesis
  proof (cases "xs = []")
    case True
    with parts cts_residue_app [of "[]" "length r"] show ?thesis
      by (simp add: CRYPTO_cts128_decrypt_def CRYPTO_cts128_decrypt_block_def cbc_mode_def Let_def s(1))
  next
    case False
    with parts show ?thesis
      by (simp add: CRYPTO_cts128_decrypt_def CRYPTO_cts128_decrypt_block_def cbc_mode_def Let_def s(1))
  qed
qed (simp add: CRYPTO_cts128_decrypt_def CRYPTO_cts128_decrypt_block_def)

lemma nistcts_enc_cbc:
  assumes "length iv = 16"
  shows "CRYPTO_nistcts128_encrypt (cbc_mode enc dec) inp iv = CRYPTO_nistcts128_encrypt_block enc inp iv"
proof (cases "16 < length inp \<and> length inp mod 16 \<noteq> 0")
  case True
  define xs r where "xs = take (length inp - length inp mod 16) inp" and "r = drop (length inp - length inp mod 16) inp"
  have "length xs = 16 * (length inp div 16)" "1 \<le> length inp div 16"
    using True by (simp_all add: xs_def minus_mod_eq_mult_div div_greater_zero_iff Suc_le_eq)
  then have s: "inp = xs @ r" "length r = length inp mod 16" "length xs mod 16 = 0" "16 \<le> length xs"
    by (simp_all add: xs_def r_def)
  obtain o1 iv1 where o1: "CRYPTO_cbc128_encrypt enc xs iv = (o1, iv1)" by force
  note b = cbc_enc_blocks(2,3) [OF s(3) assms _ o1, of "replicate 16 0"]
  have "xs = take (length inp - length inp mod 16) inp" by (rule xs_def)
  with s o1 b True show ?thesis
    by (simp add: CRYPTO_nistcts128_encrypt_def CRYPTO_nistcts128_encrypt_block_def cbc_mode_def Let_def
        r_def [symmetric] cbc_one_block xor_zero_pad)
next
  case False
  then show ?thesis
    by (auto simp: CRYPTO_nistcts128_encrypt_def CRYPTO_nistcts128_encrypt_block_def cbc_mode_def Let_def
        split: prod.split)
qed

lemma nistcts_dec_cbc:
  assumes "length iv = 16"
  shows "CRYPTO_nistcts128_decrypt (cbc_mode enc dec) inp iv = CRYPTO_nistcts128_decrypt_block dec inp iv"
proof (cases "16 < length inp \<and> length inp mod 16 \<noteq> 0")
  case True
  let ?R = "length inp mod 16" and ?n = "length inp - (16 + length inp mod 16)"
  define xs r z where "xs = take ?n inp" and "r = take ?R (drop ?n inp)" and "z = drop ?R (drop ?n inp)"
  obtain k where "length inp div 16 = Suc k" using True by (cases "length inp div 16") auto
  with mult_div_mod_eq [of 16 "length inp"] have n: "length inp = 16 * k + (16 + ?R)" by simp
  then have "?n = 16 * k" by linarith
  then have s: "length xs = ?n" "?n mod 16 = 0" "length r = ?R" "length z = 16" "?n \<le> length inp" "16 + ?R \<le> length inp"
    using n unfolding xs_def r_def z_def length_take length_drop by (linarith | simp)+
  have inp: "inp = xs @ r @ z" "drop ?n inp = r @ z"
    by (simp_all only: xs_def r_def z_def append_take_drop_id)
  obtain out iv1 where d: "(if ?n \<noteq> 0 then CRYPTO_cbc128_decrypt dec inp ?n iv else ([], iv)) = (out, iv1)"
    by force
  have "length (snd (CRYPTO_cbc128_decrypt dec inp ?n iv)) = 16"
    using cbc_decrypt_bytes [where block = dec and len = ?n and inp = inp, OF length_dec assms]
      cbc_dec_iv_length [OF assms s(2), of inp dec] by simp
  with d assms have iv1: "length iv1 = 16" by (auto split: if_splits)
  let ?x = "write_at (dec z) 0 r"
  have R: "?R < 16" by simp
  have dl: "length (dec z) = 16" using s(4) by (rule length_dec)
  with s(3) R have x: "length ?x = 16" "write_at (dec z @ z) 0 r = ?x @ z" by (simp_all add: write_at_def)
  have lo: "length (xor_bytes (dec ?x) iv1) = 16" using x(1) iv1 by (simp add: length_dec)
  have hi: "take ?R (xor_bytes (dec z) ?x) = xor_bytes (take ?R (dec z)) (r @ w)" for w
    using s(3) R dl by (intro nth_equalityI) (simp_all add: write_at_def nth_append)
  have 0: "xor_bytes (dec z) (replicate 16 0) = dec z" using dl by (intro nth_equalityI) simp_all
  have "CRYPTO_nistcts128_decrypt (cbc_mode enc dec) inp iv =
      Some (out @ xor_bytes (dec ?x) iv1 @ take ?R (xor_bytes (dec z) ?x), z)"
    using True d inp(2) s(3,4) R x lo 0 cbc_dec_one_block [of "replicate 16 0" z] cbc_dec_two_blocks [OF iv1 x(1) s(4)]
    by (cases "16 + ?R < length inp")
      (simp_all add: CRYPTO_nistcts128_decrypt_def cbc_mode_def Let_def del: drop_drop)
  moreover have "CRYPTO_nistcts128_decrypt_block dec inp iv =
      Some (out @ xor_bytes (dec ?x) iv1 @ xor_bytes (take ?R (dec z)) (r @ take (16 - ?R) z), z)"
    using True d inp(2) s(3,4) R
    by (cases "16 + ?R < length inp")
      (simp_all add: CRYPTO_nistcts128_decrypt_block_def Let_def del: drop_drop)
  ultimately show ?thesis by (simp add: hi)
next
  case False
  then show ?thesis
    by (auto simp: CRYPTO_nistcts128_decrypt_def CRYPTO_nistcts128_decrypt_block_def cbc_mode_def Let_def
        split: prod.split)
qed

end

text \<open>
  The four functions that take a CBC function compute, with the CBC mode of a cipher,
  what the four that take the block function compute, on every input.
\<close>

lemma cts_cbc_equal:
  assumes "block_cipher enc dec" and "length iv = 16"
  shows "CRYPTO_cts128_encrypt (cbc_mode enc dec) inp iv = CRYPTO_cts128_encrypt_block enc inp iv \<and>
    CRYPTO_cts128_decrypt (cbc_mode enc dec) inp iv = CRYPTO_cts128_decrypt_block dec inp iv \<and>
    CRYPTO_nistcts128_encrypt (cbc_mode enc dec) inp iv = CRYPTO_nistcts128_encrypt_block enc inp iv \<and>
    CRYPTO_nistcts128_decrypt (cbc_mode enc dec) inp iv = CRYPTO_nistcts128_decrypt_block dec inp iv"
  using block_cipher.cts_enc_cbc [OF assms] block_cipher.cts_dec_cbc [OF assms]
    block_cipher.nistcts_enc_cbc [OF assms] block_cipher.nistcts_dec_cbc [OF assms] by blast

theorem cts_cbc_equal_witness:
  "CRYPTO_cts128_encrypt (cbc_mode (SEED_encrypt (SEED_set_key (replicate 16 0))) (SEED_decrypt (SEED_set_key (replicate 16 0))))
     (replicate 21 7) (replicate 16 1) =
   CRYPTO_cts128_encrypt_block (SEED_encrypt (SEED_set_key (replicate 16 0))) (replicate 21 7) (replicate 16 1)"
  by (rule conjunct1 [OF cts_cbc_equal [OF seed.block_cipher_axioms]]) simp

end
