(* ===== verification/Key_Wrap.thy ===== *)
theory Key_Wrap
  imports Cbc
begin

text \<open>
  Key wrapping with a 128-bit block cipher (crypto/modes/wrap128.c): RFC 3394, and RFC 5649
  with padding. The result None stands for the return value 0. The buffers \<open>in\<close> and \<open>out\<close>
  are given by their contents; a loop that rewrites the 64-bit blocks behind the pointer
  \<open>R\<close> is a recursion over these blocks, in the direction of the loop.
\<close>

subsection \<open>RFC 3394\<close>

definition default_iv :: "byte list" where
  "default_iv = [0xA6, 0xA6, 0xA6, 0xA6, 0xA6, 0xA6, 0xA6, 0xA6]"

definition default_aiv :: "byte list" where
  "default_aiv = [0xA6, 0x59, 0x59, 0xA6]"

definition CRYPTO128_WRAP_MAX :: nat where
  "CRYPTO128_WRAP_MAX = 2 ^ 31"

text \<open>The counter \<open>t\<close> exclusive-ored into the last four bytes of \<open>A\<close>.\<close>

definition xor_counter :: "nat \<Rightarrow> byte list \<Rightarrow> byte list" where
  "xor_counter t A =
     (let A = A[7 := A ! 7 XOR word_of_nat t] in
      if 0xff < t
      then let A = A[6 := A ! 6 XOR word_of_nat (t div 2 ^ 8)];
               A = A[5 := A ! 5 XOR word_of_nat (t div 2 ^ 16)]
           in A[4 := A ! 4 XOR word_of_nat (t div 2 ^ 24)]
      else A)"

text \<open>The inner loop of \<open>CRYPTO_128_wrap\<close>: \<open>A\<close>, \<open>t\<close> and the blocks from \<open>R\<close> on.\<close>

function wrap_pass ::
  "(byte list \<Rightarrow> byte list) \<Rightarrow> byte list \<Rightarrow> nat \<Rightarrow> byte list \<Rightarrow> byte list \<times> nat \<times> byte list" where
  "wrap_pass block A t R =
     (if 8 \<le> length R
      then let B = block (A @ take 8 R);
               A = xor_counter t (take 8 B);
               (A, t, rest) = wrap_pass block A (t + 1) (drop 8 R)
           in (A, t, drop 8 B @ rest)
      else (A, t, R))"
  by pat_completeness auto
termination by (relation "measure (\<lambda>(block, A, t, R). length R)") auto

text \<open>The inner loop of \<open>crypto_128_unwrap_raw\<close>, which moves \<open>R\<close> downwards.\<close>

function unwrap_pass ::
  "(byte list \<Rightarrow> byte list) \<Rightarrow> byte list \<Rightarrow> nat \<Rightarrow> byte list \<Rightarrow> byte list \<times> nat \<times> byte list" where
  "unwrap_pass block A t out =
     (if 8 \<le> length out
      then let R = drop (length out - 8) out;
               B = block (xor_counter t A @ R);
               (A, t, front) = unwrap_pass block (take 8 B) (t - 1) (take (length out - 8) out)
           in (A, t, front @ drop 8 B)
      else (A, t, out))"
  by pat_completeness auto
termination by (relation "measure (\<lambda>(block, A, t, out). length out)") auto

declare wrap_pass.simps [simp del] unwrap_pass.simps [simp del]

text \<open>\<open>for (j = 0; j < 6; j++)\<close>, for one of the two passes.\<close>

fun passes ::
  "(byte list \<Rightarrow> nat \<Rightarrow> byte list \<Rightarrow> byte list \<times> nat \<times> byte list)
   \<Rightarrow> nat \<Rightarrow> byte list \<Rightarrow> nat \<Rightarrow> byte list \<Rightarrow> byte list \<times> nat \<times> byte list" where
  "passes p 0 A t R = (A, t, R)"
| "passes p (Suc j) A t R = (case p A t R of (A, t, R) \<Rightarrow> passes p j A t R)"

definition iv_or_default :: "byte list option \<Rightarrow> byte list" where
  "iv_or_default iv = (case iv of None \<Rightarrow> default_iv | Some v \<Rightarrow> take 8 v)"

definition CRYPTO_128_wrap ::
  "(byte list \<Rightarrow> byte list) \<Rightarrow> byte list option \<Rightarrow> byte list \<Rightarrow> byte list option" where
  "CRYPTO_128_wrap block iv inp =
     (let inlen = length inp in
      if inlen mod 8 \<noteq> 0 \<or> inlen < 16 \<or> inlen > CRYPTO128_WRAP_MAX then None
      else case passes (wrap_pass block) 6 (iv_or_default iv) 1 inp of
             (A, t, R) \<Rightarrow> Some (A @ R))"

text \<open>The unchecked initial value and the plain text. The subtraction wraps around.\<close>

definition crypto_128_unwrap_raw ::
  "(byte list \<Rightarrow> byte list) \<Rightarrow> byte list \<Rightarrow> (byte list \<times> byte list) option" where
  "crypto_128_unwrap_raw block inp =
     (let inlen = unat (word_of_nat (length inp) - 8 :: u64) in
      if inlen mod 8 \<noteq> 0 \<or> inlen < 16 \<or> inlen > CRYPTO128_WRAP_MAX then None
      else case passes (unwrap_pass block) 6 (take 8 inp) (6 * (inlen div 8)) (drop 8 inp) of
             (A, t, out) \<Rightarrow> Some (A, out))"

definition CRYPTO_128_unwrap ::
  "(byte list \<Rightarrow> byte list) \<Rightarrow> byte list option \<Rightarrow> byte list \<Rightarrow> byte list option" where
  "CRYPTO_128_unwrap block iv inp =
     (case crypto_128_unwrap_raw block inp of
        None \<Rightarrow> None
      | Some (got_iv, out) \<Rightarrow> if got_iv \<noteq> iv_or_default iv then None else Some out)"

subsection \<open>RFC 5649\<close>

definition aiv_or_default :: "byte list option \<Rightarrow> byte list" where
  "aiv_or_default icv = (case icv of None \<Rightarrow> default_aiv | Some v \<Rightarrow> take 4 v)"

text \<open>
  \<open>CRYPTO_128_wrap_pad\<close>: the return value and the output. The length goes through the
  \<open>int\<close> variable \<open>ret\<close> before it is returned as a \<open>size_t\<close>.
\<close>

definition size_via_int :: "nat \<Rightarrow> nat" where
  "size_via_int n = unat (scast (word_of_nat n :: u32) :: u64)"

definition CRYPTO_128_wrap_pad ::
  "(byte list \<Rightarrow> byte list) \<Rightarrow> byte list option \<Rightarrow> byte list \<Rightarrow> (nat \<times> byte list) option" where
  "CRYPTO_128_wrap_pad block icv inp =
     (let inlen = length inp;
          blocks_padded = (inlen + 7) div 8;
          padded_len = blocks_padded * 8;
          padding_len = padded_len - inlen
      in if inlen = 0 \<or> inlen \<ge> CRYPTO128_WRAP_MAX then None
         else let aiv = aiv_or_default icv @ store_be 4 (word_of_nat inlen :: u32) in
           if padded_len = 8
           then Some (16, block (aiv @ inp @ replicate padding_len 0))
           else (case CRYPTO_128_wrap block (Some aiv) (inp @ replicate padding_len 0) of
                   None \<Rightarrow> None
                 | Some out \<Rightarrow> Some (size_via_int (length out), out)))"

text \<open>\<open>CRYPTO_128_unwrap_pad\<close>: the plain text without its padding.\<close>

definition CRYPTO_128_unwrap_pad ::
  "(byte list \<Rightarrow> byte list) \<Rightarrow> byte list option \<Rightarrow> byte list \<Rightarrow> byte list option" where
  "CRYPTO_128_unwrap_pad block icv inp =
     (let inlen = length inp; n = inlen div 8 - 1 in
      if inlen mod 8 \<noteq> 0 \<or> inlen < 16 \<or> inlen \<ge> CRYPTO128_WRAP_MAX then None
      else case (if inlen = 16
                 then let out = block inp in Some (take 8 out, drop 8 out)
                 else crypto_128_unwrap_raw block inp) of
             None \<Rightarrow> None
           | Some (aiv, out) \<Rightarrow>
               if take 4 aiv \<noteq> aiv_or_default icv then None
               else let padded_len = length out;
                        ptext_len = unat (load_be (take 4 (drop 4 aiv)) :: u32)
                    in if 8 * (n - 1) \<ge> ptext_len \<or> ptext_len > 8 * n then None
                       else let padding_len = padded_len - ptext_len
                            in if take padding_len (drop ptext_len out) \<noteq> replicate padding_len 0
                               then None else Some (take ptext_len out))"

lemma iv_or_default_Some: "length v = 8 \<Longrightarrow> iv_or_default (Some v) = v"
  by (simp add: iv_or_default_def)

subsection \<open>Unwrapping inverts wrapping\<close>

lemma length_xor_counter [simp]: "length (xor_counter t A) = length A"
  by (simp add: xor_counter_def Let_def)

lemma xor_counter_involution [simp]: "length A = 8 \<Longrightarrow> xor_counter t (xor_counter t A) = A"
  by (simp add: xor_counter_def Let_def list_update_swap)

lemma wrap_pass_append:
  "length xs mod 8 = 0 \<Longrightarrow>
     wrap_pass block A t (xs @ ys) =
       (case wrap_pass block A t xs of (A, t, o1) \<Rightarrow>
          case wrap_pass block A t ys of (A, t, o2) \<Rightarrow> (A, t, o1 @ o2))"
proof (induction "length xs" arbitrary: xs A t rule: less_induct)
  case less
  show ?case
  proof (cases "xs = []")
    case True
    then show ?thesis by (simp add: wrap_pass.simps [of block A t "[]"] split: prod.split)
  next
    case False
    then have 8: "8 \<le> length xs" using less.prems
      by (metis length_0_conv less_eq_nat.simps(1) linorder_not_less mod_less)
    let ?B = "block (A @ take 8 xs)"
    have "wrap_pass block (xor_counter t (take 8 ?B)) (t + 1) (drop 8 xs @ ys) =
       (case wrap_pass block (xor_counter t (take 8 ?B)) (t + 1) (drop 8 xs) of (A, t, o1) \<Rightarrow>
          case wrap_pass block A t ys of (A, t, o2) \<Rightarrow> (A, t, o1 @ o2))"
      using 8 less.prems by (intro less.hyps) (simp_all add: le_mod_geq)
    with 8 show ?thesis
      by (simp add: wrap_pass.simps [of block A t "xs @ ys"] wrap_pass.simps [of block A t xs] Let_def
          split: prod.split)
  qed
qed

lemma wrap_pass_block:
  "length y = 8 \<Longrightarrow> wrap_pass block A t y =
     (xor_counter t (take 8 (block (A @ y))), t + 1, drop 8 (block (A @ y)))"
  by (simp add: wrap_pass.simps [of block A t y] wrap_pass.simps [of _ _ _ "[]"] Let_def)

lemma unwrap_pass_snoc:
  "length y = 8 \<Longrightarrow> unwrap_pass block A t (xs @ y) =
     (case unwrap_pass block (take 8 (block (xor_counter t A @ y))) (t - 1) xs of
        (A', t', front) \<Rightarrow> (A', t', front @ drop 8 (block (xor_counter t A @ y))))"
  by (simp add: unwrap_pass.simps [of block A t "xs @ y"] Let_def)

lemma passes_Suc_right:
  "passes p (Suc j) A t R = (case passes p j A t R of (A, t, R) \<Rightarrow> p A t R)"
proof (induction j arbitrary: A t R)
  case (Suc j)
  obtain A1 t1 R1 where "p A t R = (A1, t1, R1)" by (metis prod_cases3)
  then show ?case using Suc [of A1 t1 R1] by simp
qed (simp split: prod.split)

lemma split_last_block:
  assumes "length (xs :: byte list) mod 8 = 0" and "xs \<noteq> []"
  obtains ys y where "xs = ys @ y" "length y = 8" "length ys mod 8 = 0" "length xs = length ys + 8"
proof -
  have 8: "8 \<le> length xs" using assms by (metis length_0_conv linorder_not_less mod_less)
  then show thesis using assms
    by (intro that [of "take (length xs - 8) xs" "drop (length xs - 8) xs"]) (simp_all add: le_mod_geq)
qed

context block_cipher
begin

lemma unwrap_wrap_pass:
  "length xs mod 8 = 0 \<Longrightarrow> length A = 8 \<Longrightarrow> wrap_pass enc A t xs = (A', t', ys) \<Longrightarrow>
     length A' = 8 \<and> length ys = length xs \<and> t' = t + length xs div 8 \<and>
     unwrap_pass dec A' (t' - 1) ys = (A, t - 1, xs)"
proof (induction "length xs" arbitrary: xs A' t' ys rule: less_induct)
  case less
  show ?case
  proof (cases "xs = []")
    case True
    with less.prems show ?thesis by (auto simp: wrap_pass.simps unwrap_pass.simps)
  next
    case False
    obtain us y where xs: "xs = us @ y" "length y = 8" "length us mod 8 = 0" "length xs = length us + 8"
      by (rule split_last_block [OF less.prems(1) False])
    obtain A1 t1 o1 where w: "wrap_pass enc A t us = (A1, t1, o1)" by (metis prod_cases3)
    have "length us < length xs" using xs(4) by simp
    from less.hyps [OF this xs(3) less.prems(2) w]
    have ih: "length A1 = 8" "length o1 = length us" "t1 = t + length us div 8"
      "unwrap_pass dec A1 (t1 - 1) o1 = (A, t - 1, us)" by blast+
    let ?B = "enc (A1 @ y)"
    have B: "length ?B = 16" "dec ?B = A1 @ y" using ih(1) xs(2) by (simp_all add: length_enc dec_enc)
    have r: "A' = xor_counter t1 (take 8 ?B)" "t' = t1 + 1" "ys = o1 @ drop 8 ?B"
      using less.prems(3) w xs(1) wrap_pass_append [OF xs(3), of enc A t y] wrap_pass_block [OF xs(2), of enc A1 t1]
      by simp_all
    have "unwrap_pass dec A' (t' - 1) ys = (A, t - 1, us @ y)"
      unfolding r using B ih xs(2) by (subst unwrap_pass_snoc) simp_all
    moreover have "length A' = 8" "length ys = length xs" "t' = t + length xs div 8"
      using r ih(2,3) B(1) xs(4) by simp_all
    ultimately show ?thesis by (simp only: xs(1))
  qed
qed

lemma wrap_unwrap_pass:
  "length ys mod 8 = 0 \<Longrightarrow> length A' = 8 \<Longrightarrow> length ys div 8 \<le> u \<Longrightarrow> unwrap_pass dec A' u ys = (A, u', xs) \<Longrightarrow>
     length A = 8 \<and> length xs = length ys \<and> u' = u - length ys div 8 \<and>
     wrap_pass enc A (u' + 1) xs = (A', u + 1, ys)"
proof (induction "length ys" arbitrary: ys A' u A u' xs rule: less_induct)
  case less
  show ?case
  proof (cases "ys = []")
    case True
    with less.prems show ?thesis by (auto simp: wrap_pass.simps unwrap_pass.simps)
  next
    case False
    obtain us y where ys: "ys = us @ y" "length y = 8" "length us mod 8 = 0" "length ys = length us + 8"
      by (rule split_last_block [OF less.prems(1) False])
    let ?B = "dec (xor_counter u A' @ y)"
    have B: "length ?B = 16" "enc ?B = xor_counter u A' @ y"
      using less.prems(2) ys(2) by (simp_all add: length_dec enc_dec)
    obtain A1 u1 x1 where w: "unwrap_pass dec (take 8 ?B) (u - 1) us = (A1, u1, x1)" by (metis prod_cases3)
    have u: "0 < u" "length us div 8 \<le> u - 1" using less.prems(3) ys(4) by simp_all
    have "length us < length ys" "length (take 8 ?B) = 8" using ys(4) B(1) by simp_all
    from less.hyps [OF this(1) ys(3) this(2) u(2) w]
    have ih: "length A1 = 8" "length x1 = length us" "u1 = u - 1 - length us div 8"
      "wrap_pass enc A1 (u1 + 1) x1 = (take 8 ?B, u - 1 + 1, us)" by blast+
    have r: "A = A1" "u' = u1" "xs = x1 @ drop 8 ?B"
      using less.prems(4) w unwrap_pass_snoc [OF ys(2), of dec A' u us] ys(1) by simp_all
    have "wrap_pass enc A (u' + 1) xs = (A', u + 1, ys)"
      unfolding r using ih(4) u(1) wrap_pass_append [of x1 enc A1 "u1 + 1" "drop 8 ?B"] ih(2) ys(1,3) B less.prems(2)
      by (simp add: wrap_pass_block)
    moreover have "length A = 8" "length xs = length ys" "u' = u - length ys div 8"
      using r ih(1-3) B(1) ys(4) by simp_all
    ultimately show ?thesis by blast
  qed
qed

lemma unwrap_wrap_passes:
  "length xs mod 8 = 0 \<Longrightarrow> length A = 8 \<Longrightarrow> passes (wrap_pass enc) j A t xs = (A', t', ys) \<Longrightarrow>
     length A' = 8 \<and> length ys = length xs \<and> t' = t + j * (length xs div 8) \<and>
     passes (unwrap_pass dec) j A' (t' - 1) ys = (A, t - 1, xs)"
proof (induction j arbitrary: A' t' ys)
  case (Suc j)
  obtain A1 t1 o1 where w: "passes (wrap_pass enc) j A t xs = (A1, t1, o1)" by (metis prod_cases3)
  from Suc.IH [OF Suc.prems(1,2) w]
  have ih: "length A1 = 8" "length o1 = length xs" "t1 = t + j * (length xs div 8)"
    "passes (unwrap_pass dec) j A1 (t1 - 1) o1 = (A, t - 1, xs)" by blast+
  have p: "wrap_pass enc A1 t1 o1 = (A', t', ys)"
    using Suc.prems(3) w by (simp only: passes_Suc_right) simp
  have "length o1 mod 8 = 0" using ih(2) Suc.prems(1) by simp
  from unwrap_wrap_pass [OF this ih(1) p]
  have q: "length A' = 8" "length ys = length o1" "t' = t1 + length o1 div 8"
    "unwrap_pass dec A' (t' - 1) ys = (A1, t1 - 1, o1)" by blast+
  have "passes (unwrap_pass dec) (Suc j) A' (t' - 1) ys = (A, t - 1, xs)" using q(4) ih(4) by simp
  moreover have "t' = t + Suc j * (length xs div 8)" using q(3) ih(2,3) by simp
  ultimately show ?case using q(1,2) ih(2) by simp
qed simp

lemma wrap_unwrap_passes:
  "length ys mod 8 = 0 \<Longrightarrow> length A' = 8 \<Longrightarrow> j * (length ys div 8) \<le> u \<Longrightarrow>
     passes (unwrap_pass dec) j A' u ys = (A, u', xs) \<Longrightarrow>
     length A = 8 \<and> length xs = length ys \<and> u' = u - j * (length ys div 8) \<and>
     passes (wrap_pass enc) j A (u' + 1) xs = (A', u + 1, ys)"
proof (induction j arbitrary: A' u ys)
  case (Suc j)
  obtain A1 u1 x1 where w: "unwrap_pass dec A' u ys = (A1, u1, x1)" by (metis prod_cases3)
  have "length ys div 8 \<le> u" using Suc.prems(3) by simp
  from wrap_unwrap_pass [OF Suc.prems(1,2) this w]
  have s: "length A1 = 8" "length x1 = length ys" "u1 = u - length ys div 8"
    "wrap_pass enc A1 (u1 + 1) x1 = (A', u + 1, ys)" by blast+
  have p: "passes (unwrap_pass dec) j A1 u1 x1 = (A, u', xs)" using Suc.prems(4) w by simp
  have "length x1 mod 8 = 0" "j * (length x1 div 8) \<le> u1"
    using s(2,3) Suc.prems(1,3) by simp_all
  from Suc.IH [OF this(1) s(1) this(2) p]
  have q: "length A = 8" "length xs = length x1" "u' = u1 - j * (length x1 div 8)"
    "passes (wrap_pass enc) j A (u' + 1) xs = (A1, u1 + 1, x1)" by blast+
  have "passes (wrap_pass enc) (Suc j) A (u' + 1) xs = (A', u + 1, ys)"
    unfolding passes_Suc_right q(4) using s(4) by simp
  moreover have "u' = u - Suc j * (length ys div 8)" using q(3) s(2,3) by simp
  ultimately show ?case using q(1,2) s(2) by simp
qed simp

lemma unwrap_raw_wrap:
  assumes "length v = 8" and "length inp mod 8 = 0" "16 \<le> length inp" "length inp \<le> CRYPTO128_WRAP_MAX"
  shows "\<exists>out. CRYPTO_128_wrap enc (Some v) inp = Some out \<and> length out = length inp + 8 \<and>
    crypto_128_unwrap_raw dec out = Some (v, inp)"
proof -
  obtain A t R where w: "passes (wrap_pass enc) 6 v 1 inp = (A, t, R)" by (metis prod_cases3)
  from unwrap_wrap_passes [OF assms(2,1) w]
  have u: "length A = 8" "length R = length inp" "t = 1 + 6 * (length inp div 8)"
    "passes (unwrap_pass dec) 6 A (t - 1) R = (v, 1 - 1, inp)" by blast+
  have "unat (word_of_nat (length (A @ R)) - 8 :: u64) = length inp"
    using u(1,2) assms(4) by (simp add: CRYPTO128_WRAP_MAX_def unat_of_nat)
  then have "crypto_128_unwrap_raw dec (A @ R) = Some (v, inp)"
    using u assms by (simp add: crypto_128_unwrap_raw_def del: passes.simps)
  moreover have "CRYPTO_128_wrap enc (Some v) inp = Some (A @ R)"
    using w assms by (simp add: CRYPTO_128_wrap_def iv_or_default_def Let_def del: passes.simps)
  ultimately show ?thesis using u(1,2) by simp
qed

lemma wrap_unwrap_raw:
  assumes "crypto_128_unwrap_raw dec inp = Some (v, out)" and "length inp < 2 ^ 64"
  shows "CRYPTO_128_wrap enc (Some v) out = Some inp"
proof -
  let ?n = "unat (word_of_nat (length inp) - 8 :: u64)"
  have n: "?n mod 8 = 0" "16 \<le> ?n" "?n \<le> CRYPTO128_WRAP_MAX"
    using assms(1) by (simp_all add: crypto_128_unwrap_raw_def Let_def split: if_splits)
  have 8: "8 \<le> length inp"
  proof (rule ccontr)
    assume l: "\<not> 8 \<le> length inp"
    then have "length inp = 0 \<or> length inp = 1 \<or> length inp = 2 \<or> length inp = 3 \<or>
      length inp = 4 \<or> length inp = 5 \<or> length inp = 6 \<or> length inp = 7" by linarith
    with n(3) show False by (elim disjE) (simp_all add: CRYPTO128_WRAP_MAX_def unsigned_minus_1_eq_mask mask_eq_exp_minus_1)
  qed
  then have "word_of_nat (length inp) - 8 = (word_of_nat (length inp - 8) :: u64)" by (simp add: of_nat_diff)
  then have len: "?n = length inp - 8" using assms(2) by (simp add: unat_of_nat)
  obtain t where u: "passes (unwrap_pass dec) 6 (take 8 inp) (6 * (?n div 8)) (drop 8 inp) = (v, t, out)"
    using assms(1) n by (auto simp: crypto_128_unwrap_raw_def Let_def simp del: passes.simps split: prod.splits)
  have "length (drop 8 inp) mod 8 = 0" "length (take 8 inp) = 8" "6 * (length (drop 8 inp) div 8) \<le> 6 * (?n div 8)"
    using n(1) 8 by (simp_all add: len)
  from wrap_unwrap_passes [OF this u]
  have q: "length v = 8" "length out = length (drop 8 inp)" "t = 6 * (?n div 8) - 6 * (length (drop 8 inp) div 8)"
    "passes (wrap_pass enc) 6 v (t + 1) out = (take 8 inp, 6 * (?n div 8) + 1, drop 8 inp)" by blast+
  then have "length out = ?n" "t = 0" using len by simp_all
  with q n show ?thesis by (simp add: CRYPTO_128_wrap_def iv_or_default_def Let_def del: passes.simps)
qed

end

text \<open>
  C25: unwrapping accepts exactly the wrapped keys. A cipher text unwraps to a key if and
  only if wrapping that key gives the cipher text; every other one is rejected.
\<close>

lemma unwrap_iff_wrap:
  assumes "block_cipher enc dec" and "length (iv_or_default iv) = 8" and "length c < 2 ^ 64"
  shows "CRYPTO_128_unwrap dec iv c = Some p \<longleftrightarrow> CRYPTO_128_wrap enc iv p = Some c"
proof -
  have w: "CRYPTO_128_wrap enc iv p = CRYPTO_128_wrap enc (Some (iv_or_default iv)) p"
    unfolding CRYPTO_128_wrap_def iv_or_default_Some [OF assms(2)] ..
  show ?thesis
  proof
    assume "CRYPTO_128_unwrap dec iv c = Some p"
    then have "crypto_128_unwrap_raw dec c = Some (iv_or_default iv, p)"
      by (auto simp: CRYPTO_128_unwrap_def split: option.splits if_splits)
    from block_cipher.wrap_unwrap_raw [OF assms(1) this assms(3)] w
    show "CRYPTO_128_wrap enc iv p = Some c" by simp
  next
    assume a: "CRYPTO_128_wrap enc iv p = Some c"
    then have "length p mod 8 = 0" "16 \<le> length p" "length p \<le> CRYPTO128_WRAP_MAX"
      by (auto simp: CRYPTO_128_wrap_def Let_def split: if_splits)
    from block_cipher.unwrap_raw_wrap [OF assms(1,2) this] a w
    show "CRYPTO_128_unwrap dec iv c = Some p" by (auto simp: CRYPTO_128_unwrap_def)
  qed
qed

theorem unwrap_iff_wrap_witness:
  "CRYPTO_128_unwrap (SEED_decrypt (SEED_set_key (replicate 16 0))) None (replicate 24 7) = Some (replicate 16 5) \<longleftrightarrow>
   CRYPTO_128_wrap (SEED_encrypt (SEED_set_key (replicate 16 0))) None (replicate 16 5) = Some (replicate 24 7)"
  by (rule unwrap_iff_wrap [OF seed.block_cipher_axioms]) (simp_all add: iv_or_default_def default_iv_def)

subsection \<open>Wrapping with padding\<close>

lemma size_via_int_eq:
  "size_via_int n = nat ((((int n + 2 ^ 31) mod 2 ^ 32) - 2 ^ 31) mod 2 ^ 64)"
  by (simp add: size_via_int_def signed_of_nat signed_take_bit_eq_take_bit_shift unsigned_of_int
      take_bit_eq_mod del: of_int_diff)

lemma size_via_int_small: "n < 2 ^ 31 \<Longrightarrow> size_via_int n = n"
  by (simp add: size_via_int_eq)

lemma size_via_int_large:
  assumes "2 ^ 31 \<le> n" "n < 2 ^ 32"
  shows "size_via_int n = 2 ^ 64 - 2 ^ 32 + n"
proof -
  have "(int n + 2 ^ 31) mod 2 ^ 32 = int n - 2 ^ 31"
    using assms by (simp add: mod_pos_geq)
  moreover have "(int n - 2 ^ 31 - 2 ^ 31) mod 2 ^ 64 = int n - 2 ^ 32 + 2 ^ 64"
    using assms by (simp add: mod_pos_neg_trivial mod_add_self2 [symmetric, of "int n - 4294967296"]
        del: mod_add_self2)
  ultimately show ?thesis using assms by (simp add: size_via_int_eq)
qed

abbreviation padded_len :: "nat \<Rightarrow> nat" where
  "padded_len m \<equiv> (m + 7) div 8 * 8"

lemma padded_bounds:
  assumes "0 < m"
  shows "m \<le> padded_len m" "padded_len m < m + 8" "8 \<le> padded_len m"
  using assms by simp_all

lemma load_aiv: "m < 2 ^ 32 \<Longrightarrow> length a = 4 \<Longrightarrow>
   unat (load_be (take 4 (drop 4 (a @ store_be 4 (word_of_nat m :: u32)))) :: u32) = m"
  by (simp add: load_store_be unat_of_nat)

text \<open>The initial value and the padded plain text of a message.\<close>

definition pad_aiv :: "byte list option \<Rightarrow> byte list \<Rightarrow> byte list" where
  "pad_aiv icv inp = aiv_or_default icv @ store_be 4 (word_of_nat (length inp) :: u32)"

definition pad_text :: "byte list \<Rightarrow> byte list" where
  "pad_text inp = inp @ replicate (padded_len (length inp) - length inp) 0"

lemma length_pad_text: "0 < length inp \<Longrightarrow> length (pad_text inp) = padded_len (length inp)"
  using padded_bounds(1) [of "length inp"] by (simp add: pad_text_def)

lemma unwrap_pad_accepts:
  assumes "length (aiv_or_default icv) = 4" and "0 < length inp"
    and "length c = padded_len (length inp) + 8" and "length c < CRYPTO128_WRAP_MAX"
    and "(if length c = 16 then Some (take 8 (block c), drop 8 (block c)) else crypto_128_unwrap_raw block c) =
      Some (pad_aiv icv inp, pad_text inp)"
  shows "CRYPTO_128_unwrap_pad block icv c = Some inp"
proof -
  let ?m = "length inp"
  note b = padded_bounds [OF assms(2)]
  have m: "?m < 2 ^ 32" using assms(3,4) b(1) by (simp add: CRYPTO128_WRAP_MAX_def)
  have l: "unat (load_be (take 4 (drop 4 (pad_aiv icv inp))) :: u32) = ?m"
    unfolding pad_aiv_def by (rule load_aiv [OF m assms(1)])
  have a: "take 4 (pad_aiv icv inp) = aiv_or_default icv" using assms(1) by (simp add: pad_aiv_def)
  have n: "length c div 8 - 1 = (?m + 7) div 8" "8 * ((?m + 7) div 8 - 1) < ?m" "\<not> 8 * ((?m + 7) div 8) < ?m"
    using assms(3) b by simp_all
  have r: "length c mod 8 = 0" "16 \<le> length c" using assms(3) b(3) by simp_all
  have t: "take ?m (pad_text inp) = inp"
    "take (length (pad_text inp) - ?m) (drop ?m (pad_text inp)) = replicate (length (pad_text inp) - ?m) 0"
    by (simp_all add: pad_text_def)
  show ?thesis
    unfolding CRYPTO_128_unwrap_pad_def Let_def assms(5) option.case prod.case a l n(1)
    using assms(4) n r t by simp
qed

context block_cipher
begin

lemma wrap_pad_result:
  assumes "length (aiv_or_default icv) = 4" and "0 < length inp" "length inp < CRYPTO128_WRAP_MAX"
  shows "\<exists>out. CRYPTO_128_wrap_pad enc icv inp = Some (size_via_int (length out), out) \<and>
    length out = padded_len (length inp) + 8 \<and>
    (if length out = 16 then Some (take 8 (dec out), drop 8 (dec out)) else crypto_128_unwrap_raw dec out) =
      Some (pad_aiv icv inp, pad_text inp)"
proof -
  let ?p = "padded_len (length inp)"
  note b = padded_bounds [OF assms(2)] length_pad_text [OF assms(2)]
  have a: "length (pad_aiv icv inp) = 8" using assms(1) by (simp add: pad_aiv_def)
  have w: "CRYPTO_128_wrap_pad enc icv inp =
      (if ?p = 8 then Some (16, enc (pad_aiv icv inp @ pad_text inp))
       else (case CRYPTO_128_wrap enc (Some (pad_aiv icv inp)) (pad_text inp) of
               None \<Rightarrow> None | Some out \<Rightarrow> Some (size_via_int (length out), out)))"
    using assms(2,3) by (simp add: CRYPTO_128_wrap_pad_def Let_def pad_aiv_def pad_text_def)
  show ?thesis
  proof (cases "?p = 8")
    case True
    let ?out = "enc (pad_aiv icv inp @ pad_text inp)"
    have "length ?out = 16" "dec ?out = pad_aiv icv inp @ pad_text inp"
      using a b(4) True by (simp_all add: length_enc dec_enc)
    with True a w show ?thesis by (intro exI [of _ ?out]) (simp add: size_via_int_small)
  next
    case False
    have "?p mod 8 = 0" by simp
    moreover have "16 \<le> ?p" using b(3) False by presburger
    moreover have "?p \<le> CRYPTO128_WRAP_MAX"
      using assms(3) unfolding CRYPTO128_WRAP_MAX_def by simp
    ultimately obtain out where "CRYPTO_128_wrap enc (Some (pad_aiv icv inp)) (pad_text inp) = Some out"
      "length out = ?p + 8" "crypto_128_unwrap_raw dec out = Some (pad_aiv icv inp, pad_text inp)"
      using unwrap_raw_wrap [OF a, of "pad_text inp"] b(4) by auto
    with False w show ?thesis by simp
  qed
qed

end

text \<open>
  C34: a key of up to 2^31 - 16 bytes, wrapped with padding under any block cipher, unwraps to
  itself, and the returned length is that of the output.
\<close>

lemma wrap_pad_round_trip:
  assumes "block_cipher enc dec" and "length (aiv_or_default icv) = 4"
    and "0 < length inp" and "length inp \<le> 2 ^ 31 - 16"
  shows "\<exists>out. CRYPTO_128_wrap_pad enc icv inp = Some (length out, out) \<and>
    CRYPTO_128_unwrap_pad dec icv out = Some inp"
proof -
  have "padded_len (length inp) \<le> 2 ^ 31 - 16" using assms(4) by simp
  moreover from assms(4) have "length inp < CRYPTO128_WRAP_MAX" by (simp add: CRYPTO128_WRAP_MAX_def)
  from block_cipher.wrap_pad_result [OF assms(1-3) this] obtain out where o:
    "CRYPTO_128_wrap_pad enc icv inp = Some (size_via_int (length out), out)"
    "length out = padded_len (length inp) + 8"
    "(if length out = 16 then Some (take 8 (dec out), drop 8 (dec out)) else crypto_128_unwrap_raw dec out) =
      Some (pad_aiv icv inp, pad_text inp)" by blast
  ultimately have "length out < CRYPTO128_WRAP_MAX" by (simp add: CRYPTO128_WRAP_MAX_def)
  from unwrap_pad_accepts [OF assms(2,3) o(2) this o(3)] o(1) this show ?thesis
    by (simp add: size_via_int_small CRYPTO128_WRAP_MAX_def)
qed

theorem wrap_pad_round_trip_witness:
  "\<exists>out. CRYPTO_128_wrap_pad (SEED_encrypt (SEED_set_key (replicate 16 0))) None (replicate 20 7) = Some (length out, out) \<and>
    CRYPTO_128_unwrap_pad (SEED_decrypt (SEED_set_key (replicate 16 0))) None out = Some (replicate 20 7)"
  by (rule wrap_pad_round_trip [OF seed.block_cipher_axioms]) (simp_all add: aiv_or_default_def default_aiv_def)

text \<open>
  For longer inputs, which the check of the length lets through, the output length does
  not fit the \<open>int\<close> it is kept in: what is returned is larger than the output by
  2^64 - 2^32.
\<close>

lemma wrap_pad_length_overflow:
  assumes "block_cipher enc dec" and "length (aiv_or_default icv) = 4"
    and "2 ^ 31 - 16 < length inp" and "length inp < 2 ^ 31"
  shows "\<exists>out. CRYPTO_128_wrap_pad enc icv inp = Some (2 ^ 64 - 2 ^ 32 + length out, out)"
proof -
  from assms(3) have "0 < length inp" by linarith
  moreover from assms(4) have "length inp < CRYPTO128_WRAP_MAX" by (simp add: CRYPTO128_WRAP_MAX_def)
  ultimately have l: "0 < length inp" "length inp < CRYPTO128_WRAP_MAX" by blast+
  from block_cipher.wrap_pad_result [OF assms(1,2) l] obtain out where o:
    "CRYPTO_128_wrap_pad enc icv inp = Some (size_via_int (length out), out)"
    "length out = padded_len (length inp) + 8" by blast
  have "2 ^ 31 \<le> length out" "length out < 2 ^ 32" using assms(3,4) o(2) by simp_all
  with o(1) show ?thesis by (auto simp: size_via_int_large)
qed

theorem wrap_pad_length_overflow_witness:
  "\<exists>out. CRYPTO_128_wrap_pad (SEED_encrypt (SEED_set_key (replicate 16 0))) None (replicate (2 ^ 31 - 1) 0) =
    Some (2 ^ 64 - 2 ^ 32 + length out, out)"
  by (rule wrap_pad_length_overflow [OF seed.block_cipher_axioms])
    (simp_all add: aiv_or_default_def default_aiv_def)

end
