(* ===== verification/Lhash.thy ===== *)
theory Lhash
  imports Dev_Prelude "HOL-Library.Multiset"
begin

text \<open>
  The dynamic hash table of libcrypto (crypto/lhash/lhash.c): linear hashing, which splits
  or joins one bucket at a time. A bucket is the list of its nodes; a pointer to the
  pointer to a node is a bucket number with a position in the bucket. The outcomes of
  \<open>OPENSSL_malloc\<close> and \<open>OPENSSL_realloc\<close> are arguments. \<open>unsigned int\<close> values are natural
  numbers, reduced by \<open>c_uint\<close> where the code adds or multiplies; the counters are words.
\<close>

subsection \<open>State\<close>

record 'd lh_node =
  node_data :: 'd
  node_hash :: u64

record 'd lhash =
  b :: "'d lh_node list list"
  comp :: "'d \<Rightarrow> 'd \<Rightarrow> int"
  hash :: "'d \<Rightarrow> u64"
  num_nodes :: nat
  num_alloc_nodes :: nat
  p :: nat
  pmax :: nat
  up_load :: u64
  down_load :: u64
  num_items :: u64
  num_expands :: u64
  num_expand_reallocs :: u64
  num_contracts :: u64
  num_contract_reallocs :: u64
  num_hash_calls :: u32
  num_comp_calls :: u32
  num_insert :: u64
  num_replace :: u64
  num_delete :: u64
  num_no_delete :: u64
  num_retrieve :: u32
  num_retrieve_miss :: u32
  num_hash_comps :: u32
  error :: u32

definition MIN_NODES :: nat where "MIN_NODES = 16"
definition LH_LOAD_MULT :: u64 where "LH_LOAD_MULT = 256"

definition c_uint :: "nat \<Rightarrow> nat" where
  "c_uint n = n mod 2 ^ 32"

subsection \<open>The default hash and comparison\<close>

text \<open>
  A C string is a list of bytes, whose end or first zero byte ends the string; \<open>*c\<close> is a
  signed \<open>char\<close>. \<open>n\<close> is a \<open>long\<close>, kept as its 64 bits.
\<close>

fun strhash_loop :: "byte list \<Rightarrow> u64 \<Rightarrow> u64 \<Rightarrow> u64" where
  "strhash_loop [] n ret = ret"
| "strhash_loop (c # cs) n ret =
     (if c = 0 then ret
      else let v = n OR scast c;
               n = n + 0x100;
               r = unat ((drop_bit 2 v XOR v) AND 0x0f);
               ret = push_bit r ret OR drop_bit (32 - r) ret;
               ret = ret AND 0xFFFFFFFF;
               ret = ret XOR v * v
           in strhash_loop cs n ret)"

definition OPENSSL_LH_strhash :: "byte list \<Rightarrow> u64" where
  "OPENSSL_LH_strhash c =
     (if c = [] \<or> hd c = 0 then 0
      else let ret = strhash_loop c 0x100 0 in drop_bit 16 ret XOR ret)"

text \<open>\<open>strcmp\<close> of the C library: the sign of the first difference, bytes as \<open>unsigned char\<close>.\<close>

definition c_char :: "byte list \<Rightarrow> byte" where
  "c_char s = (case s of [] \<Rightarrow> 0 | c # _ \<Rightarrow> c)"

fun strcmp :: "byte list \<Rightarrow> byte list \<Rightarrow> int" where
  "strcmp [] t = - uint (c_char t)"
| "strcmp (c # s) t =
     (if c \<noteq> c_char t then uint c - uint (c_char t) else if c = 0 then 0 else strcmp s (tl t))"

subsection \<open>Operations\<close>

text \<open>\<open>cstr\<close> gives the bytes behind a data pointer, for the two defaults.\<close>

definition OPENSSL_LH_new ::
  "('d \<Rightarrow> byte list) \<Rightarrow> ('d \<Rightarrow> u64) option \<Rightarrow> ('d \<Rightarrow> 'd \<Rightarrow> int) option
   \<Rightarrow> bool \<Rightarrow> bool \<Rightarrow> bool \<Rightarrow> 'd lhash option" where
  "OPENSSL_LH_new cstr h c alloc_ok alloc_b_ok lock_ok =
     (if \<not> alloc_ok \<or> \<not> alloc_b_ok \<or> \<not> lock_ok then None
      else Some \<lparr>b = replicate MIN_NODES [],
        comp = (case c of None \<Rightarrow> \<lambda>x y. strcmp (cstr x) (cstr y) | Some c \<Rightarrow> c),
        hash = (case h of None \<Rightarrow> \<lambda>x. OPENSSL_LH_strhash (cstr x) | Some h \<Rightarrow> h),
        num_nodes = MIN_NODES div 2, num_alloc_nodes = MIN_NODES, p = 0, pmax = MIN_NODES div 2,
        up_load = 2 * LH_LOAD_MULT, down_load = LH_LOAD_MULT, num_items = 0,
        num_expands = 0, num_expand_reallocs = 0, num_contracts = 0, num_contract_reallocs = 0,
        num_hash_calls = 0, num_comp_calls = 0, num_insert = 0, num_replace = 0,
        num_delete = 0, num_no_delete = 0, num_retrieve = 0, num_retrieve_miss = 0,
        num_hash_comps = 0, error = 0\<rparr>)"

text \<open>
  The loop of \<open>getrn\<close> along a bucket: the position at which it stops, the nodes looked at
  and the calls of the comparison.
\<close>

fun chain_search ::
  "('d \<Rightarrow> 'd \<Rightarrow> int) \<Rightarrow> u64 \<Rightarrow> 'd \<Rightarrow> 'd lh_node list \<Rightarrow> nat \<times> nat \<times> nat" where
  "chain_search cf h data [] = (0, 0, 0)"
| "chain_search cf h data (n1 # ns) =
     (if node_hash n1 \<noteq> h
      then (case chain_search cf h data ns of (k, x, c) \<Rightarrow> (Suc k, Suc x, c))
      else if cf (node_data n1) data = 0 then (0, 1, 1)
      else (case chain_search cf h data ns of (k, x, c) \<Rightarrow> (Suc k, Suc x, Suc c)))"

definition bucket_of :: "'d lhash \<Rightarrow> u64 \<Rightarrow> nat" where
  "bucket_of lh h =
     (let nn = unat h mod pmax lh in if nn < p lh then unat h mod num_alloc_nodes lh else nn)"

text \<open>The new counters, the hash, the bucket and the position in it.\<close>

definition getrn :: "'d lhash \<Rightarrow> 'd \<Rightarrow> 'd lhash \<times> u64 \<times> nat \<times> nat" where
  "getrn lh data =
     (let h = hash lh data;
          lh = lh\<lparr>num_hash_calls := num_hash_calls lh + 1\<rparr>;
          nn = bucket_of lh h;
          (k, x, c) = chain_search (comp lh) h data (b lh ! nn)
      in (lh\<lparr>num_hash_comps := num_hash_comps lh + word_of_nat x,
             num_comp_calls := num_comp_calls lh + word_of_nat c\<rparr>, h, nn, k))"

text \<open>The loop of \<open>expand\<close>: what stays in the bucket, and the nodes moved to the new one.\<close>

fun split_chain ::
  "nat \<Rightarrow> nat \<Rightarrow> 'd lh_node list \<Rightarrow> 'd lh_node list \<Rightarrow> 'd lh_node list \<times> 'd lh_node list" where
  "split_chain nni pp [] n2 = ([], n2)"
| "split_chain nni pp (np # ns) n2 =
     (if unat (node_hash np) mod nni \<noteq> pp then split_chain nni pp ns (np # n2)
      else (case split_chain nni pp ns n2 of (n1, n2') \<Rightarrow> (np # n1, n2')))"

definition expand :: "bool \<Rightarrow> 'd lhash \<Rightarrow> bool \<times> 'd lhash" where
  "expand realloc_ok lh =
     (let nni = num_alloc_nodes lh; pp = p lh; pm = pmax lh;
          r = (if c_uint (pp + 1) \<ge> pm
               then let j = c_uint (nni * 2) in
                    if \<not> realloc_ok then Inl (lh\<lparr>error := error lh + 1\<rparr>)
                    else Inr (lh\<lparr>b := b lh @ replicate (j - nni) [], pmax := nni,
                                 num_alloc_nodes := j,
                                 num_expand_reallocs := num_expand_reallocs lh + 1, p := 0\<rparr>)
               else Inr (lh\<lparr>p := c_uint (p lh + 1)\<rparr>))
      in case r of
           Inl lh \<Rightarrow> (False, lh)
         | Inr lh \<Rightarrow>
             let lh = lh\<lparr>num_nodes := c_uint (num_nodes lh + 1), num_expands := num_expands lh + 1\<rparr>;
                 (n1, n2) = split_chain nni pp (b lh ! pp) []
             in (True, lh\<lparr>b := (b lh)[pp := n1, c_uint (pp + pm) := n2]\<rparr>))"

text \<open>When \<open>realloc\<close> fails, the nodes of the last bucket, already taken out, are lost.\<close>

definition contract :: "bool \<Rightarrow> 'd lhash \<Rightarrow> 'd lhash" where
  "contract realloc_ok lh =
     (let last = c_uint (p lh + pmax lh - 1);
          np = b lh ! last;
          lh = lh\<lparr>b := (b lh)[last := []]\<rparr>;
          r = (if p lh = 0
               then if \<not> realloc_ok then Inl (lh\<lparr>error := error lh + 1\<rparr>)
                    else Inr (lh\<lparr>num_contract_reallocs := num_contract_reallocs lh + 1,
                                 num_alloc_nodes := num_alloc_nodes lh div 2,
                                 pmax := pmax lh div 2, p := pmax lh div 2 - 1,
                                 b := take (pmax lh) (b lh)\<rparr>)
               else Inr (lh\<lparr>p := p lh - 1\<rparr>))
      in case r of
           Inl lh \<Rightarrow> lh
         | Inr lh \<Rightarrow>
             let lh = lh\<lparr>num_nodes := num_nodes lh - 1, num_contracts := num_contracts lh + 1\<rparr>
             in lh\<lparr>b := (b lh)[p lh := b lh ! p lh @ np]\<rparr>)"

text \<open>The second half of \<open>OPENSSL_LH_insert\<close>, after the table has been expanded.\<close>

definition lh_put :: "bool \<Rightarrow> 'd \<Rightarrow> 'd lhash \<Rightarrow> 'd option \<times> 'd lhash" where
  "lh_put malloc_ok data lh =
     (let (lh, h, nn, k) = getrn lh data; chain = b lh ! nn in
      if length chain \<le> k
      then if \<not> malloc_ok then (None, lh\<lparr>error := error lh + 1\<rparr>)
           else (None, lh\<lparr>b := (b lh)[nn := chain @ [\<lparr>node_data = data, node_hash = h\<rparr>]],
                          num_insert := num_insert lh + 1, num_items := num_items lh + 1\<rparr>)
      else (Some (node_data (chain ! k)),
            lh\<lparr>b := (b lh)[nn := chain[k := (chain ! k)\<lparr>node_data := data\<rparr>]],
               num_replace := num_replace lh + 1\<rparr>))"

definition OPENSSL_LH_insert :: "bool \<Rightarrow> bool \<Rightarrow> 'd \<Rightarrow> 'd lhash \<Rightarrow> 'd option \<times> 'd lhash" where
  "OPENSSL_LH_insert realloc_ok malloc_ok data lh =
     (let lh = lh\<lparr>error := 0\<rparr>;
          (ok, lh) = (if up_load lh \<le> num_items lh * LH_LOAD_MULT div word_of_nat (num_nodes lh)
                      then expand realloc_ok lh else (True, lh))
      in if \<not> ok then (None, lh) else lh_put malloc_ok data lh)"

definition OPENSSL_LH_delete :: "bool \<Rightarrow> 'd \<Rightarrow> 'd lhash \<Rightarrow> 'd option \<times> 'd lhash" where
  "OPENSSL_LH_delete realloc_ok data lh =
     (let lh = lh\<lparr>error := 0\<rparr>; (lh, h, nn, k) = getrn lh data; chain = b lh ! nn in
      if length chain \<le> k then (None, lh\<lparr>num_no_delete := num_no_delete lh + 1\<rparr>)
      else let ret = node_data (chain ! k);
               lh = lh\<lparr>b := (b lh)[nn := take k chain @ drop (k + 1) chain],
                       num_delete := num_delete lh + 1\<rparr>;
               lh = lh\<lparr>num_items := num_items lh - 1\<rparr>
           in (Some ret,
               if num_nodes lh > MIN_NODES
                  \<and> down_load lh \<ge> num_items lh * LH_LOAD_MULT div word_of_nat (num_nodes lh)
               then contract realloc_ok lh else lh))"

definition OPENSSL_LH_retrieve :: "'d \<Rightarrow> 'd lhash \<Rightarrow> 'd option \<times> 'd lhash" where
  "OPENSSL_LH_retrieve data lh =
     (let lh = lh\<lparr>error := 0\<rparr>; (lh, h, nn, k) = getrn lh data; chain = b lh ! nn in
      if length chain \<le> k then (None, lh\<lparr>num_retrieve_miss := num_retrieve_miss lh + 1\<rparr>)
      else (Some (node_data (chain ! k)), lh\<lparr>num_retrieve := num_retrieve lh + 1\<rparr>))"

text \<open>
  \<open>doall_util_fn\<close> with a callback that leaves the table alone: the buckets from the last
  to the first, and \<open>s\<close> is what the callback works on.
\<close>

definition doall_util_fn :: "('d \<Rightarrow> 's \<Rightarrow> 's) \<Rightarrow> 'd lhash \<Rightarrow> 's \<Rightarrow> 's" where
  "doall_util_fn func lh s =
     fold (\<lambda>chain. fold (\<lambda>a. func (node_data a)) chain) (rev (take (num_nodes lh) (b lh))) s"

definition OPENSSL_LH_num_items :: "'d lhash option \<Rightarrow> u64" where
  "OPENSSL_LH_num_items lh = (case lh of None \<Rightarrow> 0 | Some lh \<Rightarrow> num_items lh)"

definition OPENSSL_LH_set_down_load :: "u64 \<Rightarrow> 'd lhash \<Rightarrow> 'd lhash" where
  "OPENSSL_LH_set_down_load d lh = lh\<lparr>down_load := d\<rparr>"

subsection \<open>Sequences of operations\<close>

text \<open>The operations when all allocations succeed, and the same on a map.\<close>

datatype 'd lh_op = LhInsert (op_data: 'd) | LhDelete (op_data: 'd) | LhRetrieve (op_data: 'd)

fun lh_step :: "'d lh_op \<Rightarrow> 'd lhash \<Rightarrow> 'd option \<times> 'd lhash" where
  "lh_step (LhInsert d) lh = OPENSSL_LH_insert True True d lh"
| "lh_step (LhDelete d) lh = OPENSSL_LH_delete True d lh"
| "lh_step (LhRetrieve d) lh = OPENSSL_LH_retrieve d lh"

fun lh_run :: "'d lh_op list \<Rightarrow> 'd lhash \<Rightarrow> 'd option list \<times> 'd lhash" where
  "lh_run [] lh = ([], lh)"
| "lh_run (op # ops) lh =
     (let (r, lh) = lh_step op lh; (rs, lh) = lh_run ops lh in (r # rs, lh))"

fun map_step :: "('d \<Rightarrow> 'k) \<Rightarrow> 'd lh_op \<Rightarrow> ('k \<rightharpoonup> 'd) \<Rightarrow> 'k \<rightharpoonup> 'd" where
  "map_step key (LhInsert d) m = m(key d \<mapsto> d)"
| "map_step key (LhDelete d) m = m(key d := None)"
| "map_step key (LhRetrieve d) m = m"

fun map_run :: "('d \<Rightarrow> 'k) \<Rightarrow> 'd lh_op list \<Rightarrow> ('k \<rightharpoonup> 'd) \<Rightarrow> 'd option list \<times> ('k \<rightharpoonup> 'd)" where
  "map_run key [] m = ([], m)"
| "map_run key (op # ops) m =
     (let (rs, m') = map_run key ops (map_step key op m) in (m (key (op_data op)) # rs, m'))"

subsection \<open>The map a table stands for\<close>

text \<open>The nodes in some order, as pairs of key and data.\<close>

definition lh_entries :: "('d \<Rightarrow> 'k) \<Rightarrow> 'd lhash \<Rightarrow> ('k \<times> 'd) list" where
  "lh_entries key lh = map (\<lambda>n. (key (node_data n), node_data n)) (concat (b lh))"

definition lh_map :: "('d \<Rightarrow> 'k) \<Rightarrow> 'd lhash \<Rightarrow> 'k \<rightharpoonup> 'd" where
  "lh_map key lh = map_of (lh_entries key lh)"

text \<open>The sizes of linear hashing: \<open>p\<close> of the \<open>pmax\<close> buckets of this round are split.\<close>

definition sizes_ok :: "'d lhash \<Rightarrow> bool" where
  "sizes_ok lh \<longleftrightarrow> (\<exists>k. pmax lh = 8 * 2 ^ k) \<and> num_alloc_nodes lh = 2 * pmax lh \<and>
     p lh < pmax lh \<and> num_nodes lh = pmax lh + p lh \<and> length (b lh) = num_alloc_nodes lh \<and>
     num_alloc_nodes lh < 2 ^ 32"

definition placed :: "'d lhash \<Rightarrow> bool" where
  "placed lh \<longleftrightarrow> (\<forall>i < length (b lh). \<forall>n \<in> set (b lh ! i).
     node_hash n = hash lh (node_data n) \<and> bucket_of lh (hash lh (node_data n)) = i)"

definition lh_wf :: "('d \<Rightarrow> 'k) \<Rightarrow> 'd lhash \<Rightarrow> bool" where
  "lh_wf key lh \<longleftrightarrow> sizes_ok lh \<and> placed lh \<and> distinct (map fst (lh_entries key lh)) \<and>
     num_items lh = word_of_nat (length (lh_entries key lh))"

lemma mset_concat_update:
  "i < length bs \<Longrightarrow> mset (concat (bs[i := c])) + mset (bs ! i) = mset (concat bs) + mset c"
  by (induction bs arbitrary: i) (auto split: nat.split simp: ac_simps)

lemma mset_two_updates:
  assumes "i < length bs" and "j < length bs" and "i \<noteq> j" and "bs ! j = []"
    and "mset c + mset d = mset (bs ! i)"
  shows "mset (concat (bs[i := c, j := d])) = mset (concat bs)"
proof -
  have "mset (concat (bs[i := c, j := d])) = mset (concat (bs[i := c])) + mset d"
    using mset_concat_update [of j "bs[i := c]" d] assms(2-4) by simp
  also have "\<dots> + mset c = mset (concat (bs[i := c])) + mset (bs ! i)"
    by (simp flip: assms(5))
  also have "\<dots> = mset (concat bs) + mset c"
    using mset_concat_update [OF assms(1), of c] by simp
  finally show ?thesis by simp
qed

lemma mset_cancel: "X + mset (xs @ n # ys) = Y + mset (xs @ ys) \<Longrightarrow> Y = add_mset n X"
  by simp

lemma mset_join:
  assumes "i < length bs" and "j < length bs" and "i \<noteq> j"
  shows "mset (concat (bs[i := bs ! i @ bs ! j, j := []])) = mset (concat bs)"
proof -
  have "mset (concat (bs[i := bs ! i @ bs ! j, j := []])) + mset (bs ! j) =
      mset (concat (bs[i := bs ! i @ bs ! j]))"
    using mset_concat_update [of j "bs[i := bs ! i @ bs ! j]" "[]"] assms by simp
  moreover have "mset (concat (bs[i := bs ! i @ bs ! j])) + mset (bs ! i) =
      mset (concat bs) + mset (bs ! j) + mset (bs ! i)"
    using mset_concat_update [OF assms(1), of "bs ! i @ bs ! j"] by (simp add: ac_simps)
  ultimately show ?thesis by (metis add_right_cancel)
qed

lemma distinct_keys_mset: "mset xs = mset ys \<Longrightarrow> distinct (map fst xs) = distinct (map fst ys)"
  by (metis mset_eq_imp_distinct_iff mset_map)

lemma map_of_mset:
  assumes "distinct (map fst xs)" and "mset xs = mset ys"
  shows "map_of xs = map_of ys"
proof -
  have "distinct (map fst ys)" using distinct_keys_mset assms by blast
  with assms show ?thesis by (metis map_of_inject_set mset_eq_setD)
qed

lemma mod_double: "0 < m \<Longrightarrow> h mod (2 * m) = h mod m \<or> h mod (2 * m) = h mod m + (m :: nat)"
  by (metis add.commute add.right_neutral mod_mult2_eq mult.commute mult_0_right mult_1_right
      not_mod2_eq_Suc_0_eq_0 One_nat_def)

text \<open>The bucket of a hash for given sizes, and what a split changes.\<close>

definition bucket_index :: "nat \<Rightarrow> nat \<Rightarrow> nat \<Rightarrow> nat" where
  "bucket_index m pp h = (if h mod m < pp then h mod (2 * m) else h mod m)"

lemma bucket_of_index:
  "sizes_ok lh \<Longrightarrow> bucket_of lh h = bucket_index (pmax lh) (p lh) (unat h)"
  by (simp add: sizes_ok_def bucket_of_def bucket_index_def Let_def)

lemma bucket_index_less: "pp < m \<Longrightarrow> bucket_index m pp h < m + pp"
  using mod_double [of m h] mod_less_divisor [of m h]
  by (auto simp: bucket_index_def simp del: mod_less_divisor)

lemma bucket_index_split:
  assumes "pp < m"
  shows "(if Suc pp = m then bucket_index (2 * m) 0 h else bucket_index m (Suc pp) h) =
    (if bucket_index m pp h = pp then h mod (2 * m) else bucket_index m pp h)"
  using mod_double [of m h] mod_less_divisor [of m h] assms
  by (auto simp: bucket_index_def simp del: mod_less_divisor)

lemma bucket_index_at: "pp < m \<Longrightarrow> bucket_index m pp h = pp \<Longrightarrow> h mod (2 * m) = pp \<or> h mod (2 * m) = pp + m"
  using mod_double [of m h] mod_less_divisor [of m h]
  by (auto simp: bucket_index_def simp del: mod_less_divisor split: if_splits)

lemma bucket_of_less: "sizes_ok lh \<Longrightarrow> bucket_of lh h < num_nodes lh"
  using bucket_index_less [of "p lh" "pmax lh" "unat h"] bucket_of_index [of lh h]
  by (simp add: sizes_ok_def)

lemma bucket_of_length: "sizes_ok lh \<Longrightarrow> bucket_of lh h < length (b lh)"
  using bucket_of_less [of lh h] by (auto simp: sizes_ok_def)

lemma in_concat_nth: "n \<in> set (concat bs) \<longleftrightarrow> (\<exists>i < length bs. n \<in> set (bs ! i))"
  by (metis UN_iff in_set_conv_nth set_concat)

lemma placedD:
  "lh_wf key lh \<Longrightarrow> i < length (b lh) \<Longrightarrow> n \<in> set (b lh ! i) \<Longrightarrow>
     node_hash n = hash lh (node_data n) \<and> bucket_of lh (hash lh (node_data n)) = i"
  unfolding lh_wf_def placed_def by blast

lemma empty_buckets:
  assumes "lh_wf key lh" and "num_nodes lh \<le> i" and "i < length (b lh)"
  shows "b lh ! i = []"
  using assms placedD [OF assms(1,3)] bucket_of_less [of lh]
  by (metis leD lh_wf_def list.set_intros(1) neq_Nil_conv)

subsection \<open>Splitting and joining buckets\<close>

lemma split_chain_eq:
  "split_chain nni pp c n2 = (filter (\<lambda>n. unat (node_hash n) mod nni = pp) c,
     rev (filter (\<lambda>n. unat (node_hash n) mod nni \<noteq> pp) c) @ n2)"
  by (induction c arbitrary: n2) auto

lemma mset_filter_neg: "mset (filter P xs) + mset (filter (\<lambda>x. \<not> P x) xs) = mset xs"
  using multiset_partition [of "mset xs" P] by simp

lemma sizes_expand:
  assumes "sizes_ok lh" and "num_alloc_nodes lh < 2 ^ 31" and "expand True lh = (ok, lh')"
  shows "ok" "sizes_ok lh'" "num_nodes lh' = Suc (num_nodes lh)"
    "bucket_of lh' h = (if bucket_of lh h = p lh then unat h mod (2 * pmax lh) else bucket_of lh h)"
    "hash lh' = hash lh" "comp lh' = comp lh" "num_items lh' = num_items lh" "error lh' = error lh"
proof -
  obtain k where k: "pmax lh = 8 * 2 ^ k" "num_alloc_nodes lh = 2 * pmax lh" "p lh < pmax lh"
    "num_nodes lh = pmax lh + p lh" "length (b lh) = num_alloc_nodes lh"
    using assms(1) by (auto simp: sizes_ok_def)
  then have small: "c_uint (p lh + 1) = Suc (p lh)" "c_uint (num_alloc_nodes lh * 2) = num_alloc_nodes lh * 2"
    "c_uint (num_nodes lh + 1) = Suc (num_nodes lh)"
    using assms(2) by (simp_all add: c_uint_def)
  show "ok" "hash lh' = hash lh" "comp lh' = comp lh" "num_items lh' = num_items lh" "error lh' = error lh"
    and *: "num_nodes lh' = Suc (num_nodes lh)"
    using assms(3) small by (auto simp: expand_def Let_def split: if_splits prod.splits)
  have pm: "pmax lh' = (if Suc (p lh) = pmax lh then 2 * pmax lh else pmax lh)"
    "p lh' = (if Suc (p lh) = pmax lh then 0 else Suc (p lh))"
    "num_alloc_nodes lh' = 2 * pmax lh'" "length (b lh') = 2 * pmax lh'"
    using assms(3) k small by (auto simp: expand_def Let_def split: if_splits prod.splits)
  moreover have "\<exists>j. pmax lh' = 8 * 2 ^ j"
    using pm(1) k(1) by (cases "Suc (p lh) = pmax lh") (auto intro: exI [of _ "Suc k"])
  ultimately show ok: "sizes_ok lh'" unfolding sizes_ok_def using * k assms(2) by auto
  show "bucket_of lh' h = (if bucket_of lh h = p lh then unat h mod (2 * pmax lh) else bucket_of lh h)"
    using bucket_index_split [OF k(3), of "unat h"] pm(1,2)
    by (simp add: bucket_of_index ok assms(1) split: if_splits)
qed

lemma lh_wf_mset:
  assumes "lh_wf key lh" and "sizes_ok lh'" and "placed lh'"
    and "mset (concat (b lh')) = mset (concat (b lh))" and "num_items lh' = num_items lh"
  shows "lh_wf key lh'" and "lh_map key lh' = lh_map key lh"
proof -
  have m: "mset (lh_entries key lh') = mset (lh_entries key lh)"
    using assms(4) by (simp add: lh_entries_def mset_map [symmetric] del: mset_map mset_concat) simp
  then have "distinct (map fst (lh_entries key lh'))"
    using assms(1) by (metis lh_wf_def mset_eq_imp_distinct_iff mset_map)
  with m assms show "lh_wf key lh'" by (metis lh_wf_def size_mset)
  show "lh_map key lh' = lh_map key lh"
    using map_of_mset [OF _ m [symmetric]] assms(1) by (simp add: lh_map_def lh_wf_def)
qed

lemma expand_wf:
  assumes wf: "lh_wf key lh" and "num_alloc_nodes lh < 2 ^ 31" and e: "expand True lh = (ok, lh')"
  shows "lh_wf key lh'" and "lh_map key lh' = lh_map key lh"
proof -
  have sz: "sizes_ok lh" using wf by (simp add: lh_wf_def)
  note s = sizes_expand [OF this assms(2) e]
  let ?m = "pmax lh" and ?p = "p lh"
  let ?stay = "\<lambda>n. unat (node_hash n) mod (2 * ?m) = ?p"
  define bs where "bs = (if Suc ?p = ?m then b lh @ replicate (2 * ?m) [] else b lh)"
  have k: "num_alloc_nodes lh = 2 * ?m" "?p < ?m" "length (b lh) = 2 * ?m" "num_nodes lh = ?m + ?p"
    using sz by (auto simp: sizes_ok_def)
  then have small: "c_uint (?p + 1) = Suc ?p" "c_uint (?p + ?m) = ?p + ?m"
    "c_uint (2 * ?m * 2) = 2 * ?m * 2"
    using assms(2) by (simp_all add: c_uint_def)
  have bp: "bs ! ?p = b lh ! ?p" using k by (simp add: bs_def nth_append)
  have new: "bs ! (?p + ?m) = []"
    using empty_buckets [OF wf, of "?p + ?m"] k by (simp add: bs_def nth_append)
  have b': "b lh' = bs[?p := filter ?stay (b lh ! ?p), ?p + ?m := rev (filter (\<lambda>n. \<not> ?stay n) (b lh ! ?p))]"
  proof (cases "Suc ?p = ?m")
    case True
    with k small have "c_uint (Suc ?p) \<ge> ?m" "c_uint (num_alloc_nodes lh * 2) - num_alloc_nodes lh = 2 * ?m"
      by simp_all
    with True k small bp show ?thesis
      using e by (auto simp add: expand_def bs_def split_chain_eq Let_def)
  next
    case False
    with k small have "\<not> c_uint (Suc ?p) \<ge> ?m" by simp
    with False k small bp show ?thesis
      using e by (auto simp add: expand_def bs_def split_chain_eq Let_def)
  qed
  have len: "?p < length bs" "?p + ?m < length bs" using k by (auto simp: bs_def)
  have "mset (concat (b lh')) = mset (concat bs)"
    unfolding b' using len new k bp mset_filter_neg [of ?stay "b lh ! ?p"]
    by (intro mset_two_updates) simp_all
  then have m: "mset (concat (b lh')) = mset (concat (b lh))" by (simp add: bs_def)
  have "placed lh'" unfolding placed_def
  proof (intro allI impI ballI)
    fix i n assume i: "i < length (b lh')" and n: "n \<in> set (b lh' ! i)"
    have old: "node_hash n = hash lh (node_data n) \<and> bucket_of lh (hash lh (node_data n)) = j"
      if "n \<in> set (bs ! j)" "j < length bs" for j
      using that placedD [OF wf, of j n] k
      by (cases "j < length (b lh)") (auto simp: bs_def nth_append split: if_splits)
    consider "i = ?p" | "i = ?p + ?m" | "i \<noteq> ?p" "i \<noteq> ?p + ?m" by blast
    then show "node_hash n = hash lh' (node_data n) \<and> bucket_of lh' (hash lh' (node_data n)) = i"
    proof cases
      case 1
      with n len k have "n \<in> set (bs ! ?p)" "?stay n" by (auto simp: b' bp)
      with old [OF this(1) len(1)] 1 show ?thesis unfolding s(4,5) by metis
    next
      case 2
      with n len k have n': "n \<in> set (bs ! ?p)" "\<not> ?stay n" by (auto simp: b' bp)
      with bucket_index_at [OF k(2), of "unat (node_hash n)"] old [OF n'(1) len(1)]
        bucket_of_index [OF sz]
      have "unat (node_hash n) mod (2 * ?m) = ?p + ?m" by metis
      with old [OF n'(1) len(1)] 2 show ?thesis unfolding s(4,5) by metis
    next
      case 3
      with n i have "n \<in> set (bs ! i)" "i < length bs" by (auto simp: b')
      with old 3 show ?thesis unfolding s(4,5) by metis
    qed
  qed
  from lh_wf_mset [OF wf s(2) this m s(7)]
  show "lh_wf key lh'" and "lh_map key lh' = lh_map key lh" by auto
qed

lemma sizes_contract:
  assumes "sizes_ok lh" and "MIN_NODES < num_nodes lh" and "lh' = contract True lh"
  shows "sizes_ok lh'" "num_nodes lh' = num_nodes lh - 1"
    "bucket_of lh h = (if bucket_of lh' h = p lh' then unat h mod (2 * pmax lh') else bucket_of lh' h)"
    "hash lh' = hash lh" "comp lh' = comp lh" "num_items lh' = num_items lh" "error lh' = error lh"
    "b lh' = (take (2 * pmax lh') (b lh))[p lh' + pmax lh' := [],
       p lh' := b lh ! p lh' @ b lh ! (p lh' + pmax lh')]"
proof -
  obtain k where k: "pmax lh = 8 * 2 ^ k" "num_alloc_nodes lh = 2 * pmax lh" "p lh < pmax lh"
    "num_nodes lh = pmax lh + p lh" "length (b lh) = 2 * pmax lh" "2 * pmax lh < 2 ^ 32"
    using assms(1) by (auto simp: sizes_ok_def)
  then have last: "c_uint (p lh + pmax lh - 1) = p lh + pmax lh - 1" by (simp add: c_uint_def)
  show "hash lh' = hash lh" "comp lh' = comp lh" "num_items lh' = num_items lh" "error lh' = error lh"
    and *: "num_nodes lh' = num_nodes lh - 1"
    by (simp_all add: assms(3) contract_def Let_def)
  have "sizes_ok lh' \<and> (if Suc (p lh') = pmax lh' then pmax lh = 2 * pmax lh' \<and> p lh = 0
           else pmax lh = pmax lh' \<and> p lh = Suc (p lh')) \<and>
    b lh' = (take (2 * pmax lh') (b lh))[p lh' + pmax lh' := [],
       p lh' := b lh ! p lh' @ b lh ! (p lh' + pmax lh')]"
  proof (cases "p lh = 0")
    case True
    with k assms(2) obtain j where j: "k = Suc j" by (cases k) (auto simp: MIN_NODES_def)
    with k have "pmax lh div 2 = 8 * 2 ^ j" "0 < (8 * 2 ^ j :: nat)" by simp_all
    moreover from this have "16 * 2 ^ j - Suc 0 \<noteq> 8 * 2 ^ j - Suc 0" by linarith
    ultimately show ?thesis using True k j last
      by (auto simp: assms(3) contract_def sizes_ok_def Let_def take_update_swap nth_list_update)
  next
    case False
    with k last show ?thesis
      by (auto simp: assms(3) contract_def sizes_ok_def Let_def)
  qed
  then have ok: "sizes_ok lh'"
    and b': "b lh' = (take (2 * pmax lh') (b lh))[p lh' + pmax lh' := [],
       p lh' := b lh ! p lh' @ b lh ! (p lh' + pmax lh')]"
    and pm: "if Suc (p lh') = pmax lh' then pmax lh = 2 * pmax lh' \<and> p lh = 0
           else pmax lh = pmax lh' \<and> p lh = Suc (p lh')" by auto
  from ok b' show "sizes_ok lh'" and "b lh' = (take (2 * pmax lh') (b lh))[p lh' + pmax lh' := [],
       p lh' := b lh ! p lh' @ b lh ! (p lh' + pmax lh')]" by auto
  have "p lh' < pmax lh'" using ok by (simp add: sizes_ok_def)
  from bucket_index_split [OF this, of "unat h"] pm
  show "bucket_of lh h = (if bucket_of lh' h = p lh' then unat h mod (2 * pmax lh') else bucket_of lh' h)"
    by (simp add: bucket_of_index ok assms(1) split: if_splits)
qed

lemma contract_wf:
  assumes wf: "lh_wf key lh" and "MIN_NODES < num_nodes lh" and lh': "lh' = contract True lh"
  shows "lh_wf key lh'" and "lh_map key lh' = lh_map key lh"
proof -
  have sz: "sizes_ok lh" using wf by (simp add: lh_wf_def)
  note s = sizes_contract [OF this assms(2,3)]
  let ?m = "pmax lh'" and ?p = "p lh'"
  let ?bs = "take (2 * ?m) (b lh)"
  have k: "?p < ?m" "num_nodes lh = Suc (?m + ?p)" and len: "length (b lh') = 2 * ?m"
    using s(1,2) assms(2) by (auto simp: sizes_ok_def MIN_NODES_def)
  have "2 * ?m \<le> length (b lh)" using len unfolding s(8) by (simp add: min_def split: if_splits)
  note k = k this
  have "concat (b lh) = concat ?bs @ concat (drop (2 * ?m) (b lh))"
    by (simp flip: concat_append)
  moreover have "concat (drop (2 * ?m) (b lh)) = []"
    using empty_buckets [OF wf] k by (auto simp: in_set_conv_nth)
  ultimately have "mset (concat ?bs) = mset (concat (b lh))" by simp
  moreover have "mset (concat (b lh')) = mset (concat ?bs)"
  proof -
    have "b lh' = ?bs[?p := b lh ! ?p @ b lh ! (?p + ?m), ?p + ?m := []]"
      using k(1) by (subst list_update_swap) (simp_all add: s(8))
    then show ?thesis using mset_join [of ?p ?bs "?p + ?m"] k by simp
  qed
  ultimately have m: "mset (concat (b lh')) = mset (concat (b lh))" by simp
  have "placed lh'" unfolding placed_def
  proof (intro allI impI ballI)
    fix i n assume i: "i < length (b lh')" and n: "n \<in> set (b lh' ! i)"
    have old: "node_hash n = hash lh (node_data n) \<and> bucket_of lh (hash lh (node_data n)) = j"
      if "n \<in> set (b lh ! j)" "j < length (b lh)" for j
      using that placedD [OF wf, of j n] by blast
    consider "i = ?p" | "i = ?p + ?m" | "i \<noteq> ?p" "i \<noteq> ?p + ?m" by blast
    then show "node_hash n = hash lh' (node_data n) \<and> bucket_of lh' (hash lh' (node_data n)) = i"
    proof cases
      case 1
      with n k have "n \<in> set (b lh ! ?p) \<or> n \<in> set (b lh ! (?p + ?m))" by (auto simp: s(8))
      with old [of ?p] old [of "?p + ?m"] k
      have o: "node_hash n = hash lh (node_data n) \<and> bucket_of lh (hash lh (node_data n)) \<in> {?p, ?p + ?m}"
        by fastforce
      have "bucket_of lh' (node_hash n) < ?p + ?m"
        using bucket_of_less [OF s(1)] s(1) by (simp add: sizes_ok_def add.commute)
      with o s(3) [of "node_hash n"] 1 show ?thesis by (auto simp: s(4) split: if_splits)
    next
      case 2
      with n k show ?thesis by (simp add: s(8))
    next
      case 3
      with n i k have "n \<in> set (b lh ! i)" "i < length (b lh)" by (simp_all add: s(8))
      from old [OF this] have o: "node_hash n = hash lh (node_data n) \<and> bucket_of lh (hash lh (node_data n)) = i" .
      have "bucket_of lh' (node_hash n) = ?p \<Longrightarrow>
          unat (node_hash n) mod (2 * ?m) = ?p \<or> unat (node_hash n) mod (2 * ?m) = ?p + ?m"
        using bucket_index_at [OF k(1)] bucket_of_index [OF s(1)] by metis
      with o s(3) [of "node_hash n"] 3 show ?thesis by (auto simp: s(4) split: if_splits)
    qed
  qed
  from lh_wf_mset [OF wf s(1) this m s(6)]
  show "lh_wf key lh'" and "lh_map key lh' = lh_map key lh" by auto
qed

text \<open>Counters and the error flag are not part of the table.\<close>

lemma lh_frame [simp]:
  "lh_wf key (lh\<lparr>error := e\<rparr>) = lh_wf key lh" "lh_map key (lh\<lparr>error := e\<rparr>) = lh_map key lh"
  "lh_wf key (lh\<lparr>num_hash_calls := x\<rparr>) = lh_wf key lh" "lh_map key (lh\<lparr>num_hash_calls := x\<rparr>) = lh_map key lh"
  "lh_wf key (lh\<lparr>num_hash_comps := x\<rparr>) = lh_wf key lh" "lh_map key (lh\<lparr>num_hash_comps := x\<rparr>) = lh_map key lh"
  "lh_wf key (lh\<lparr>num_comp_calls := x\<rparr>) = lh_wf key lh" "lh_map key (lh\<lparr>num_comp_calls := x\<rparr>) = lh_map key lh"
  "lh_wf key (lh\<lparr>num_insert := y\<rparr>) = lh_wf key lh" "lh_map key (lh\<lparr>num_insert := y\<rparr>) = lh_map key lh"
  "lh_wf key (lh\<lparr>num_replace := y\<rparr>) = lh_wf key lh" "lh_map key (lh\<lparr>num_replace := y\<rparr>) = lh_map key lh"
  "lh_wf key (lh\<lparr>num_delete := y\<rparr>) = lh_wf key lh" "lh_map key (lh\<lparr>num_delete := y\<rparr>) = lh_map key lh"
  "lh_wf key (lh\<lparr>num_no_delete := y\<rparr>) = lh_wf key lh" "lh_map key (lh\<lparr>num_no_delete := y\<rparr>) = lh_map key lh"
  "lh_wf key (lh\<lparr>num_retrieve := x\<rparr>) = lh_wf key lh" "lh_map key (lh\<lparr>num_retrieve := x\<rparr>) = lh_map key lh"
  "lh_wf key (lh\<lparr>num_retrieve_miss := x\<rparr>) = lh_wf key lh"
  "lh_map key (lh\<lparr>num_retrieve_miss := x\<rparr>) = lh_map key lh"
  by (simp_all add: lh_wf_def sizes_ok_def placed_def bucket_of_def lh_map_def lh_entries_def
      cong: if_cong)

lemma lh_fields [simp]:
  "hash (contract r lh) = hash lh" "comp (contract r lh) = comp lh"
  "num_nodes (contract r lh) \<le> num_nodes lh"
  by (simp_all add: contract_def Let_def)

lemma getrn_cases:
  assumes "getrn lh d = (lh', h, nn, k)"
  obtains x y z where "lh' = lh\<lparr>num_hash_calls := x, num_hash_comps := y, num_comp_calls := z\<rparr>"
    "h = hash lh d" "nn = bucket_of lh (hash lh d)"
    "k = fst (chain_search (comp lh) (hash lh d) d (b lh ! nn))"
proof -
  have "bucket_of (lh\<lparr>num_hash_calls := x\<rparr>) = bucket_of lh" for x
    by (simp add: bucket_of_def fun_eq_iff cong: if_cong)
  with assms that show ?thesis by (auto simp: getrn_def Let_def split: prod.splits)
qed

lemma expand_no_realloc:
  "expand False lh = (ok, lh') \<Longrightarrow>
     \<not> ok \<and> lh' = lh\<lparr>error := error lh + 1\<rparr> \<or> expand True lh = (ok, lh')"
  by (auto simp: expand_def Let_def split: if_splits)

text \<open>A bucket replaced by another one that belongs in its place.\<close>

lemma update_bucket:
  assumes wf: "lh_wf key lh" and nn: "nn < length (b lh)"
    and c: "\<forall>n \<in> set c. node_hash n = hash lh (node_data n) \<and> bucket_of lh (hash lh (node_data n)) = nn"
    and lh': "lh' = lh\<lparr>b := (b lh)[nn := c], num_items := i\<rparr>"
  shows "sizes_ok lh'" "placed lh'"
    "mset (lh_entries key lh') + mset (map (\<lambda>n. (key (node_data n), node_data n)) (b lh ! nn)) =
     mset (lh_entries key lh) + mset (map (\<lambda>n. (key (node_data n), node_data n)) c)"
proof -
  show "sizes_ok lh'" using wf by (simp add: lh' lh_wf_def sizes_ok_def)
  show "placed lh'" unfolding placed_def
  proof (intro allI impI ballI)
    fix j n assume j: "j < length (b lh')" and n: "n \<in> set (b lh' ! j)"
    have "node_hash n = hash lh (node_data n) \<and> bucket_of lh (hash lh (node_data n)) = j"
    proof (cases "j = nn")
      case True
      with n nn have "n \<in> set c" by (simp add: lh')
      with c True show ?thesis by blast
    next
      case False
      with n j have "n \<in> set (b lh ! j)" "j < length (b lh)" by (simp_all add: lh')
      then show ?thesis using placedD [OF wf] by blast
    qed
    moreover have "hash lh' = hash lh" "bucket_of lh' = bucket_of lh"
      by (simp_all add: lh' bucket_of_def fun_eq_iff cong: if_cong)
    ultimately show "node_hash n = hash lh' (node_data n) \<and> bucket_of lh' (hash lh' (node_data n)) = j"
      by metis
  qed
  have "image_mset f (mset (concat (b lh'))) + image_mset f (mset (b lh ! nn)) =
      image_mset f (mset (concat (b lh))) + image_mset f (mset c)" for f :: "'a lh_node \<Rightarrow> 'b \<times> 'a"
    using mset_concat_update [OF nn, of c] by (simp add: lh' flip: image_mset_union)
  then show "mset (lh_entries key lh') + mset (map (\<lambda>n. (key (node_data n), node_data n)) (b lh ! nn)) =
     mset (lh_entries key lh) + mset (map (\<lambda>n. (key (node_data n), node_data n)) c)"
    by (simp add: lh_entries_def del: mset_concat)
qed

lemma lh_wf_entries:
  assumes "sizes_ok lh'" "placed lh'" "mset (lh_entries key lh') = mset es" "distinct (map fst es)"
    "num_items lh' = word_of_nat (length es)"
  shows "lh_wf key lh'" "lh_map key lh' = map_of es"
proof -
  have "distinct (map fst (lh_entries key lh'))"
    using assms(3,4) by (metis mset_eq_imp_distinct_iff mset_map)
  with assms show "lh_wf key lh'" by (metis lh_wf_def size_mset)
  from assms show "lh_map key lh' = map_of es"
    by (metis lh_map_def map_of_mset)
qed

locale hash_key =
  fixes key :: "'d \<Rightarrow> 'k" and cf :: "'d \<Rightarrow> 'd \<Rightarrow> int" and hf :: "'d \<Rightarrow> u64"
  assumes cf_key: "cf x y = 0 \<longleftrightarrow> key x = key y"
    and hf_key: "key x = key y \<Longrightarrow> hf x = hf y"
begin

lemma chain_search_takeWhile:
  assumes "\<forall>n \<in> set chain. node_hash n = hf (node_data n)"
  shows "fst (chain_search cf (hf d) d chain) = length (takeWhile (\<lambda>n. key (node_data n) \<noteq> key d) chain)"
  using assms by (induction chain) (auto simp: cf_key split: prod.split dest: hf_key)

lemma search_found:
  assumes "lh_wf key lh" and "hash lh = hf" and "comp lh = cf"
    and "nn = bucket_of lh (hf d)" and "k = fst (chain_search cf (hf d) d (b lh ! nn))"
    and "k < length (b lh ! nn)"
  shows "key (node_data (b lh ! nn ! k)) = key d"
    and "lh_map key lh (key d) = Some (node_data (b lh ! nn ! k))"
proof -
  have nn: "nn < length (b lh)"
    using assms(1,4) bucket_of_length by (auto simp: lh_wf_def)
  with assms(1,2) have "k = length (takeWhile (\<lambda>n. key (node_data n) \<noteq> key d) (b lh ! nn))"
    using chain_search_takeWhile [of "b lh ! nn"] assms(5) by (auto simp: lh_wf_def placed_def)
  with assms(6) show key: "key (node_data (b lh ! nn ! k)) = key d"
    by (metis (mono_tags, lifting) nth_length_takeWhile)
  have "b lh ! nn ! k \<in> set (concat (b lh))" using assms(6) nn in_concat_nth by (meson nth_mem)
  with key have "(key d, node_data (b lh ! nn ! k)) \<in> set (lh_entries key lh)"
    by (force simp: lh_entries_def)
  with assms(1) show "lh_map key lh (key d) = Some (node_data (b lh ! nn ! k))"
    by (simp add: lh_map_def lh_wf_def)
qed

lemma search_missing:
  assumes "lh_wf key lh" and "hash lh = hf" and "comp lh = cf"
    and "nn = bucket_of lh (hf d)" and "k = fst (chain_search cf (hf d) d (b lh ! nn))"
    and "length (b lh ! nn) \<le> k"
  shows "lh_map key lh (key d) = None" and "key d \<notin> fst ` set (lh_entries key lh)"
proof -
  have nn: "nn < length (b lh)"
    using assms(1,4) bucket_of_length by (auto simp: lh_wf_def)
  with assms(1,2) have "k = length (takeWhile (\<lambda>n. key (node_data n) \<noteq> key d) (b lh ! nn))"
    using chain_search_takeWhile [of "b lh ! nn"] assms(5) by (auto simp: lh_wf_def placed_def)
  with assms(6) have here: "\<forall>n \<in> set (b lh ! nn). key (node_data n) \<noteq> key d"
    by (metis (mono_tags, lifting) length_takeWhile_le le_antisym takeWhile_eq_all_conv
        takeWhile_eq_take take_all_iff)
  have "\<forall>n \<in> set (concat (b lh)). key (node_data n) \<noteq> key d"
  proof
    fix n assume "n \<in> set (concat (b lh))"
    then obtain i where i: "i < length (b lh)" "n \<in> set (b lh ! i)"
      unfolding in_concat_nth by blast
    with placedD [OF assms(1) i] assms(2) have "bucket_of lh (hf (node_data n)) = i" by metis
    with here i assms(4) hf_key show "key (node_data n) \<noteq> key d" by metis
  qed
  then show "key d \<notin> fst ` set (lh_entries key lh)" by (fastforce simp: lh_entries_def)
  then show "lh_map key lh (key d) = None" by (simp add: lh_map_def map_of_eq_None_iff)
qed

text \<open>Where the search stops, and the other entries.\<close>

lemma search_split:
  assumes wf: "lh_wf key lh" and hc: "hash lh = hf" "comp lh = cf" and nn: "nn = bucket_of lh (hf d)"
    and k: "k = fst (chain_search cf (hf d) d (b lh ! nn))" "k < length (b lh ! nn)"
  obtains xs n ys es where "b lh ! nn = xs @ n # ys" "k = length xs" "key (node_data n) = key d"
    "node_hash n = hf d" "mset (lh_entries key lh) = mset ((key d, node_data n) # es)"
    "mset (map (\<lambda>n. (key (node_data n), node_data n)) (xs @ ys)) + mset (lh_entries key lh) =
       mset es + mset (map (\<lambda>n. (key (node_data n), node_data n)) (b lh ! nn))"
    "lh_map key lh = map_of ((key d, node_data n) # es)" "distinct (map fst ((key d, node_data n) # es))"
proof -
  let ?f = "\<lambda>n. (key (node_data n), node_data n)" and ?xs = "take k (b lh ! nn)"
    and ?n = "b lh ! nn ! k" and ?ys = "drop (Suc k) (b lh ! nn)"
  have len: "nn < length (b lh)" using wf nn bucket_of_length by (auto simp: lh_wf_def)
  have c: "b lh ! nn = ?xs @ ?n # ?ys" using k(2) by (simp add: id_take_nth_drop)
  have key: "key (node_data ?n) = key d" using search_found(1) [OF wf hc nn k] .
  define es where "es = map ?f (concat ((b lh)[nn := ?xs @ ?ys]))"
  have "mset (concat ((b lh)[nn := ?xs @ ?ys])) + mset (?xs @ ?n # ?ys) = mset (concat (b lh)) + mset (?xs @ ?ys)"
    using mset_concat_update [OF len, of "?xs @ ?ys"] c by metis
  then have e: "mset (concat (b lh)) = add_mset ?n (mset (concat ((b lh)[nn := ?xs @ ?ys])))"
    by (rule mset_cancel)
  then have m: "mset (lh_entries key lh) = mset ((key d, node_data ?n) # es)"
    using key by (simp add: lh_entries_def es_def del: mset_concat)
  have "mset (map ?f (?xs @ ?ys)) + mset (lh_entries key lh) = mset es + mset (map ?f (?xs @ ?n # ?ys))"
    unfolding m using key by simp
  moreover have "distinct (map fst ((key d, node_data ?n) # es))"
    using m wf by (metis lh_wf_def mset_eq_imp_distinct_iff mset_map)
  moreover have "lh_map key lh = map_of ((key d, node_data ?n) # es)"
    using map_of_mset [OF _ m] wf by (simp add: lh_map_def lh_wf_def)
  moreover have "node_hash ?n = hf d"
    using placedD [OF wf len, of ?n] k(2) hc(1) hf_key [OF key] by simp
  ultimately show ?thesis
    using that [of ?xs ?n ?ys es] m c key k(2) by simp
qed

lemma insert_new:
  assumes wf: "lh_wf key lh" and hc: "hash lh = hf" "comp lh = cf" and nn: "nn = bucket_of lh (hf d)"
    and k: "k = fst (chain_search cf (hf d) d (b lh ! nn))" "length (b lh ! nn) \<le> k"
    and lh': "lh' = lh\<lparr>b := (b lh)[nn := b lh ! nn @ [\<lparr>node_data = d, node_hash = hf d\<rparr>]],
      num_items := num_items lh + 1\<rparr>"
  shows "lh_wf key lh'" "lh_map key lh (key d) = None" "lh_map key lh' = (lh_map key lh)(key d \<mapsto> d)"
proof -
  note miss = search_missing [OF wf hc nn k]
  show "lh_map key lh (key d) = None" by (rule miss(1))
  have len: "nn < length (b lh)" using wf nn bucket_of_length by (auto simp: lh_wf_def)
  have "\<forall>n \<in> set (b lh ! nn @ [\<lparr>node_data = d, node_hash = hf d\<rparr>]).
      node_hash n = hash lh (node_data n) \<and> bucket_of lh (hash lh (node_data n)) = nn"
    using placedD [OF wf len] hc nn by auto
  note u = update_bucket [OF wf len this lh']
  then have "mset (lh_entries key lh') = mset ((key d, d) # lh_entries key lh)" by simp
  from lh_wf_entries [OF u(1,2) this]
  show "lh_wf key lh'" "lh_map key lh' = (lh_map key lh)(key d \<mapsto> d)"
    using miss(2) wf by (simp_all add: lh' lh_wf_def lh_map_def image_image add.commute)
qed

lemma insert_replace:
  assumes wf: "lh_wf key lh" and hc: "hash lh = hf" "comp lh = cf" and nn: "nn = bucket_of lh (hf d)"
    and k: "k = fst (chain_search cf (hf d) d (b lh ! nn))" "k < length (b lh ! nn)"
    and lh': "lh' = lh\<lparr>b := (b lh)[nn := (b lh ! nn)[k := (b lh ! nn ! k)\<lparr>node_data := d\<rparr>]]\<rparr>"
  shows "lh_wf key lh'" "lh_map key lh (key d) = Some (node_data (b lh ! nn ! k))"
    "lh_map key lh' = (lh_map key lh)(key d \<mapsto> d)"
proof -
  obtain xs n ys es where s: "b lh ! nn = xs @ n # ys" "k = length xs" "key (node_data n) = key d"
    "node_hash n = hf d" "mset (lh_entries key lh) = mset ((key d, node_data n) # es)"
    "mset (map (\<lambda>n. (key (node_data n), node_data n)) (xs @ ys)) + mset (lh_entries key lh) =
       mset es + mset (map (\<lambda>n. (key (node_data n), node_data n)) (b lh ! nn))"
    "lh_map key lh = map_of ((key d, node_data n) # es)" "distinct (map fst ((key d, node_data n) # es))"
    by (rule search_split [OF wf hc nn k])
  from s(1,2,7) show "lh_map key lh (key d) = Some (node_data (b lh ! nn ! k))" by simp
  have len: "nn < length (b lh)" using wf nn bucket_of_length by (auto simp: lh_wf_def)
  have new: "(b lh ! nn)[k := (b lh ! nn ! k)\<lparr>node_data := d\<rparr>] = xs @ n\<lparr>node_data := d\<rparr> # ys"
    using s(1,2) by simp
  have "\<forall>m \<in> set (xs @ n\<lparr>node_data := d\<rparr> # ys).
      node_hash m = hash lh (node_data m) \<and> bucket_of lh (hash lh (node_data m)) = nn"
    using placedD [OF wf len] hc nn s(1,4) by auto
  moreover have "lh' = lh\<lparr>b := (b lh)[nn := xs @ n\<lparr>node_data := d\<rparr> # ys], num_items := num_items lh\<rparr>"
    using lh' new by simp
  ultimately have u: "sizes_ok lh'" "placed lh'"
    "mset (lh_entries key lh') + mset (map (\<lambda>n. (key (node_data n), node_data n)) (b lh ! nn)) =
     mset (lh_entries key lh) +
       mset (map (\<lambda>n. (key (node_data n), node_data n)) (xs @ n\<lparr>node_data := d\<rparr> # ys))"
    using update_bucket [OF wf len] by blast+
  from u(3) have "mset (lh_entries key lh') = mset ((key d, d) # es)" using s(1,3,5) by simp
  note u = u(1,2) this
  have "length (lh_entries key lh) = Suc (length es)" using s(5) by (metis length_Cons size_mset)
  with wf have "num_items lh' = word_of_nat (length ((key d, d) # es))" by (simp add: lh' lh_wf_def)
  from lh_wf_entries [OF u _ this]
  show "lh_wf key lh'" "lh_map key lh' = (lh_map key lh)(key d \<mapsto> d)"
    using s(7,8) by (simp_all add: fun_upd_twist)
qed

lemma delete_found:
  assumes wf: "lh_wf key lh" and hc: "hash lh = hf" "comp lh = cf" and nn: "nn = bucket_of lh (hf d)"
    and k: "k = fst (chain_search cf (hf d) d (b lh ! nn))" "k < length (b lh ! nn)"
    and lh': "lh' = lh\<lparr>b := (b lh)[nn := take k (b lh ! nn) @ drop (k + 1) (b lh ! nn)],
      num_items := num_items lh - 1\<rparr>"
  shows "lh_wf key lh'" "lh_map key lh (key d) = Some (node_data (b lh ! nn ! k))"
    "lh_map key lh' = (lh_map key lh)(key d := None)"
proof -
  obtain xs n ys es where s: "b lh ! nn = xs @ n # ys" "k = length xs" "key (node_data n) = key d"
    "node_hash n = hf d" "mset (lh_entries key lh) = mset ((key d, node_data n) # es)"
    "mset (map (\<lambda>n. (key (node_data n), node_data n)) (xs @ ys)) + mset (lh_entries key lh) =
       mset es + mset (map (\<lambda>n. (key (node_data n), node_data n)) (b lh ! nn))"
    "lh_map key lh = map_of ((key d, node_data n) # es)" "distinct (map fst ((key d, node_data n) # es))"
    by (rule search_split [OF wf hc nn k])
  from s(1,2,7) show "lh_map key lh (key d) = Some (node_data (b lh ! nn ! k))" by simp
  have len: "nn < length (b lh)" using wf nn bucket_of_length by (auto simp: lh_wf_def)
  have "\<forall>m \<in> set (xs @ ys). node_hash m = hash lh (node_data m) \<and> bucket_of lh (hash lh (node_data m)) = nn"
    using placedD [OF wf len] s(1) by auto
  moreover have "lh' = lh\<lparr>b := (b lh)[nn := xs @ ys], num_items := num_items lh - 1\<rparr>"
    using lh' s(1,2) by simp
  ultimately have u: "sizes_ok lh'" "placed lh'"
    "mset (lh_entries key lh') + mset (map (\<lambda>n. (key (node_data n), node_data n)) (b lh ! nn)) =
     mset (lh_entries key lh) + mset (map (\<lambda>n. (key (node_data n), node_data n)) (xs @ ys))"
    using update_bucket [OF wf len] by blast+
  from u(3) have "mset (lh_entries key lh') = mset es" using s(1,3,5) by simp
  note u = u(1,2) this
  have "length (lh_entries key lh) = Suc (length es)" using s(5) by (metis length_Cons size_mset)
  with wf have "num_items lh' = word_of_nat (length es)" by (simp add: lh' lh_wf_def)
  from lh_wf_entries [OF u _ this]
  show "lh_wf key lh'" "lh_map key lh' = (lh_map key lh)(key d := None)"
    using s(7,8) by (simp_all add: fun_upd_idem map_of_eq_None_iff)
qed

text \<open>The three operations, with every outcome of the allocations.\<close>

lemma insert_prepare:
  assumes wf: "lh_wf key lh" and "num_alloc_nodes lh < 2 ^ 31"
    and e: "(if c then expand r lh else (True, lh)) = (ok, lh')"
  shows "\<not> ok \<and> \<not> r \<and> lh' = lh\<lparr>error := error lh + 1\<rparr> \<or>
    ok \<and> lh_wf key lh' \<and> lh_map key lh' = lh_map key lh \<and> hash lh' = hash lh \<and> comp lh' = comp lh \<and>
    error lh' = error lh \<and> num_nodes lh' \<le> Suc (num_nodes lh)"
proof (cases c)
  case False
  with e wf show ?thesis by simp
next
  case True
  have sz: "sizes_ok lh" using wf by (simp add: lh_wf_def)
  have *: ?thesis if "expand True lh = (ok, lh')"
    using sizes_expand [OF sz assms(2) that] expand_wf [OF wf assms(2) that] by simp
  show ?thesis
  proof (cases r)
    case True
    with \<open>c\<close> e * show ?thesis by simp
  next
    case False
    with \<open>c\<close> e have "expand False lh = (ok, lh')" by simp
    from expand_no_realloc [OF this] False * show ?thesis by blast
  qed
qed

lemma put_spec:
  assumes wf: "lh_wf key lh" and hc: "hash lh = hf" "comp lh = cf" and e: "error lh = 0"
    and i: "lh_put m d lh = (res, lh')"
  shows "lh_wf key lh' \<and> hash lh' = hf \<and> comp lh' = cf \<and> num_nodes lh' = num_nodes lh \<and>
    (if error lh' = 0 then res = lh_map key lh (key d) \<and> lh_map key lh' = (lh_map key lh)(key d \<mapsto> d)
     else \<not> m \<and> res = None \<and> lh_map key lh' = lh_map key lh)"
proof -
  obtain lh2 h nn k where g: "getrn lh d = (lh2, h, nn, k)" by (metis prod_cases4)
  then obtain x y z where lh2: "lh2 = lh\<lparr>num_hash_calls := x, num_hash_comps := y, num_comp_calls := z\<rparr>"
    and gn: "h = hash lh d" "nn = bucket_of lh (hash lh d)"
    "k = fst (chain_search (comp lh) (hash lh d) d (b lh ! nn))"
    by (rule getrn_cases)
  note gn = gn [unfolded hc]
  let ?node = "\<lparr>node_data = d, node_hash = hf d\<rparr>"
  show ?thesis
  proof (cases "length (b lh ! nn) \<le> k")
    case True
    note new = insert_new [OF wf hc gn(2,3) True refl]
    show ?thesis
    proof (cases m)
      case False
      with True i g lh2 e have "res = None" "lh' = lh2\<lparr>error := 1\<rparr>"
        by (simp_all add: lh_put_def)
      with False wf hc show ?thesis by (simp add: lh2)
    next
      case m: True
      let ?new = "lh\<lparr>b := (b lh)[nn := b lh ! nn @ [?node]], num_items := num_items lh + 1\<rparr>"
      from m True i g gn(1) have "res = None" "lh' = ?new\<lparr>num_hash_calls := x, num_hash_comps := y,
          num_comp_calls := z, num_insert := num_insert lh + 1\<rparr>"
        by (auto simp add: lh_put_def lh2)
      with new hc e show ?thesis by simp
    qed
  next
    case False
    then have k: "k < length (b lh ! nn)" by simp
    note old = insert_replace [OF wf hc gn(2,3) k refl]
    let ?new = "lh\<lparr>b := (b lh)[nn := (b lh ! nn)[k := (b lh ! nn ! k)\<lparr>node_data := d\<rparr>]]\<rparr>"
    from False i g have "res = Some (node_data (b lh ! nn ! k))" "lh' = ?new\<lparr>num_hash_calls := x,
        num_hash_comps := y, num_comp_calls := z, num_replace := num_replace lh + 1\<rparr>"
      by (auto simp add: lh_put_def lh2 Let_def)
    with old hc e show ?thesis by simp
  qed
qed

lemma insert_spec:
  assumes wf: "lh_wf key lh" and hc: "hash lh = hf" "comp lh = cf" and "num_alloc_nodes lh < 2 ^ 31"
    and i: "OPENSSL_LH_insert r m d lh = (res, lh')"
  shows "lh_wf key lh' \<and> hash lh' = hf \<and> comp lh' = cf \<and> num_nodes lh' \<le> Suc (num_nodes lh) \<and>
    (if error lh' = 0 then res = lh_map key lh (key d) \<and> lh_map key lh' = (lh_map key lh)(key d \<mapsto> d)
     else (\<not> r \<or> \<not> m) \<and> res = None \<and> lh_map key lh' = lh_map key lh)"
proof -
  let ?lh = "lh\<lparr>error := 0\<rparr>"
  define c where "c \<longleftrightarrow> up_load ?lh \<le> num_items ?lh * LH_LOAD_MULT div word_of_nat (num_nodes ?lh)"
  obtain ok lh1 where e: "(if c then expand r ?lh else (True, ?lh)) = (ok, lh1)" by force
  have i': "(res, lh') = (if \<not> ok then (None, lh1) else lh_put m d lh1)"
    using i e unfolding c_def by (simp add: OPENSSL_LH_insert_def)
  have wf0: "lh_wf key ?lh" "num_alloc_nodes ?lh < 2 ^ 31" using wf assms(4) by simp_all
  from insert_prepare [OF wf0 e] show ?thesis
  proof
    assume "\<not> ok \<and> \<not> r \<and> lh1 = ?lh\<lparr>error := error ?lh + 1\<rparr>"
    with i' wf hc show ?thesis by simp
  next
    assume *: "ok \<and> lh_wf key lh1 \<and> lh_map key lh1 = lh_map key ?lh \<and> hash lh1 = hash ?lh \<and>
      comp lh1 = comp ?lh \<and> error lh1 = error ?lh \<and> num_nodes lh1 \<le> Suc (num_nodes ?lh)"
    with i' have "lh_put m d lh1 = (res, lh')" by simp
    with * hc put_spec [of lh1 m d res lh'] show ?thesis by (auto split: if_splits)
  qed
qed

lemma retrieve_spec:
  assumes wf: "lh_wf key lh" and hc: "hash lh = hf" "comp lh = cf"
    and i: "OPENSSL_LH_retrieve d lh = (res, lh')"
  shows "lh_wf key lh' \<and> hash lh' = hf \<and> comp lh' = cf \<and> num_nodes lh' = num_nodes lh \<and>
    error lh' = 0 \<and> res = lh_map key lh (key d) \<and> lh_map key lh' = lh_map key lh"
proof -
  let ?lh = "lh\<lparr>error := 0\<rparr>"
  have wf0: "lh_wf key ?lh" "hash ?lh = hf" "comp ?lh = cf" using wf hc by simp_all
  obtain lh2 h nn k where g: "getrn ?lh d = (lh2, h, nn, k)" by (metis prod_cases4)
  then obtain x y z where lh2: "lh2 = ?lh\<lparr>num_hash_calls := x, num_hash_comps := y, num_comp_calls := z\<rparr>"
    and gn: "h = hash ?lh d" "nn = bucket_of ?lh (hash ?lh d)"
    "k = fst (chain_search (comp ?lh) (hash ?lh d) d (b ?lh ! nn))"
    by (rule getrn_cases)
  note gn = gn [unfolded wf0]
  show ?thesis
  proof (cases "length (b ?lh ! nn) \<le> k")
    case True
    with search_missing(1) [OF wf0 gn(2,3)] i g wf hc show ?thesis
      by (auto simp: OPENSSL_LH_retrieve_def lh2)
  next
    case False
    then have "k < length (b ?lh ! nn)" by simp
    with search_found(2) [OF wf0 gn(2,3) this] i g wf hc show ?thesis
      by (auto simp: OPENSSL_LH_retrieve_def lh2)
  qed
qed

lemma delete_spec:
  assumes wf: "lh_wf key lh" and hc: "hash lh = hf" "comp lh = cf"
    and i: "OPENSSL_LH_delete True d lh = (res, lh')"
  shows "lh_wf key lh' \<and> hash lh' = hf \<and> comp lh' = cf \<and> num_nodes lh' \<le> num_nodes lh \<and>
    error lh' = 0 \<and> res = lh_map key lh (key d) \<and> lh_map key lh' = (lh_map key lh)(key d := None)"
proof -
  let ?lh = "lh\<lparr>error := 0\<rparr>"
  have wf0: "lh_wf key ?lh" "hash ?lh = hf" "comp ?lh = cf" using wf hc by simp_all
  obtain lh2 h nn k where g: "getrn ?lh d = (lh2, h, nn, k)" by (metis prod_cases4)
  then obtain x y z where lh2: "lh2 = ?lh\<lparr>num_hash_calls := x, num_hash_comps := y, num_comp_calls := z\<rparr>"
    and gn: "h = hash ?lh d" "nn = bucket_of ?lh (hash ?lh d)"
    "k = fst (chain_search (comp ?lh) (hash ?lh d) d (b ?lh ! nn))"
    by (rule getrn_cases)
  note gn = gn [unfolded wf0]
  show ?thesis
  proof (cases "length (b ?lh ! nn) \<le> k")
    case True
    with search_missing(1) [OF wf0 gn(2,3)] i g wf hc show ?thesis
      by (auto simp: OPENSSL_LH_delete_def lh2 fun_upd_idem)
  next
    case False
    then have k: "k < length (b ?lh ! nn)" by simp
    define t where "t = ?lh\<lparr>b := (b ?lh)[nn := take k (b ?lh ! nn) @ drop (k + 1) (b ?lh ! nn)],
        num_items := num_items ?lh - 1\<rparr>"
    note del = delete_found [OF wf0 gn(2,3) k t_def]
    define lh3 where "lh3 = lh2\<lparr>b := (b lh)[nn := take k (b lh ! nn) @ drop (k + 1) (b lh ! nn)],
        num_delete := num_delete lh + 1, num_items := num_items lh - 1\<rparr>"
    have lh3: "lh3 = t\<lparr>num_hash_calls := x, num_hash_comps := y, num_comp_calls := z,
        num_delete := num_delete lh + 1\<rparr>"
      by (simp add: lh3_def t_def lh2)
    have t: "lh_wf key lh3" "lh_map key lh3 = (lh_map key lh)(key d := None)" "hash lh3 = hf"
      "comp lh3 = cf" "num_nodes lh3 = num_nodes lh" "error lh3 = 0"
      using del hc by (simp_all add: lh3) (simp_all add: t_def)
    have res: "res = lh_map key lh (key d)"
      "lh' = (if num_nodes lh3 > MIN_NODES \<and> down_load lh3 \<ge>
                num_items lh3 * LH_LOAD_MULT div word_of_nat (num_nodes lh3)
              then contract True lh3 else lh3)"
      using False i g del(2) by (auto simp: OPENSSL_LH_delete_def lh2 lh3_def Let_def)
    show ?thesis
    proof (cases "lh' = lh3")
      case True
      with t res(1) show ?thesis by simp
    next
      case False
      with res(2) have c: "MIN_NODES < num_nodes lh3" "lh' = contract True lh3"
        by (auto split: if_splits)
      have "sizes_ok lh3" using t(1) by (simp add: lh_wf_def)
      from contract_wf [OF t(1) c] sizes_contract [OF this c] t res(1) show ?thesis by simp
    qed
  qed
qed

lemma run_refines:
  assumes "lh_wf key lh" and "hash lh = hf" and "comp lh = cf"
    and "num_nodes lh + length ops < 2 ^ 30"
  shows "fst (lh_run ops lh) = fst (map_run key ops (lh_map key lh)) \<and>
    lh_map key (snd (lh_run ops lh)) = snd (map_run key ops (lh_map key lh)) \<and>
    lh_wf key (snd (lh_run ops lh))"
  using assms
proof (induction ops arbitrary: lh)
  case (Cons op ops)
  obtain r lh1 where st: "lh_step op lh = (r, lh1)" by force
  have "num_alloc_nodes lh < 2 ^ 31"
    using Cons.prems(1,4) by (auto simp: lh_wf_def sizes_ok_def)
  with Cons.prems(1-3) st
  have *: "lh_wf key lh1 \<and> hash lh1 = hf \<and> comp lh1 = cf \<and> num_nodes lh1 \<le> Suc (num_nodes lh) \<and>
      r = lh_map key lh (key (op_data op)) \<and> lh_map key lh1 = map_step key op (lh_map key lh)"
    by (cases op)
      (auto dest: insert_spec [rotated 4] delete_spec [rotated 3] retrieve_spec [rotated 3] split: if_splits)
  with Cons.prems(4) have "num_nodes lh1 + length ops < 2 ^ 30" by simp
  with Cons.IH [of lh1] * st show ?case by (simp add: case_prod_beta)
qed simp

end

subsection \<open>Tables of C strings\<close>

text \<open>The bytes up to the first zero byte.\<close>

definition c_string :: "byte list \<Rightarrow> byte list" where
  "c_string s = takeWhile (\<lambda>c. c \<noteq> 0) s"

lemma c_string_simps [simp]:
  "c_string [] = []" "c_string (c # s) = (if c = 0 then [] else c # c_string s)"
  by (simp_all add: c_string_def)

lemma uint_eq: "uint x = uint y \<longleftrightarrow> x = y"
  by (simp add: word_uint_eq_iff)

lemma strcmp_eq: "strcmp s t = 0 \<longleftrightarrow> c_string s = c_string t"
proof (induction s t rule: strcmp.induct)
  case (1 t)
  show ?case by (cases t) (simp_all add: c_char_def uint_0_iff)
next
  case (2 c s t)
  then show ?case by (cases t) (simp_all add: c_char_def uint_eq uint_0_iff)
qed

lemma strhash_loop_c_string: "strhash_loop (c_string s) n r = strhash_loop s n r"
  by (induction s arbitrary: n r) (simp_all add: Let_def)

lemma strhash_c_string: "c_string s = c_string t \<Longrightarrow> OPENSSL_LH_strhash s = OPENSSL_LH_strhash t"
proof -
  have "OPENSSL_LH_strhash (c_string s) = OPENSSL_LH_strhash s" for s
    by (cases s) (simp_all add: OPENSSL_LH_strhash_def Let_def strhash_loop_c_string)
  then show "c_string s = c_string t \<Longrightarrow> OPENSSL_LH_strhash s = OPENSSL_LH_strhash t" by metis
qed

interpretation c_strings: hash_key "\<lambda>d. c_string (cstr d)" "\<lambda>x y. strcmp (cstr x) (cstr y)"
  "\<lambda>d. OPENSSL_LH_strhash (cstr d)" for cstr :: "'d \<Rightarrow> byte list"
  by unfold_locales (auto simp: strcmp_eq intro: strhash_c_string)

lemma new_wf:
  assumes "OPENSSL_LH_new cstr h c True True True = Some lh"
  shows "lh_wf key lh" "lh_map key lh = Map.empty" "num_nodes lh = 8"
  using assms
  by (auto simp: OPENSSL_LH_new_def lh_wf_def sizes_ok_def placed_def lh_map_def lh_entries_def
      MIN_NODES_def nth_replicate intro!: exI [of _ 0])

text \<open>
  C5: A table created with the default hash and comparison behaves as a map whose keys are C
  strings: every operation returns what is stored under the string of its argument, and
  insertion and deletion change that entry and no other, through all expansions and
  contractions of the table, if the allocations succeed and there are fewer than
  \<open>2 ^ 30 - 8\<close> operations.
\<close>

theorem lhash_refines_map:
  assumes "OPENSSL_LH_new cstr None None True True True = Some lh"
    and "length ops < 2 ^ 30 - 8"
  shows "fst (lh_run ops lh) = fst (map_run (\<lambda>d. c_string (cstr d)) ops Map.empty) \<and>
    lh_map (\<lambda>d. c_string (cstr d)) (snd (lh_run ops lh)) =
      snd (map_run (\<lambda>d. c_string (cstr d)) ops Map.empty)"
proof -
  have "hash lh = (\<lambda>d. OPENSSL_LH_strhash (cstr d))" "comp lh = (\<lambda>x y. strcmp (cstr x) (cstr y))"
    using assms(1) by (auto simp: OPENSSL_LH_new_def)
  from c_strings.run_refines [OF new_wf(1) [OF assms(1)] this, of ops] assms(2)
    new_wf(2) [OF assms(1), of "\<lambda>d. c_string (cstr d)"] new_wf(3) [OF assms(1)]
  show ?thesis by simp
qed



text \<open>Six operations on a table of strings, with a second item under the same string.\<close>

theorem lhash_refines_map_witness:
  "\<exists>lh. OPENSSL_LH_new fst None None True True True = Some lh \<and>
    fst (lh_run [LhInsert ([97], 1), LhRetrieve ([97, 0, 5], 0), LhInsert ([97], 2), LhRetrieve ([98], 0),
      LhDelete ([97], 0), LhRetrieve ([97], 0)] lh) =
    [None, Some ([97], 1), Some ([97], 1), None, Some ([97], 2 :: nat), None]"
proof -
  let ?ops = "[LhInsert ([97], 1), LhRetrieve ([97, 0, 5], 0), LhInsert ([97], 2), LhRetrieve ([98], 0),
      LhDelete ([97], 0), LhRetrieve ([97], 0 :: nat)]"
  obtain lh :: "(byte list \<times> nat) lhash" where lh: "OPENSSL_LH_new fst None None True True True = Some lh"
    by (simp add: OPENSSL_LH_new_def)
  from lhash_refines_map [OF this, of ?ops]
  have "fst (lh_run ?ops lh) = [None, Some ([97], 1), Some ([97], 1), None, Some ([97], 2), None]"
    by simp
  with lh show ?thesis by blast
qed

text \<open>
  C38: What an insertion does for every outcome of the two allocations: without an error it
  returns the item stored before under the same string and replaces that entry only; with
  an error, which needs a failed allocation, it returns NULL and the table holds what it
  held before. The table stays well-formed.
\<close>

theorem insert_outcome:
  assumes "lh_wf (\<lambda>d. c_string (cstr d)) lh" and "num_alloc_nodes lh < 2 ^ 31"
    and "hash lh = (\<lambda>d. OPENSSL_LH_strhash (cstr d))" and "comp lh = (\<lambda>x y. strcmp (cstr x) (cstr y))"
    and "OPENSSL_LH_insert realloc_ok malloc_ok d lh = (res, lh')"
  shows "lh_wf (\<lambda>d. c_string (cstr d)) lh' \<and>
    (if error lh' = 0
     then res = lh_map (\<lambda>d. c_string (cstr d)) lh (c_string (cstr d)) \<and>
       lh_map (\<lambda>d. c_string (cstr d)) lh' = (lh_map (\<lambda>d. c_string (cstr d)) lh)(c_string (cstr d) \<mapsto> d)
     else (\<not> realloc_ok \<or> \<not> malloc_ok) \<and> res = None \<and>
       lh_map (\<lambda>d. c_string (cstr d)) lh' = lh_map (\<lambda>d. c_string (cstr d)) lh)"
  using c_strings.insert_spec [OF assms(1,3,4,2,5)] by blast

text \<open>The first item of a new table.\<close>

theorem insert_outcome_witness:
  "\<exists>lh lh'. OPENSSL_LH_new id None None True True True = Some lh \<and>
    OPENSSL_LH_insert True True [97] lh = (None, lh') \<and>
    lh_wf (\<lambda>d. c_string (id d)) lh' \<and> lh_map (\<lambda>d. c_string (id d)) lh' = [[97] \<mapsto> [97]]"
proof -
  obtain lh :: "byte list lhash" where lh: "OPENSSL_LH_new id None None True True True = Some lh"
    by (simp add: OPENSSL_LH_new_def)
  note new = new_wf(1,2) [OF lh, of "\<lambda>d. c_string (id d)"]
  have f: "hash lh = (\<lambda>d. OPENSSL_LH_strhash (id d))" "comp lh = (\<lambda>x y. strcmp (id x) (id y))"
    "num_alloc_nodes lh < 2 ^ 31"
    using lh by (auto simp: OPENSSL_LH_new_def MIN_NODES_def)
  obtain res lh' where i: "OPENSSL_LH_insert True True [97] lh = (res, lh')" by force
  from insert_outcome [OF new(1) f(3,1,2) i] new(2) lh i show ?thesis
    by (intro exI [of _ lh] exI [of _ lh']) (simp split: if_splits)
qed

subsection \<open>Traversal and failed contraction\<close>

lemma doall_entries:
  assumes "lh_wf key lh"
  shows "\<exists>ds. mset ds = mset (map snd (lh_entries key lh)) \<and> (\<forall>f s. doall_util_fn f lh s = fold f ds s)"
proof -
  let ?chains = "take (num_nodes lh) (b lh)"
  let ?ds = "concat (map (map node_data) (rev ?chains))"
  have "concat (drop (num_nodes lh) (b lh)) = []"
    using empty_buckets [OF assms] by (auto simp: in_set_conv_nth)
  then have "concat (b lh) = concat ?chains"
    by (metis append_Nil2 append_take_drop_id concat_append)
  then have "mset ?ds = mset (map snd (lh_entries key lh))"
    by (simp add: lh_entries_def rev_map [symmetric] map_concat mset_concat sum_mset_sum_list o_def
        flip: mset_rev [of "map (map node_data) ?chains"])
  moreover have "doall_util_fn f lh s = fold f ?ds s" for f and s
  proof -
    have "fold (\<lambda>chain. fold (\<lambda>a. f (node_data a)) chain) cs s = fold f (concat (map (map node_data) cs)) s" for cs
      by (induction cs arbitrary: s) (simp_all add: fold_map o_def)
    then show ?thesis by (simp add: doall_util_fn_def)
  qed
  ultimately show ?thesis by blast
qed

text \<open>
  A deletion that makes the table contract loses other items when \<open>realloc\<close> fails: all
  nodes of the last bucket are gone, but still counted.
\<close>

theorem contract_failure_loses:
  assumes "lh_wf key lh" and "p lh = 0" and "n \<in> set (b lh ! (pmax lh - 1))"
  shows "lh_map key lh (key (node_data n)) \<noteq> None \<and>
    lh_map key (contract False lh) (key (node_data n)) = None \<and>
    num_items (contract False lh) = num_items lh"
proof (intro conjI)
  let ?i = "pmax lh - 1" and ?f = "\<lambda>n. (key (node_data n), node_data n)"
  have s: "0 < pmax lh" "pmax lh < 2 ^ 32" "length (b lh) = 2 * pmax lh"
    using assms(1) by (auto simp: lh_wf_def sizes_ok_def)
  then have i: "?i < length (b lh)" "c_uint (p lh + pmax lh - 1) = ?i"
    by (simp_all add: assms(2) c_uint_def)
  let ?rest = "concat ((b lh)[?i := []])"
  have b': "b (contract False lh) = (b lh)[?i := []]"
    using i by (simp add: contract_def assms(2) Let_def)
  show "num_items (contract False lh) = num_items lh" by (simp add: contract_def Let_def)
  have m: "mset (concat (b lh)) = mset ?rest + mset (b lh ! ?i)"
    using mset_concat_update [OF i(1), of "[]"] by simp
  then have "mset (lh_entries key lh) = mset (map ?f ?rest @ map ?f (b lh ! ?i))"
    by (simp add: lh_entries_def del: mset_concat)
  from distinct_keys_mset [OF this] have "distinct (map fst (map ?f ?rest @ map ?f (b lh ! ?i)))"
    using assms(1) unfolding lh_wf_def by blast
  then have "fst ` set (map ?f ?rest) \<inter> fst ` set (map ?f (b lh ! ?i)) = {}"
    unfolding map_append distinct_append set_map by blast
  moreover have "key (node_data n) \<in> fst ` set (map ?f (b lh ! ?i))" using assms(3) by force
  ultimately have "key (node_data n) \<notin> fst ` set (map ?f ?rest)" by blast
  then show "lh_map key (contract False lh) (key (node_data n)) = None"
    by (simp add: lh_map_def lh_entries_def b' map_of_eq_None_iff)
  have "n \<in> set (concat (b lh))" using m assms(3) by (metis UnI2 set_mset_mset set_mset_union)
  then have "key (node_data n) \<in> fst ` set (lh_entries key lh)"
    unfolding lh_entries_def set_map image_image by simp
  then show "lh_map key lh (key (node_data n)) \<noteq> None"
    unfolding lh_map_def map_of_eq_None_iff by blast
qed

text \<open>A table of 32 buckets with one item, in the last bucket.\<close>

definition sample_lhash :: "nat lhash" where
  "sample_lhash = (case OPENSSL_LH_new (\<lambda>_. []) (Some (\<lambda>_. 31)) (Some (\<lambda>x y. int x - int y)) True True True of
     Some lh \<Rightarrow> lh\<lparr>b := (replicate 64 [])[31 := [\<lparr>node_data = 5, node_hash = 31\<rparr>]],
       num_nodes := 32, num_alloc_nodes := 64, p := 0, pmax := 32, num_items := 1\<rparr>)"

lemma concat_one_bucket: "i < n \<Longrightarrow> concat ((replicate n [])[i := c]) = c"
  by (induction n arbitrary: i) (auto split: nat.split)

lemma sample_lhash_simps:
  "b sample_lhash = (replicate 64 [])[31 := [\<lparr>node_data = 5, node_hash = 31\<rparr>]]"
  "hash sample_lhash = (\<lambda>_. 31)" "num_nodes sample_lhash = 32" "num_alloc_nodes sample_lhash = 64"
  "p sample_lhash = 0" "pmax sample_lhash = 32" "num_items sample_lhash = 1"
  by (simp_all add: sample_lhash_def OPENSSL_LH_new_def)

theorem contract_failure_loses_witness:
  "lh_map id sample_lhash 5 \<noteq> None \<and> lh_map id (contract False sample_lhash) 5 = None \<and>
   num_items (contract False sample_lhash) = num_items sample_lhash"
proof -
  have "sizes_ok sample_lhash" by (simp add: sizes_ok_def sample_lhash_simps exI [of _ 2])
  moreover have "placed sample_lhash"
    by (auto simp: placed_def sample_lhash_simps bucket_of_def nth_list_update)
  ultimately have wf: "lh_wf id sample_lhash"
    by (simp add: lh_wf_def sample_lhash_simps lh_entries_def concat_one_bucket)
  have "\<lparr>node_data = 5, node_hash = 31\<rparr> \<in> set (b sample_lhash ! (pmax sample_lhash - 1))"
    by (simp add: sample_lhash_simps)
  from contract_failure_loses [OF wf sample_lhash_simps(5) this] show ?thesis by simp
qed

end
