(* ===== verification/Pqueue.thy ===== *)
theory Pqueue
  imports Buffers
begin

text \<open>
  The priority queue of DTLS (ssl/pqueue.c): a list of items kept in the order of their
  eight-byte priorities, which are sequence numbers in big-endian order. The type of the
  priorities is ordered by \<open>memcmp\<close>, and this order is that of the numbers. The locale
  \<open>seq_queue\<close> is the contract of the queue with its clients.
\<close>

subsection \<open>Sequence numbers of eight bytes\<close>

typedef seq64 = "{bs :: byte list. length bs = 8}" morphisms seq_bytes seq64
  by (rule exI [of _ "replicate 8 0"]) simp

setup_lifting type_definition_seq64

lemma length_seq_bytes [simp]: "length (seq_bytes s) = 8"
  using seq_bytes [of s] by simp

lift_definition seq_zero :: seq64 is "replicate 8 0" by simp

text \<open>\<open>n2l8\<close>.\<close>

definition seq_value :: "seq64 \<Rightarrow> u64" where
  "seq_value s = load_be (seq_bytes s)"

instantiation seq64 :: linorder
begin

definition less_seq64 :: "seq64 \<Rightarrow> seq64 \<Rightarrow> bool" where
  "less_seq64 s t \<longleftrightarrow> memcmp (seq_bytes s) (seq_bytes t) < 0"

definition less_eq_seq64 :: "seq64 \<Rightarrow> seq64 \<Rightarrow> bool" where
  "less_eq_seq64 s t \<longleftrightarrow> memcmp (seq_bytes s) (seq_bytes t) \<le> 0"

instance
proof -
  have eq: "s = t \<longleftrightarrow> be_value (seq_bytes s) = be_value (seq_bytes t)" for s t
    by (metis be_value_inject length_seq_bytes seq_bytes_inject)
  have less: "s < t \<longleftrightarrow> be_value (seq_bytes s) < be_value (seq_bytes t)" for s t :: seq64
    by (simp add: less_seq64_def memcmp_value)
  have le: "s \<le> t \<longleftrightarrow> be_value (seq_bytes s) \<le> be_value (seq_bytes t)" for s t :: seq64
    using less [of s t] eq [of s t] memcmp_value(2) [of "seq_bytes s" "seq_bytes t"]
    by (auto simp: less_eq_seq64_def less_seq64_def seq_bytes_inject)
  show "OFCLASS(seq64, linorder_class)"
    by standard (auto simp: less le eq)
qed

end

lemma memcmp_swap: "memcmp ys xs = - memcmp xs ys"
  by (induction xs ys rule: memcmp.induct) simp_all

lemma memcmp_seq [simp]:
  "memcmp (seq_bytes s) (seq_bytes t) = 0 \<longleftrightarrow> s = t" "0 < memcmp (seq_bytes s) (seq_bytes t) \<longleftrightarrow> t < s"
  "memcmp (seq_bytes s) (seq_bytes t) < 0 \<longleftrightarrow> s < t"
  using memcmp_value(2) [of "seq_bytes s" "seq_bytes t"] memcmp_swap [of "seq_bytes s" "seq_bytes t"]
  by (auto simp: less_seq64_def seq_bytes_inject)

lemma unat_seq_value: "unat (seq_value s) = be_value (seq_bytes s)"
  unfolding seq_value_def by (rule be_value_load) simp

lemma seq_less_value: "s < t \<longleftrightarrow> seq_value s < seq_value t"
  unfolding less_seq64_def word_less_nat_alt unat_seq_value by (rule memcmp_value) simp

lemma seq_value_inject: "seq_value s = seq_value t \<longleftrightarrow> s = t"
  by (metis less_irrefl linorder_neq_iff seq_less_value)

subsection \<open>The queue\<close>

record 'd pitem =
  priority :: seq64
  data :: 'd

record 'd pqueue =
  items :: "'d pitem list"
  count :: int

definition pqueue_new :: "'d pqueue" where
  "pqueue_new = \<lparr>items = [], count = 0\<rparr>"

definition pitem_new :: "seq64 \<Rightarrow> 'd \<Rightarrow> 'd pitem" where
  "pitem_new prio64be d = \<lparr>priority = prio64be, data = d\<rparr>"

text \<open>The loop of \<open>pqueue_insert\<close>, None for a duplicate.\<close>

fun insert_loop :: "'d pitem \<Rightarrow> 'd pitem list \<Rightarrow> 'd pitem list option" where
  "insert_loop item [] = Some [item]"
| "insert_loop item (next # rest) =
     (let cmp = memcmp (seq_bytes (priority next)) (seq_bytes (priority item)) in
      if cmp > 0 then Some (item # next # rest)
      else if cmp = 0 then None
      else map_option ((#) next) (insert_loop item rest))"

definition pqueue_insert :: "'d pitem \<Rightarrow> 'd pqueue \<Rightarrow> 'd pitem option \<times> 'd pqueue" where
  "pqueue_insert item pq =
     (if items pq = [] then (Some item, pq\<lparr>items := [item]\<rparr>)
      else case insert_loop item (items pq) of
             None \<Rightarrow> (None, pq)
           | Some its \<Rightarrow> (Some item, pq\<lparr>items := its\<rparr>))"

definition pqueue_peek :: "'d pqueue \<Rightarrow> 'd pitem option" where
  "pqueue_peek pq = (case items pq of [] \<Rightarrow> None | item # _ \<Rightarrow> Some item)"

definition pqueue_pop :: "'d pqueue \<Rightarrow> 'd pitem option \<times> 'd pqueue" where
  "pqueue_pop pq =
     (case items pq of [] \<Rightarrow> (None, pq) | item # rest \<Rightarrow> (Some item, pq\<lparr>items := rest\<rparr>))"

text \<open>
  The loop of \<open>pqueue_find\<close> stops in front of the last node, which is looked at
  afterwards; \<open>next\<close> is the node at which the loop has stopped.
\<close>

fun find_loop :: "seq64 \<Rightarrow> 'd pitem list \<Rightarrow> 'd pitem option \<times> 'd pitem" where
  "find_loop prio [next] = (None, next)"
| "find_loop prio (next # nn # rest) =
     (if memcmp (seq_bytes (priority next)) (seq_bytes prio) = 0 then (Some next, next)
      else find_loop prio (nn # rest))"
| "find_loop prio [] = (None, undefined)"

definition pqueue_find :: "seq64 \<Rightarrow> 'd pqueue \<Rightarrow> 'd pitem option" where
  "pqueue_find prio64be pq =
     (if items pq = [] then None
      else let (found, next) = find_loop prio64be (items pq);
               found = (if memcmp (seq_bytes (priority next)) (seq_bytes prio64be) = 0
                        then Some next else found)
           in found)"

text \<open>\<open>pqueue_iterator\<close> and \<open>pqueue_next\<close>: the position is what is left of the list.\<close>

definition pqueue_iterator :: "'d pqueue \<Rightarrow> 'd pitem list" where
  "pqueue_iterator pq = items pq"

definition pqueue_next :: "'d pitem list \<Rightarrow> 'd pitem option \<times> 'd pitem list" where
  "pqueue_next item = (case item of [] \<Rightarrow> (None, []) | i # rest \<Rightarrow> (Some i, rest))"

fun size_loop :: "'d pitem list \<Rightarrow> int \<Rightarrow> int" where
  "size_loop [] n = n"
| "size_loop (item # rest) n = size_loop rest (n + 1)"

definition pqueue_size :: "'d pqueue \<Rightarrow> int" where
  "pqueue_size pq = size_loop (items pq) 0"

subsection \<open>The contract with its clients\<close>

text \<open>Repeated calls of a \<open>pop\<close>, which end when it returns NULL.\<close>

fun pop_n :: "('q \<Rightarrow> 'i option \<times> 'q) \<Rightarrow> nat \<Rightarrow> 'q \<Rightarrow> 'i list \<times> 'q" where
  "pop_n pop 0 q = ([], q)"
| "pop_n pop (Suc n) q =
     (case pop q of
        (None, q) \<Rightarrow> ([], q)
      | (Some i, q) \<Rightarrow> (case pop_n pop n q of (xs, q) \<Rightarrow> (i # xs, q)))"

locale seq_queue =
  fixes insert :: "'d pitem \<Rightarrow> 'q \<Rightarrow> 'd pitem option \<times> 'q"
    and pop :: "'q \<Rightarrow> 'd pitem option \<times> 'q"
    and find :: "seq64 \<Rightarrow> 'q \<Rightarrow> 'd pitem option"
    and size :: "'q \<Rightarrow> int"
    and contents :: "'q \<Rightarrow> seq64 \<rightharpoonup> 'd pitem"
    and inv :: "'q \<Rightarrow> bool"
  assumes insert_dup: "inv q \<Longrightarrow> contents q (priority i) \<noteq> None \<Longrightarrow> insert i q = (None, q)"
    and insert_new: "inv q \<Longrightarrow> contents q (priority i) = None \<Longrightarrow>
      \<exists>q'. insert i q = (Some i, q') \<and> inv q' \<and> contents q' = (contents q)(priority i \<mapsto> i)"
    and pop_none: "inv q \<Longrightarrow> pop q = (None, q') \<Longrightarrow> contents q = Map.empty \<and> q' = q"
    and pop_some: "inv q \<Longrightarrow> pop q = (Some i, q') \<Longrightarrow>
      inv q' \<and> contents q (priority i) = Some i \<and> (\<forall>k \<in> dom (contents q). priority i \<le> k) \<and>
      contents q' = (contents q)(priority i := None)"
    and find: "inv q \<Longrightarrow> find k q = contents q k"
    and size: "inv q \<Longrightarrow> size q = int (card (dom (contents q)))"
    and finite: "inv q \<Longrightarrow> finite (dom (contents q))"
begin

lemma pop_n_sorted:
  assumes "inv q" and "pop_n pop n q = (xs, q')"
  shows "inv q' \<and> sorted_wrt (<) (map priority xs) \<and>
    (\<forall>i \<in> set xs. contents q (priority i) = Some i) \<and>
    contents q' = contents q |` (- (priority ` set xs)) \<and>
    (\<forall>i \<in> set xs. \<forall>k \<in> dom (contents q'). priority i < k) \<and>
    (length xs = n \<or> contents q' = Map.empty)"
  using assms
proof (induction n arbitrary: q xs)
  case 0
  then show ?case by (simp add: restrict_map_def)
next
  case (Suc n)
  show ?case
  proof (cases "pop q")
    case (Pair r q1)
    show ?thesis
    proof (cases r)
      case None
      with Suc.prems Pair pop_none [of q q1] show ?thesis by auto
    next
      case (Some i)
      note p = pop_some [OF Suc.prems(1) Pair [unfolded Some]]
      obtain js where js: "pop_n pop n q1 = (js, q')" "xs = i # js"
        using Suc.prems(2) Pair Some by (auto split: prod.splits)
      have "inv q1" using p by blast
      from Suc.IH [OF this js(1)] have ih: "inv q'" "sorted_wrt (<) (map priority js)"
        "\<forall>j \<in> set js. contents q1 (priority j) = Some j"
        "contents q' = contents q1 |` (- (priority ` set js))"
        "\<forall>j \<in> set js. \<forall>k \<in> dom (contents q'). priority j < k"
        "length js = n \<or> contents q' = Map.empty" by blast+
      have q1: "contents q1 = (contents q)(priority i := None)" using p by blast
      have after: "priority i < k" if "contents q1 k \<noteq> None" for k
        using that p by (auto simp: q1 order.strict_iff_order split: if_splits)
      show ?thesis
      proof (intro conjI)
        show "inv q'" by (rule ih(1))
        show "sorted_wrt (<) (map priority xs)" using ih(2,3) after by (simp add: js(2))
        show "\<forall>i \<in> set xs. contents q (priority i) = Some i"
          using ih(3) p by (auto simp: q1 js(2) split: if_splits)
        show "contents q' = contents q |` (- (priority ` set xs))"
          by (auto simp: ih(4) q1 js(2) restrict_map_def fun_eq_iff)
        show "\<forall>i \<in> set xs. \<forall>k \<in> dom (contents q'). priority i < k"
          using after ih(5) by (auto simp: ih(4) js(2) restrict_map_def split: if_splits)
        show "length xs = Suc n \<or> contents q' = Map.empty" using ih(6) by (simp add: js(2))
      qed
    qed
  qed
qed

lemma pop_all:
  assumes "inv q" and "pop_n pop n q = (xs, q')" and "card (dom (contents q)) \<le> n"
  shows "contents q' = Map.empty" and "set xs = ran (contents q)"
    and "sorted_wrt (<) (map priority xs)"
proof -
  note * = pop_n_sorted [OF assms(1,2)]
  then show "sorted_wrt (<) (map priority xs)" by blast
  then have d: "distinct (map priority xs)" by (simp add: strict_sorted_iff)
  have sub: "priority ` set xs \<subseteq> dom (contents q)" using * by auto
  show e: "contents q' = Map.empty"
  proof (cases "length xs = n")
    case True
    then have "card (priority ` set xs) = n" using d by (metis distinct_card length_map set_map)
    with sub assms(3) finite [OF assms(1)] have "priority ` set xs = dom (contents q)"
      by (simp add: card_seteq)
    with * show ?thesis by (auto simp: restrict_map_def fun_eq_iff)
  qed (use * in blast)
  show "set xs = ran (contents q)"
  proof
    show "set xs \<subseteq> ran (contents q)" using * by (auto simp: ran_def)
    show "ran (contents q) \<subseteq> set xs"
    proof
      fix i assume "i \<in> ran (contents q)"
      then obtain k where k: "contents q k = Some i" by (auto simp: ran_def)
      with * e have "k \<in> priority ` set xs" by (metis ComplI domIff option.simps(3) restrict_in)
      with * k show "i \<in> set xs" by auto
    qed
  qed
qed

end

subsection \<open>The queue keeps the contract\<close>

definition pq_map :: "'d pqueue \<Rightarrow> seq64 \<rightharpoonup> 'd pitem" where
  "pq_map pq = map_of (map (\<lambda>i. (priority i, i)) (items pq))"

definition pq_sorted :: "'d pqueue \<Rightarrow> bool" where
  "pq_sorted pq \<longleftrightarrow> sorted_wrt (<) (map priority (items pq))"

lemma insert_loop_None: "insert_loop item its = None \<Longrightarrow> \<exists>i \<in> set its. priority i = priority item"
  by (induction its) (auto simp: Let_def split: if_splits)

lemma insert_loop_Some:
  assumes "sorted_wrt (<) (map priority its)" and "insert_loop item its = Some its'"
  shows "sorted_wrt (<) (map priority its') \<and> set its' = insert item (set its) \<and>
    (\<forall>i \<in> set its. priority i \<noteq> priority item)"
  using assms
proof (induction its arbitrary: its')
  case (Cons nx rest)
  show ?case
  proof (cases "priority nx" "priority item" rule: linorder_cases)
    case less
    with Cons.prems(2) obtain r where r: "insert_loop item rest = Some r" "its' = nx # r"
      by (auto simp: Let_def split: if_splits)
    have "sorted_wrt (<) (map priority rest)" using Cons.prems(1) by simp
    from Cons.IH [OF this r(1)] have "sorted_wrt (<) (map priority r)"
      "set r = insert item (set rest)" "\<forall>i \<in> set rest. priority i \<noteq> priority item" by blast+
    with Cons.prems(1) less show ?thesis by (simp add: r(2) insert_commute)
  next
    case equal
    with Cons.prems show ?thesis by (auto simp: Let_def)
  next
    case greater
    then have "\<forall>x \<in> set rest. priority item < priority x"
      using Cons.prems(1) by (auto intro: less_trans [of _ "priority nx"])
    with greater Cons.prems show ?thesis by (auto simp: Let_def)
  qed
qed simp

lemma pq_map_Some: "pq_sorted pq \<Longrightarrow> pq_map pq k = Some i \<longleftrightarrow> i \<in> set (items pq) \<and> priority i = k"
  by (auto simp: pq_map_def pq_sorted_def strict_sorted_iff o_def)

lemma pq_map_None: "pq_map pq k = None \<longleftrightarrow> k \<notin> priority ` set (items pq)"
  by (auto simp: pq_map_def map_of_eq_None_iff image_image)

lemma dom_pq_map: "dom (pq_map pq) = priority ` set (items pq)"
  using pq_map_None by (metis domIff set_eqI)

lemma find_loop_eq:
  assumes "its \<noteq> []" and "find_loop k its = (found, nx)"
    and "sorted_wrt (<) (map priority its)"
  shows "(if memcmp (seq_bytes (priority nx)) (seq_bytes k) = 0 then Some nx else found) =
    map_of (map (\<lambda>i. (priority i, i)) its) k"
  using assms
proof (induction k its rule: find_loop.induct)
  case (2 prio nx nn rest)
  then show ?case by (auto split: if_splits)
qed simp_all

lemma size_loop_eq: "size_loop its n = n + int (length its)"
  by (induction its arbitrary: n) simp_all

interpretation pq: seq_queue pqueue_insert pqueue_pop pqueue_find pqueue_size pq_map pq_sorted
proof
  fix q q' :: "'d pqueue" and i and k
  assume inv: "pq_sorted q"
  show "pqueue_insert i q = (None, q)" if "pq_map q (priority i) \<noteq> None"
  proof (cases "insert_loop i (items q)")
    case None
    with that show ?thesis by (auto simp: pqueue_insert_def pq_map_None)
  next
    case (Some its)
    with insert_loop_Some [OF inv [unfolded pq_sorted_def] Some] that show ?thesis
      by (auto simp: pq_map_None)
  qed
  show "\<exists>q'. pqueue_insert i q = (Some i, q') \<and> pq_sorted q' \<and> pq_map q' = (pq_map q)(priority i \<mapsto> i)"
    if n: "pq_map q (priority i) = None"
  proof -
    obtain its where its: "insert_loop i (items q) = Some its"
      using n insert_loop_None [of i "items q"] unfolding pq_map_None
      by (metis image_eqI not_Some_eq)
    then have "pqueue_insert i q = (Some i, q\<lparr>items := its\<rparr>)"
      by (auto simp: pqueue_insert_def)
    note its = this its
    with insert_loop_Some [OF inv [unfolded pq_sorted_def] its(2)]
    have s: "pq_sorted (q\<lparr>items := its\<rparr>)" "set its = Set.insert i (set (items q))"
      "\<forall>i' \<in> set (items q). priority i' \<noteq> priority i" by (auto simp: pq_sorted_def)
    have "pq_map (q\<lparr>items := its\<rparr>) k = ((pq_map q)(priority i \<mapsto> i)) k" for k
    proof (cases "pq_map (q\<lparr>items := its\<rparr>) k")
      case None
      then have "k \<noteq> priority i" "k \<notin> priority ` set (items q)" by (auto simp: pq_map_None s(2))
      with None show ?thesis by (simp flip: pq_map_None)
    next
      case (Some j)
      with s(1) have j: "j \<in> set its" "priority j = k" by (simp_all add: pq_map_Some)
      show ?thesis
      proof (cases "j = i")
        case False
        with j s(2,3) have "pq_map q k = Some j" "k \<noteq> priority i"
          using inv by (auto simp: pq_map_Some)
        with Some show ?thesis by simp
      qed (use j Some in simp)
    qed
    with its s(1) show ?thesis by blast
  qed
  show "pq_map q = Map.empty \<and> q' = q" if "pqueue_pop q = (None, q')"
    using that by (auto simp: pqueue_pop_def pq_map_def split: list.splits)
  show "pq_sorted q' \<and> pq_map q (priority i) = Some i \<and> (\<forall>k \<in> dom (pq_map q). priority i \<le> k) \<and>
      pq_map q' = (pq_map q)(priority i := None)" if p: "pqueue_pop q = (Some i, q')"
  proof -
    obtain rest where r: "items q = i # rest" "q' = q\<lparr>items := rest\<rparr>"
      using p by (auto simp: pqueue_pop_def split: list.splits)
    have "priority i \<notin> priority ` set rest" using inv r by (auto simp: pq_sorted_def)
    then have "map_of (map (\<lambda>i. (priority i, i)) rest) (priority i) = None"
      by (auto simp: map_of_eq_None_iff)
    with inv r show ?thesis
      by (auto simp: pq_sorted_def pq_map_Some dom_pq_map less_imp_le)
        (auto simp: pq_map_def fun_eq_iff)
  qed
  show "pqueue_find k q = pq_map q k"
    using find_loop_eq [of "items q" k] inv
    by (auto simp: pqueue_find_def pq_map_def pq_sorted_def split: prod.split)
  show "pqueue_size q = int (card (dom (pq_map q)))"
    using inv by (simp add: pqueue_size_def size_loop_eq dom_pq_map pq_sorted_def strict_sorted_iff
        distinct_card flip: set_map)
  show "finite (dom (pq_map q))" by (simp add: dom_pq_map)
qed

text \<open>Items inserted one after the other.\<close>

fun insert_all :: "'d pitem list \<Rightarrow> 'd pqueue \<Rightarrow> 'd pqueue" where
  "insert_all [] pq = pq"
| "insert_all (i # xs) pq = insert_all xs (snd (pqueue_insert i pq))"

lemma insert_all_map:
  "pq_sorted pq \<Longrightarrow> pq_sorted (insert_all xs pq) \<and>
     pq_map (insert_all xs pq) = map_of (map (\<lambda>i. (priority i, i)) xs) ++ pq_map pq"
proof (induction xs arbitrary: pq)
  case (Cons i xs)
  show ?case
  proof (cases "pq_map pq (priority i)")
    case None
    from pq.insert_new [OF Cons.prems None] obtain q where
      q: "pqueue_insert i pq = (Some i, q)" "pq_sorted q" "pq_map q = (pq_map pq)(priority i \<mapsto> i)" by blast
    with Cons.IH [OF q(2)] None show ?thesis by (auto simp: map_add_def fun_eq_iff split: option.splits)
  next
    case (Some j)
    with pq.insert_dup [OF Cons.prems, of i] Cons.IH [OF Cons.prems] show ?thesis
      by (auto simp: map_add_def fun_eq_iff split: option.splits)
  qed
qed simp

text \<open>
  C11: The queue sorts: items inserted into a new queue come out in the order of their
  sequence numbers as numbers, of several items with one number only the first inserted,
  and afterwards the queue is empty.
\<close>

theorem pqueue_sorts:
  fixes xs :: "'d pitem list"
  assumes "pop_n pqueue_pop (length xs) (insert_all xs pqueue_new) = (out, q)"
  shows "sorted_wrt (<) (map (\<lambda>i. seq_value (priority i)) out) \<and>
    set out = ran (map_of (map (\<lambda>i. (priority i, i)) xs)) \<and> pqueue_pop q = (None, q)"
proof -
  have "pq_sorted (pqueue_new :: 'd pqueue)" "pq_map (pqueue_new :: 'd pqueue) = Map.empty"
    by (simp_all add: pq_sorted_def pq_map_def pqueue_new_def)
  with insert_all_map [of pqueue_new xs] have i: "pq_sorted (insert_all xs pqueue_new)"
    "pq_map (insert_all xs pqueue_new) = map_of (map (\<lambda>i. (priority i, i)) xs)" by simp_all
  have "card (dom (map_of (map (\<lambda>i. (priority i, i)) xs))) \<le> length xs"
    by (metis card_length dom_map_of_conv_image_fst length_map set_map)
  note * = pq.pop_all [OF i(1) assms, unfolded i(2), OF this]
  from *(3) have "sorted_wrt (<) (map (\<lambda>i. seq_value (priority i)) out)"
    by (simp add: sorted_wrt_map seq_less_value)
  moreover from *(1) have "pqueue_pop q = (None, q)"
    by (cases "items q") (auto simp: pq_map_def pqueue_pop_def)
  ultimately show ?thesis using *(2) by blast
qed

text \<open>\<open>l2n8\<close>: the sequence number with a given value.\<close>

lift_definition seq_of :: "u64 \<Rightarrow> seq64" is "store_be 8" by simp

lemma seq_value_of [simp]: "seq_value (seq_of w) = w"
  by (simp add: seq_value_def seq_of.rep_eq load_store_be)

lemma seq_of_inject [simp]: "seq_of v = seq_of w \<longleftrightarrow> v = w"
  by (metis seq_value_of)

theorem pqueue_sorts_witness:
  "\<exists>out q. pop_n pqueue_pop 3 (insert_all [pitem_new (seq_of 300) ''a'', pitem_new (seq_of 2) ''b'',
      pitem_new (seq_of 300) ''c''] pqueue_new) = (out, q) \<and>
    set out = {pitem_new (seq_of 300) ''a'', pitem_new (seq_of 2) ''b''} \<and> pqueue_pop q = (None, q)"
proof -
  let ?is = "[pitem_new (seq_of 300) ''a'', pitem_new (seq_of 2) ''b'', pitem_new (seq_of 300) ''c'']"
  obtain out q where r: "pop_n pqueue_pop (length ?is) (insert_all ?is pqueue_new) = (out, q)" by force
  have "ran (map_of (map (\<lambda>i. (priority i, i)) ?is)) =
      {pitem_new (seq_of 300) ''a'', pitem_new (seq_of 2) ''b''}"
    by (auto simp: ran_def pitem_new_def intro: exI [of _ "seq_of 300"] split: if_splits)
  with pqueue_sorts [OF r] r show ?thesis by (metis length_Cons list.size(3) numeral_3_eq_3)
qed

end
