(* ===== verification/Constant_Time.thy ===== *)
theory Constant_Time
  imports Dev_Prelude
begin

text \<open>
  The branch-free comparisons of include/internal/constant_time_locl.h on 32-bit words:
  what each mask is, and how a choice by a mask is the choice by a condition.
\<close>

definition constant_time_msb :: "u32 \<Rightarrow> u32" where
  "constant_time_msb a = 0 - drop_bit (4 * 8 - 1) a"

definition constant_time_lt :: "u32 \<Rightarrow> u32 \<Rightarrow> u32" where
  "constant_time_lt a b = constant_time_msb (a XOR ((a XOR b) OR ((a - b) XOR b)))"

definition constant_time_lt_8 :: "u32 \<Rightarrow> u32 \<Rightarrow> byte" where
  "constant_time_lt_8 a b = ucast (constant_time_lt a b)"

definition constant_time_ge :: "u32 \<Rightarrow> u32 \<Rightarrow> u32" where
  "constant_time_ge a b = NOT (constant_time_lt a b)"

definition constant_time_ge_8 :: "u32 \<Rightarrow> u32 \<Rightarrow> byte" where
  "constant_time_ge_8 a b = ucast (constant_time_ge a b)"

definition constant_time_is_zero :: "u32 \<Rightarrow> u32" where
  "constant_time_is_zero a = constant_time_msb (NOT a AND (a - 1))"

definition constant_time_is_zero_8 :: "u32 \<Rightarrow> byte" where
  "constant_time_is_zero_8 a = ucast (constant_time_is_zero a)"

definition constant_time_eq :: "u32 \<Rightarrow> u32 \<Rightarrow> u32" where
  "constant_time_eq a b = constant_time_is_zero (a XOR b)"

definition constant_time_eq_8 :: "u32 \<Rightarrow> u32 \<Rightarrow> byte" where
  "constant_time_eq_8 a b = ucast (constant_time_eq a b)"

text \<open>An \<open>int\<close> is the word with its bits; the conversions to and from \<open>unsigned\<close> do nothing.\<close>

definition constant_time_eq_int :: "u32 \<Rightarrow> u32 \<Rightarrow> u32" where
  "constant_time_eq_int a b = constant_time_eq a b"

definition constant_time_eq_int_8 :: "u32 \<Rightarrow> u32 \<Rightarrow> byte" where
  "constant_time_eq_int_8 a b = constant_time_eq_8 a b"

definition constant_time_select :: "u32 \<Rightarrow> u32 \<Rightarrow> u32 \<Rightarrow> u32" where
  "constant_time_select m a b = m AND a OR NOT m AND b"

definition constant_time_select_8 :: "byte \<Rightarrow> byte \<Rightarrow> byte \<Rightarrow> byte" where
  "constant_time_select_8 m a b = ucast (constant_time_select (ucast m) (ucast a) (ucast b))"

definition constant_time_select_int :: "u32 \<Rightarrow> u32 \<Rightarrow> u32 \<Rightarrow> u32" where
  "constant_time_select_int m a b = constant_time_select m a b"

subsection \<open>The masks\<close>

text \<open>The two masks, all ones and all zeros.\<close>

abbreviation (input) mask_of :: "bool \<Rightarrow> u32" where
  "mask_of c \<equiv> if c then - 1 else 0"

lemma top_bit: "bit (w :: u32) 31 \<longleftrightarrow> 2 ^ 31 \<le> uint w"
proof -
  have "bit w 31 \<longleftrightarrow> bit (uint w) 31" by (simp add: bit_uint_iff)
  also have "\<dots> \<longleftrightarrow> odd (uint w div 2 ^ 31)" by (rule bit_iff_odd)
  also have "uint w div 2 ^ 31 = (if 2 ^ 31 \<le> uint w then 1 else 0)"
    using uint_lt2p [of w] by auto
  finally show ?thesis by simp
qed

lemma constant_time_msb_eq: "constant_time_msb a = mask_of (bit a 31)"
proof -
  have "bit (drop_bit 31 a) n = bit (if bit a 31 then 1 else 0 :: u32) n" for n
    by (cases n) (auto simp: bit_simps dest: bit_imp_le_length)
  then have "drop_bit 31 a = (if bit a 31 then 1 else 0)" by (intro bit_word_eqI) simp
  then show ?thesis by (simp add: constant_time_msb_def)
qed

lemma constant_time_lt_eq: "constant_time_lt a b = mask_of (a < b)"
proof -
  have "bit (a XOR ((a XOR b) OR ((a - b) XOR b))) 31 \<longleftrightarrow>
      bit a 31 \<noteq> (bit a 31 \<noteq> bit b 31 \<or> bit (a - b) 31 \<noteq> bit b 31)"
    by (simp only: bit_xor_iff bit_or_iff)
  also have "\<dots> \<longleftrightarrow> a < b"
  proof -
    define A B where AB: "A = uint a" "B = uint b"
    have r: "0 \<le> A" "A < 2 ^ 32" "0 \<le> B" "B < 2 ^ 32"
      using uint_lt2p [of a] uint_lt2p [of b] by (simp_all add: AB)
    show ?thesis
      unfolding top_bit uint_sub_if' word_less_def AB [symmetric] using r by auto
  qed
  finally have "bit (a XOR ((a XOR b) OR ((a - b) XOR b))) 31 \<longleftrightarrow> a < b" .
  then show ?thesis by (simp add: constant_time_lt_def constant_time_msb_eq)
qed

lemma constant_time_ge_eq: "constant_time_ge a b = mask_of (b \<le> a)"
  by (simp add: constant_time_ge_def constant_time_lt_eq not_le)

lemma constant_time_is_zero_eq: "constant_time_is_zero a = mask_of (a = 0)"
proof -
  have "bit (NOT a AND (a - 1)) 31 \<longleftrightarrow> a = 0"
  proof (cases "a = 0")
    case False
    then have "1 \<le> uint a" using uint_ge_0 [of a] by (metis int_one_le_iff_zero_less order_le_less uint_0_iff)
    then have "uint (a - 1) = uint a - 1" by (simp add: uint_sub_if')
    moreover have "bit (NOT a AND (a - 1)) 31 \<longleftrightarrow> \<not> bit a 31 \<and> bit (a - 1) 31"
      by (simp only: bit_and_iff bit_not_iff) simp
    ultimately show ?thesis using False by (auto simp: top_bit)
  qed simp
  then show ?thesis by (simp add: constant_time_is_zero_def constant_time_msb_eq)
qed

lemma constant_time_eq_eq: "constant_time_eq a b = mask_of (a = b)"
  by (simp add: constant_time_eq_def constant_time_is_zero_eq bit_eq_iff bit_simps)

lemma constant_time_select_eq: "constant_time_select (mask_of c) a b = (if c then a else b)"
  by (simp add: constant_time_select_def)

subsection \<open>Comparing memory\<close>

text \<open>\<open>CRYPTO_memcmp\<close> (crypto/cryptlib.c) looks at all bytes.\<close>

fun memcmp_loop :: "byte list \<Rightarrow> byte list \<Rightarrow> nat \<Rightarrow> nat \<Rightarrow> byte \<Rightarrow> byte" where
  "memcmp_loop a b i 0 x = x"
| "memcmp_loop a b i (Suc n) x = memcmp_loop a b (i + 1) n (x OR (a ! i XOR b ! i))"

definition CRYPTO_memcmp :: "byte list \<Rightarrow> byte list \<Rightarrow> nat \<Rightarrow> byte" where
  "CRYPTO_memcmp a b len = memcmp_loop a b 0 len 0"

lemma xor_zero_iff: "(v :: byte) XOR w = 0 \<longleftrightarrow> v = w"
  by (auto simp: bit_eq_iff bit_simps)

lemma or_zero_iff: "(v :: byte) OR w = 0 \<longleftrightarrow> v = 0 \<and> w = 0"
  by (auto simp: bit_eq_iff bit_simps)

lemma memcmp_loop_zero: "memcmp_loop a b i n x = 0 \<longleftrightarrow> x = 0 \<and> (\<forall>k < n. a ! (i + k) = b ! (i + k))"
  by (induction n arbitrary: i x) (auto simp: or_zero_iff xor_zero_iff All_less_Suc2)

lemma CRYPTO_memcmp_zero:
  "len \<le> length a \<Longrightarrow> len \<le> length b \<Longrightarrow> CRYPTO_memcmp a b len = 0 \<longleftrightarrow> take len a = take len b"
  by (auto simp: CRYPTO_memcmp_def memcmp_loop_zero list_eq_iff_nth_eq)

end
