(* ===== verification/Cbc_Padding.thy ===== *)
theory Cbc_Padding
  imports Pqueue Constant_Time
begin

text \<open>
  What the record layer does with a decrypted CBC record (record/ssl3_record.c): removing
  the padding and finding the MAC without branching on what was decrypted. The padding
  functions are compared with their specification, the copying of the MAC with a sub-list.
  An \<open>unsigned int\<close> in a record is a natural number and a word where it is computed with;
  \<open>rec_data\<close> is the memory from \<open>rec->data\<close> on, so that advancing the pointer drops bytes.
\<close>

record SSL3_RECORD =
  rec_type :: int
  rec_length :: nat
  orig_len :: nat
  rec_off :: nat
  rec_data :: "byte list"
  rec_epoch :: nat
  rec_seq_num :: seq64

definition zero_record :: SSL3_RECORD where
  "zero_record = \<lparr>rec_type = 0, rec_length = 0, orig_len = 0, rec_off = 0, rec_data = [],
     rec_epoch = 0, rec_seq_num = seq_zero\<rparr>"

definition ssl3_cbc_remove_padding :: "SSL3_RECORD \<Rightarrow> u32 \<Rightarrow> u32 \<Rightarrow> int \<times> SSL3_RECORD" where
  "ssl3_cbc_remove_padding rec block_size mac_size =
     (let len = of_nat (rec_length rec) :: u32; overhead = 1 + mac_size in
      if overhead > len then (0, rec)
      else let padding_length = ucast (rec_data rec ! unat (len - 1));
               good = constant_time_ge len (padding_length + overhead);
               good = good AND constant_time_ge block_size (padding_length + 1);
               len = len - (good AND (padding_length + 1))
           in (sint (constant_time_select_int good 1 (-1)), rec\<lparr>rec_length := unat len\<rparr>))"

text \<open>The loop of \<open>tls1_cbc_remove_padding\<close> from \<open>i\<close> on, with the number of rounds left.\<close>

fun check_padding :: "byte list \<Rightarrow> u32 \<Rightarrow> u32 \<Rightarrow> u32 \<Rightarrow> nat \<Rightarrow> u32 \<Rightarrow> u32" where
  "check_padding buf len padding_length i 0 good = good"
| "check_padding buf len padding_length i (Suc n) good =
     (let m = constant_time_ge_8 padding_length i; b = buf ! unat (len - 1 - i)
      in check_padding buf len padding_length (i + 1) n
           (good AND NOT (ucast m AND (padding_length XOR ucast b))))"

text \<open>The last part of \<open>tls1_cbc_remove_padding\<close>, for ciphers without authentication.\<close>

definition verify_padding :: "SSL3_RECORD \<Rightarrow> u32 \<Rightarrow> int \<times> SSL3_RECORD" where
  "verify_padding rec mac_size =
     (let overhead = 1 + mac_size; len = of_nat (rec_length rec) :: u32;
          padding_length = ucast (rec_data rec ! unat (len - 1)) :: u32;
          good = constant_time_ge len (overhead + padding_length);
          to_check = (if (256 :: u32) > len then len else 256);
          good = check_padding (rec_data rec) len padding_length 0 (unat to_check) good;
          good = constant_time_eq 0xff (good AND 0xff);
          len = len - (good AND (padding_length + 1))
      in (sint (constant_time_select_int good 1 (-1)), rec\<lparr>rec_length := unat len\<rparr>))"

text \<open>
  \<open>explicit_iv\<close> is \<open>SSL_USE_EXPLICIT_IV(s)\<close>, \<open>aead\<close> whether the cipher has
  \<open>EVP_CIPH_FLAG_AEAD_CIPHER\<close>.
\<close>

definition tls1_cbc_remove_padding :: "bool \<Rightarrow> bool \<Rightarrow> SSL3_RECORD \<Rightarrow> u32 \<Rightarrow> u32 \<Rightarrow> int \<times> SSL3_RECORD" where
  "tls1_cbc_remove_padding explicit_iv aead rec block_size mac_size =
     (let overhead = 1 + mac_size; len = of_nat (rec_length rec) :: u32 in
      if explicit_iv \<and> overhead + block_size > len then (0, rec)
      else if \<not> explicit_iv \<and> overhead > len then (0, rec)
      else let rec = (if explicit_iv
                      then rec\<lparr>rec_data := drop (unat block_size) (rec_data rec),
                               rec_length := unat (len - block_size),
                               orig_len := unat (of_nat (orig_len rec) - block_size)\<rparr>
                      else rec);
               len = of_nat (rec_length rec) :: u32;
               padding_length = ucast (rec_data rec ! unat (len - 1)) :: u32
           in if aead then (1, rec\<lparr>rec_length := unat (len - (padding_length + 1))\<rparr>)
              else verify_padding rec mac_size)"

text \<open>The scan of \<open>ssl3_cbc_copy_mac\<close> from \<open>i\<close> on: \<open>(j, in_mac, rotate_offset, rotated_mac)\<close>.\<close>

fun mac_scan :: "byte list \<Rightarrow> u32 \<Rightarrow> u32 \<Rightarrow> u32 \<Rightarrow> u32 \<Rightarrow> nat \<Rightarrow> u32 \<times> u32 \<times> u32 \<times> byte list
    \<Rightarrow> u32 \<times> u32 \<times> u32 \<times> byte list" where
  "mac_scan buf md_size mac_start mac_end i 0 st = st"
| "mac_scan buf md_size mac_start mac_end i (Suc n) (j, in_mac, rotate_offset, rotated_mac) =
     (let mac_started = constant_time_eq i mac_start;
          mac_ended = constant_time_lt i mac_end;
          b = buf ! unat i;
          in_mac = (in_mac OR mac_started) AND mac_ended;
          rotate_offset = rotate_offset OR (j AND mac_started);
          rotated_mac = rotated_mac[unat j := rotated_mac ! unat j OR ucast (ucast b AND in_mac)];
          j = j + 1
      in mac_scan buf md_size mac_start mac_end (i + 1) n
           (j AND constant_time_lt j md_size, in_mac, rotate_offset, rotated_mac))"

fun mac_rotate :: "byte list \<Rightarrow> u32 \<Rightarrow> u32 \<Rightarrow> nat \<Rightarrow> byte list" where
  "mac_rotate rotated_mac md_size rotate_offset 0 = []"
| "mac_rotate rotated_mac md_size rotate_offset (Suc n) =
     (let b = rotated_mac ! unat rotate_offset; rotate_offset = rotate_offset + 1
      in b # mac_rotate rotated_mac md_size (rotate_offset AND constant_time_lt rotate_offset md_size) n)"

text \<open>None when an assertion fails, which aborts the program.\<close>

definition ssl3_cbc_copy_mac :: "SSL3_RECORD \<Rightarrow> u32 \<Rightarrow> byte list option" where
  "ssl3_cbc_copy_mac rec md_size =
     (let mac_end = of_nat (rec_length rec) :: u32; mac_start = mac_end - md_size;
          orig = of_nat (orig_len rec) :: u32
      in if \<not> orig \<ge> md_size \<or> \<not> md_size \<le> 64 then None
         else let scan_start = (if orig > md_size + 255 + 1 then orig - (md_size + 255 + 1) else 0);
                  (_, _, rotate_offset, rotated_mac) =
                    mac_scan (rec_data rec) md_size mac_start mac_end scan_start
                      (unat orig - unat scan_start) (0, 0, 0, replicate (unat md_size) 0)
              in Some (mac_rotate rotated_mac md_size rotate_offset (unat md_size)))"

subsection \<open>Padding\<close>

lemma ones_iff: "(w :: u32) AND 0xff = 0xff \<longleftrightarrow> (\<forall>k < 8. bit w k)"
proof -
  have m: "(0xff :: u32) = mask 8" by (simp add: mask_eq_exp_minus_1)
  have "w AND mask 8 = mask 8 \<longleftrightarrow> (\<forall>k < 32. bit (w AND mask 8) k = bit (mask 8 :: u32) k)"
    by (auto simp: bit_eq_iff)
  also have "\<dots> \<longleftrightarrow> (\<forall>k < 32. k < 8 \<longrightarrow> bit w k)" by (auto simp: bit_simps)
  also have "\<dots> \<longleftrightarrow> (\<forall>k < 8. bit w k)" using order_less_le_trans [of _ "8 :: nat" 32] by auto
  finally show ?thesis unfolding m .
qed

lemma and_ones_iff: "(v AND w :: u32) AND 0xff = 0xff \<longleftrightarrow> v AND 0xff = 0xff \<and> w AND 0xff = 0xff"
  by (auto simp: ones_iff bit_simps)

lemma not_ones_iff: "NOT (ucast (b :: byte) :: u32) AND 0xff = 0xff \<longleftrightarrow> b = 0"
  by (auto simp: ones_iff bit_simps bit_eq_iff [of b])

lemma ucast_ones: "(ucast (- 1 :: u32) :: byte) = - 1"
  by (simp add: bit_eq_iff bit_simps)

lemma check_padding_ones:
  "check_padding buf len (ucast (p :: byte)) i n good AND 0xff = 0xff \<longleftrightarrow>
     good AND 0xff = 0xff \<and> (\<forall>k < n. i + of_nat k \<le> ucast p \<longrightarrow> buf ! unat (len - 1 - (i + of_nat k)) = p)"
proof (induction n arbitrary: i good)
  case (Suc n)
  have x: "ucast p XOR ucast b = (ucast (p XOR b) :: u32)" for b :: byte by (rule unsigned_xor_eq [symmetric])
  have "(good AND NOT (ucast (constant_time_ge_8 (ucast p) i) AND (ucast p XOR ucast b))) AND 0xff = 0xff \<longleftrightarrow>
      good AND 0xff = 0xff \<and> (i \<le> ucast p \<longrightarrow> b = p)" for b :: byte
    unfolding and_ones_iff [of good]
    by (auto simp: constant_time_ge_8_def constant_time_ge_eq x not_ones_iff ucast_ones xor_zero_iff
        simp flip: unsigned_and_eq)
  with Suc.IH [of "i + 1"] show ?case
    by (auto simp: Let_def All_less_Suc2 add.assoc)
qed simp

text \<open>
  The padding of a record: the last byte tells the number of bytes before it, all of which
  are equal to it; the MAC must fit in front.
\<close>

definition padding_ok :: "nat \<Rightarrow> byte list \<Rightarrow> nat \<Rightarrow> bool" where
  "padding_ok mac buf len \<longleftrightarrow>
     (let p = buf ! (len - 1) in unat p + 1 + mac \<le> len \<and> (\<forall>k \<le> unat p. buf ! (len - 1 - k) = p))"

lemma check_padding_ok:
  fixes len mac :: nat
  assumes "len < 2 ^ 31" and "mac < 2 ^ 16" and "1 + mac \<le> len" and p: "p = buf ! (len - 1)"
  shows "check_padding buf (of_nat len) (ucast p) 0 (min 256 len)
      (constant_time_ge (of_nat len) (1 + of_nat mac + ucast p)) AND 0xff = 0xff \<longleftrightarrow> padding_ok mac buf len"
proof -
  have up: "unat (ucast p :: u32) = unat p" and pb: "unat p < 256"
    using unsigned_less [of p, where 'a = nat] by (simp_all add: unsigned_ucast_eq take_bit_nat_eq_self)
  have ul: "unat (of_nat len :: u32) = len" and um: "unat (of_nat mac :: u32) = mac"
    using assms by (simp_all add: unat_of_nat take_bit_nat_eq_self)
  have "unat (1 + of_nat mac :: u32) = 1 + mac"
    using assms(2) um by (simp add: unat_word_ariths)
  then have "unat (1 + of_nat mac + ucast p :: u32) = 1 + mac + unat p"
    using assms(2) pb up by (simp add: unat_word_ariths)
  then have fits: "1 + of_nat mac + ucast p \<le> (of_nat len :: u32) \<longleftrightarrow> unat p + 1 + mac \<le> len"
    by (simp add: word_le_nat_alt ul add.commute)
  have idx: "unat (of_nat len - 1 - (0 + of_nat k) :: u32) = len - 1 - k" if "k < len" for k
  proof -
    have "of_nat len - 1 - (0 + of_nat k) = (of_nat (len - 1 - k) :: u32)"
      using that assms(3) by (simp add: of_nat_diff)
    then show ?thesis using assms(1) by (simp add: unat_of_nat take_bit_nat_eq_self)
  qed
  have le: "0 + of_nat k \<le> (ucast p :: u32) \<longleftrightarrow> k \<le> unat p" if "k < 256" for k
    using that by (simp add: word_le_nat_alt up unat_of_nat take_bit_nat_eq_self)
  show ?thesis
    unfolding check_padding_ones constant_time_ge_eq fits padding_ok_def Let_def p [symmetric]
    using idx le pb by (auto simp: min_def split: if_splits)
qed

lemma unat_small [simp]: "n < 2 ^ 31 \<Longrightarrow> unat (of_nat n :: u32) = n"
  by (simp add: unat_of_nat take_bit_nat_eq_self)

lemma unat_sub: "n \<le> m \<Longrightarrow> m < 2 ^ 31 \<Longrightarrow> unat (of_nat m - of_nat n :: u32) = m - n"
  using unat_small [of "m - n"] by (simp add: of_nat_diff)

text \<open>What the padding functions return: the specification, on lists and natural numbers.\<close>

definition remove_padding :: "nat \<Rightarrow> SSL3_RECORD \<Rightarrow> int \<times> SSL3_RECORD" where
  "remove_padding mac rec =
     (if padding_ok mac (rec_data rec) (rec_length rec)
      then (1, rec\<lparr>rec_length := rec_length rec - (unat (rec_data rec ! (rec_length rec - 1)) + 1)\<rparr>)
      else (-1, rec))"

definition skip_iv :: "nat \<Rightarrow> SSL3_RECORD \<Rightarrow> SSL3_RECORD" where
  "skip_iv n rec = rec\<lparr>rec_data := drop n (rec_data rec), rec_length := rec_length rec - n,
     orig_len := orig_len rec - n\<rparr>"

lemma verify_padding_eq:
  fixes mac :: nat
  assumes "rec_length rec < 2 ^ 31" and "mac < 2 ^ 16" and "1 + mac \<le> rec_length rec"
  shows "verify_padding rec (of_nat mac) = remove_padding mac rec"
proof -
  let ?len = "rec_length rec" and ?p = "rec_data rec ! (rec_length rec - 1)"
  have idx: "unat (of_nat ?len - 1 :: u32) = ?len - 1" using unat_sub [of 1 ?len] assms(1,3) by simp
  have n: "unat (if (256 :: u32) > of_nat ?len then of_nat ?len else 256 :: u32) = min 256 ?len"
    using assms(1) by (simp add: word_less_nat_alt)
  define good where "good = constant_time_eq 0xff (check_padding (rec_data rec) (of_nat ?len) (ucast ?p) 0 (min 256 ?len)
    (constant_time_ge (of_nat ?len) (1 + of_nat mac + ucast ?p)) AND 0xff)"
  have v: "verify_padding rec (of_nat mac) = (sint (constant_time_select_int good 1 (- 1)),
      rec\<lparr>rec_length := unat (of_nat ?len - (good AND (ucast ?p + 1)))\<rparr>)"
    unfolding verify_padding_def Let_def idx n good_def ..
  have g: "good = (if padding_ok mac (rec_data rec) ?len then - 1 else 0)"
    unfolding good_def constant_time_eq_eq eq_commute [of "0xff :: u32"] check_padding_ok [OF assms(1-3) refl] ..
  show ?thesis
  proof (cases "padding_ok mac (rec_data rec) ?len")
    case True
    have "ucast ?p + 1 = (of_nat (unat ?p + 1) :: u32)" by simp
    moreover have "unat ?p + 1 \<le> ?len" using True unfolding padding_ok_def Let_def by linarith
    ultimately have "unat (of_nat ?len - (ucast ?p + 1) :: u32) = ?len - (unat ?p + 1)"
      using unat_sub [of "unat ?p + 1" ?len] assms(1) by metis
    with True show ?thesis by (simp add: v g remove_padding_def constant_time_select_int_def constant_time_select_def)
  next
    case False
    then show ?thesis using assms(1)
      by (simp add: v g remove_padding_def constant_time_select_int_def constant_time_select_def)
  qed
qed

text \<open>
  C8: For every record \<open>tls1_cbc_remove_padding\<close> removes the padding exactly when it is well
  formed and leaves room for the MAC, although it looks at the same bytes whatever they
  are; with an explicit IV, that is skipped first, and a record that is too short in any
  case is refused at once.
\<close>

theorem tls1_cbc_remove_padding_spec:
  fixes block mac :: nat
  assumes "rec_length rec \<le> orig_len rec" and "orig_len rec < 2 ^ 31" and "mac < 2 ^ 16" and "block < 2 ^ 16"
  shows "tls1_cbc_remove_padding explicit_iv False rec (of_nat block) (of_nat mac) =
    (let skip = (if explicit_iv then block else 0) in
     if rec_length rec < skip + mac + 1 then (0, rec)
     else remove_padding mac (if explicit_iv then skip_iv skip rec else rec))"
proof -
  let ?n = "rec_length rec"
  have len: "?n < 2 ^ 31" using assms(1,2) by simp
  have "1 + of_nat mac = (of_nat (mac + 1) :: u32)" "1 + of_nat mac + of_nat block = (of_nat (block + mac + 1) :: u32)"
    by simp_all
  then have over: "of_nat ?n < (1 + of_nat mac :: u32) \<longleftrightarrow> ?n < mac + 1"
    "of_nat ?n < (1 + of_nat mac + of_nat block :: u32) \<longleftrightarrow> ?n < block + mac + 1"
    using len assms(3,4) by (simp_all add: word_less_nat_alt del: of_nat_Suc of_nat_add)
  show ?thesis
  proof (cases explicit_iv)
    case True
    have "?n \<ge> block + mac + 1 \<Longrightarrow> rec\<lparr>rec_data := drop (unat (of_nat block :: u32)) (rec_data rec),
        rec_length := unat (of_nat ?n - of_nat block :: u32),
        orig_len := unat (of_nat (orig_len rec) - of_nat block :: u32)\<rparr> = skip_iv block rec"
      using assms len by (simp add: skip_iv_def unat_sub)
    with True over show ?thesis
      using verify_padding_eq [of "skip_iv block rec" mac] assms(3) len
      by (simp add: tls1_cbc_remove_padding_def Let_def) (simp add: skip_iv_def)
  next
    case False
    with over show ?thesis using verify_padding_eq [of rec mac] assms(3) len
      by (simp add: tls1_cbc_remove_padding_def Let_def)
  qed
qed

subsection \<open>The MAC\<close>

text \<open>
  The state of the scan at the byte \<open>i\<close>: \<open>s\<close> is where it started, the MAC lies at
  \<open>start ..< start + md\<close>. Its byte \<open>p\<close> has been put at \<open>(p - s) mod md\<close>, and all other
  places are zero.
\<close>

definition scan_inv :: "byte list \<Rightarrow> nat \<Rightarrow> nat \<Rightarrow> nat \<Rightarrow> nat \<Rightarrow> u32 \<times> u32 \<times> u32 \<times> byte list \<Rightarrow> bool" where
  "scan_inv buf md s start i = (\<lambda>(j, in_mac, rotate_offset, rotated_mac).
     length rotated_mac = md \<and> j = of_nat ((i - s) mod md) \<and>
     in_mac = mask_of (start < i \<and> i \<le> start + md) \<and>
     rotate_offset = of_nat (if start < i then (start - s) mod md else 0) \<and>
     (\<forall>p \<in> {start ..< min i (start + md)}. rotated_mac ! ((p - s) mod md) = buf ! p) \<and>
     (\<forall>k < md. (\<forall>p \<in> {start ..< min i (start + md)}. (p - s) mod md \<noteq> k) \<longrightarrow> rotated_mac ! k = 0))"

lemma residues_differ:
  fixes p q md :: nat
  assumes "s \<le> p" and "p < q" and "q < p + md"
  shows "(p - s) mod md \<noteq> (q - s) mod md"
proof
  assume e: "(p - s) mod md = (q - s) mod md"
  have "(q - s - (p - s)) mod md = 0" by (rule mod_eq_dvd_iff_nat [THEN iffD1, THEN dvd_imp_mod_0]) (use assms e in simp_all)
  with assms show False by simp
qed

lemma ucast_ucast_byte: "ucast (ucast (b :: byte) :: u32) = b"
  by (simp add: bit_eq_iff bit_simps)

lemma scan_step:
  assumes inv: "scan_inv buf md s start i (j, in_mac, rotate_offset, rotated_mac)"
    and md: "0 < md" "md \<le> 64" and bounds: "s \<le> start" "s \<le> i" "start + md < 2 ^ 31" "i < 2 ^ 31"
    and e: "started = constant_time_eq (of_nat i) (of_nat start)" "ended = constant_time_lt (of_nat i) (of_nat (start + md))"
      "in_mac' = (in_mac OR started) AND ended"
      "rotated' = rotated_mac[unat j := rotated_mac ! unat j OR ucast (ucast (buf ! i) AND in_mac')]"
  shows "scan_inv buf md s start (Suc i)
    ((j + 1) AND constant_time_lt (j + 1) (of_nat md), in_mac', rotate_offset OR (j AND started), rotated')"
proof -
  let ?r = "(i - s) mod md"
  from inv have len: "length rotated_mac = md" and j: "j = of_nat ?r"
    and im: "in_mac = mask_of (start < i \<and> i \<le> start + md)"
    and ro: "rotate_offset = of_nat (if start < i then (start - s) mod md else 0)"
    and put: "\<forall>p \<in> {start ..< min i (start + md)}. rotated_mac ! ((p - s) mod md) = buf ! p"
    and zero: "\<forall>k < md. (\<forall>p \<in> {start ..< min i (start + md)}. (p - s) mod md \<noteq> k) \<longrightarrow> rotated_mac ! k = 0"
    by (simp_all add: scan_inv_def)
  have r: "?r < md" using md by simp
  have "?r < 2 ^ 31" by (rule order_less_trans [OF r]) (use md in simp)
  then have uj: "unat j = ?r" unfolding j by (rule unat_small)
  have st: "started = mask_of (i = start)" and en: "ended = mask_of (i < start + md)"
    using bounds by (simp_all add: e constant_time_eq_eq constant_time_lt_eq word_less_nat_alt
        word_unat_eq_iff del: of_nat_add)
  have im': "in_mac' = mask_of (start \<le> i \<and> i < start + md)"
    by (auto simp: e(3) im st en)
  have next_j: "(j + 1) AND constant_time_lt (j + 1) (of_nat md) = of_nat ((Suc i - s) mod md)"
  proof -
    have "j + 1 = of_nat (Suc ?r)" by (simp add: j)
    moreover have "(of_nat (Suc ?r) :: u32) < of_nat md \<longleftrightarrow> Suc ?r < md"
    proof -
      have "Suc ?r < 2 ^ 31" by (rule order_le_less_trans [OF Suc_leI [OF r]]) (use md in simp)
      then have "unat (of_nat (Suc ?r) :: u32) = Suc ?r" by (rule unat_small)
      then show ?thesis using md by (simp add: word_less_nat_alt del: of_nat_Suc)
    qed
    moreover have "\<not> Suc ?r < md \<Longrightarrow> Suc ?r = md" using r by linarith
    ultimately show ?thesis using bounds(2) by (auto simp add: constant_time_lt_eq Suc_diff_le mod_Suc add.commute)
  qed
  have other: "(p - s) mod md \<noteq> ?r" if "p \<in> {start ..< min i (start + md)}" "i < start + md" for p
    using residues_differ [of s p i md] that bounds by simp
  have rot: "rotated' = (if start \<le> i \<and> i < start + md then rotated_mac[?r := buf ! i] else rotated_mac)"
  proof (cases "start \<le> i \<and> i < start + md")
    case True
    with zero other r have "rotated_mac ! ?r = 0" by blast
    with True show ?thesis by (simp add: e(4) uj im' ucast_ucast_byte)
  next
    case False
    then show ?thesis by (auto simp: e(4) uj im')
  qed
  have ro': "rotate_offset OR (j AND started) = of_nat (if start < Suc i then (start - s) mod md else 0)"
    using ro st j by auto
  have put': "rotated' ! ((p - s) mod md) = buf ! p" if p: "p \<in> {start ..< min (Suc i) (start + md)}" for p
  proof (cases "p = i")
    case True
    with p r len show ?thesis by (simp add: rot)
  next
    case False
    with p have "p \<in> {start ..< min i (start + md)}" by auto
    with put other [OF this] show ?thesis by (auto simp: rot)
  qed
  have zero': "rotated' ! k = 0"
    if "k < md" "\<forall>p \<in> {start ..< min (Suc i) (start + md)}. (p - s) mod md \<noteq> k" for k
  proof -
    from that(2) have "\<forall>p \<in> {start ..< min i (start + md)}. (p - s) mod md \<noteq> k" by simp
    moreover have "?r \<noteq> k" if "start \<le> i \<and> i < start + md"
      using \<open>\<forall>p \<in> {start ..< min (Suc i) _}. _\<close> that by simp
    ultimately show ?thesis using zero that(1) by (auto simp: rot)
  qed
  show ?thesis
    using len im' next_j ro' put' zero' by (auto simp: scan_inv_def rot less_Suc_eq_le)
qed

lemma scan_all:
  assumes "scan_inv buf md s start i st" and "0 < md" "md \<le> 64" "s \<le> start" "s \<le> i"
    and "start + md < 2 ^ 31" "i + n < 2 ^ 31"
  shows "scan_inv buf md s start (i + n)
    (mac_scan buf (of_nat md) (of_nat start) (of_nat (start + md)) (of_nat i) n st)"
  using assms
proof (induction n arbitrary: i st)
  case (Suc n)
  obtain j in_mac ro rot where st: "st = (j, in_mac, ro, rot)" by (metis prod_cases4)
  have "unat (of_nat i :: u32) = i" using Suc.prems by simp
  then have "mac_scan buf (of_nat md) (of_nat start) (of_nat (start + md)) (of_nat i) (Suc n) st =
      mac_scan buf (of_nat md) (of_nat start) (of_nat (start + md)) (of_nat (Suc i)) n
       (let started = constant_time_eq (of_nat i) (of_nat start); ended = constant_time_lt (of_nat i) (of_nat (start + md));
            in_mac' = (in_mac OR started) AND ended
        in ((j + 1) AND constant_time_lt (j + 1) (of_nat md), in_mac', ro OR (j AND started),
            rot[unat j := rot ! unat j OR ucast (ucast (buf ! i) AND in_mac')]))"
    by (simp add: st Let_def add.commute del: of_nat_add)
  then show ?case
    using Suc.prems Suc.IH [of "Suc i"] scan_step [OF _ Suc.prems(2-6) _ refl refl refl refl] 
    by (simp add: st Let_def)
qed simp

lemma mac_rotate_eq:
  assumes "r < md" and "md \<le> 64"
  shows "mac_rotate rotated (of_nat md) (of_nat r) n = map (\<lambda>k. rotated ! ((r + k) mod md)) [0 ..< n]"
  using assms
proof (induction n arbitrary: r)
  case (Suc n)
  let ?r' = "Suc r mod md"
  have r: "unat (of_nat r :: u32) = r" "unat (of_nat (Suc r) :: u32) = Suc r" "unat (of_nat md :: u32) = md"
    using Suc.prems by (simp_all del: of_nat_Suc)
  have w: "(of_nat r + 1 :: u32) = of_nat (Suc r)" by simp
  have "(of_nat r + 1) AND constant_time_lt (of_nat r + 1) (of_nat md) = (of_nat ?r' :: u32)"
  proof (cases "Suc r < md")
    case True
    then show ?thesis unfolding w constant_time_lt_eq word_less_nat_alt r by simp
  next
    case False
    with Suc.prems have "Suc r = md" by simp
    then show ?thesis unfolding w constant_time_lt_eq word_less_nat_alt r by simp
  qed
  then have "mac_rotate rotated (of_nat md) (of_nat r) (Suc n) =
      rotated ! r # mac_rotate rotated (of_nat md) (of_nat ?r') n"
    by (simp add: Let_def r)
  also have "\<dots> = rotated ! r # map (\<lambda>k. rotated ! ((?r' + k) mod md)) [0 ..< n]"
    using Suc.IH [of ?r'] Suc.prems by simp
  also have "\<dots> = map (\<lambda>k. rotated ! ((r + k) mod md)) [0 ..< Suc n]"
    using Suc.prems by (simp add: map_upt_Suc mod_simps del: upt_Suc)
  finally show ?case .
qed simp

text \<open>
  C9: \<open>ssl3_cbc_copy_mac\<close> copies the last \<open>md\<close> bytes of the record, provided that at most 256
  bytes of padding were removed from it, although it reads the same bytes wherever the
  MAC lies.
\<close>

theorem ssl3_cbc_copy_mac_spec:
  fixes md :: nat
  assumes "0 < md" and "md \<le> 64" and "md \<le> rec_length rec" and "rec_length rec \<le> orig_len rec"
    and "orig_len rec \<le> rec_length rec + 256" and "orig_len rec < 2 ^ 31" and "orig_len rec \<le> length (rec_data rec)"
  shows "ssl3_cbc_copy_mac rec (of_nat md) = Some (take md (drop (rec_length rec - md) (rec_data rec)))"
proof -
  let ?buf = "rec_data rec" and ?start = "rec_length rec - md" and ?orig = "orig_len rec"
  define s where "s = (if ?orig > md + 256 then ?orig - (md + 256) else 0)"
  have s: "s \<le> ?start" "s \<le> ?orig" using assms by (auto simp: s_def)
  have start: "of_nat (rec_length rec) - of_nat md = (of_nat ?start :: u32)" using assms by (simp add: of_nat_diff)
  have "(of_nat md + 255 + 1 :: u32) = of_nat (md + 256)" by simp
  then have ws: "(if (of_nat ?orig :: u32) > of_nat md + 255 + 1 then of_nat ?orig - (of_nat md + 255 + 1) else 0) = (of_nat s :: u32)"
    using assms(2,6) by (simp add: s_def word_less_nat_alt of_nat_diff del: of_nat_add)
  define st where "st = mac_scan ?buf (of_nat md) (of_nat ?start) (of_nat (?start + md)) (of_nat s) (?orig - s)
    (0, 0, 0, replicate md 0)"
  have "scan_inv ?buf md s ?start s (0, 0, 0, replicate md 0)"
    using assms(1) s by (simp add: scan_inv_def)
  from scan_all [OF this, of "?orig - s"] assms s have inv: "scan_inv ?buf md s ?start ?orig st"
    by (simp add: st_def)
  obtain j in_mac ro rot where st: "st = (j, in_mac, ro, rot)" by (metis prod_cases4)
  let ?r = "(?start - s) mod md"
  from inv st assms(1,3,4) have ro: "ro = of_nat ?r" and
    put: "\<forall>p \<in> {?start ..< ?start + md}. rot ! ((p - s) mod md) = ?buf ! p"
    by (simp_all add: scan_inv_def)
  have "rot ! ((?r + k) mod md) = ?buf ! (?start + k)" if "k < md" for k
  proof -
    have "?start + k - s = ?start - s + k" using s by simp
    then have "(?r + k) mod md = (?start + k - s) mod md" by (simp add: mod_simps)
    with put that show ?thesis by simp
  qed
  then have "mac_rotate rot (of_nat md) ro md = map (\<lambda>k. ?buf ! (?start + k)) [0 ..< md]"
    using assms(1,2) by (simp add: ro mac_rotate_eq)
  also have "\<dots> = take md (drop ?start ?buf)"
    using assms by (intro nth_equalityI) simp_all
  finally have out: "mac_rotate rot (of_nat md) ro md = take md (drop ?start ?buf)" .
  have u: "unat (of_nat md :: u32) = md" "unat (of_nat ?orig :: u32) = ?orig" "unat (of_nat s :: u32) = s"
    using assms s by simp_all
  have "\<not> (\<not> (of_nat ?orig :: u32) \<ge> of_nat md \<or> \<not> (of_nat md :: u32) \<le> 64)"
    using assms u by (simp add: word_le_nat_alt)
  moreover have "?start + md = rec_length rec" using assms by simp
  ultimately show ?thesis
    using st out unfolding ssl3_cbc_copy_mac_def Let_def start ws u st_def by simp
qed

text \<open>SSLv3 requires the padding to be at most one block.\<close>

lemma ssl3_cbc_remove_padding_spec:
  fixes block mac :: nat
  assumes "rec_length rec < 2 ^ 31" and "mac < 2 ^ 16" and "block < 2 ^ 16"
  defines "p \<equiv> unat (rec_data rec ! (rec_length rec - 1))"
  shows "ssl3_cbc_remove_padding rec (of_nat block) (of_nat mac) =
    (if rec_length rec < mac + 1 then (0, rec)
     else if p + 1 + mac \<le> rec_length rec \<and> p + 1 \<le> block
     then (1, rec\<lparr>rec_length := rec_length rec - (p + 1)\<rparr>) else (-1, rec))"
proof -
  let ?n = "rec_length rec"
  have over: "of_nat ?n < (1 + of_nat mac :: u32) \<longleftrightarrow> ?n < mac + 1"
    using assms(1,2) unat_small [of "mac + 1"] by (simp add: word_less_nat_alt)
  show ?thesis
  proof (cases "?n < mac + 1")
    case True
    then show ?thesis by (simp add: ssl3_cbc_remove_padding_def over Let_def)
  next
    case False
    then have idx: "unat (of_nat ?n - 1 :: u32) = ?n - 1" using unat_sub [of 1 ?n] assms(1) by simp
    have pb: "p < 256" using unsigned_less [of "rec_data rec ! (?n - 1)", where 'a = nat] by (simp add: p_def)
    have w: "ucast (rec_data rec ! (?n - 1)) = (of_nat p :: u32)" by (simp add: p_def)
    have fits: "of_nat p + (1 + of_nat mac) \<le> (of_nat ?n :: u32) \<longleftrightarrow> p + 1 + mac \<le> ?n"
      using pb assms(1,2) unat_small [of "p + 1 + mac"] by (simp add: word_le_nat_alt ac_simps)
    have small: "of_nat p + 1 \<le> (of_nat block :: u32) \<longleftrightarrow> p + 1 \<le> block"
      using pb assms(3) unat_small [of "p + 1"] by (simp add: word_le_nat_alt ac_simps)
    have "p + 1 \<le> ?n \<Longrightarrow> unat (of_nat ?n - (of_nat p + 1) :: u32) = ?n - (p + 1)"
      using unat_sub [of "p + 1" ?n] assms(1) by (simp add: add.commute)
    with False assms(1) show ?thesis
      unfolding ssl3_cbc_remove_padding_def over Let_def idx w constant_time_ge_eq fits small
      by (auto simp: constant_time_select_int_def constant_time_select_def)
  qed
qed

text \<open>
  A record that ends in a message, its MAC and well-formed padding is opened: the padding
  is removed, and the MAC found is the MAC.
\<close>

theorem cbc_record_opened:
  assumes "rec_data rec = msg @ mac @ replicate (p + 1) (of_nat p)" and "p < 256"
    and "rec_length rec = length (rec_data rec)" and "orig_len rec = rec_length rec"
    and "0 < length mac" and "length mac \<le> 64" and "rec_length rec < 2 ^ 31" and "block < 2 ^ 16"
  shows "tls1_cbc_remove_padding False False rec (of_nat block) (of_nat (length mac)) =
      (1, rec\<lparr>rec_length := length (msg @ mac)\<rparr>) \<and>
    ssl3_cbc_copy_mac (rec\<lparr>rec_length := length (msg @ mac)\<rparr>) (of_nat (length mac)) = Some mac"
proof -
  let ?n = "length msg + length mac + p + 1"
  have n: "rec_length rec = ?n" using assms(1,3) by simp
  have pad: "rec_data rec ! (?n - 1 - k) = of_nat p" if "k \<le> p" for k
  proof -
    have "?n - 1 - k = length (msg @ mac) + (p - k)" using that by simp
    moreover have "rec_data rec = (msg @ mac) @ replicate (p + 1) (of_nat p)" by (simp add: assms(1))
    ultimately have "rec_data rec ! (?n - 1 - k) = replicate (p + 1) (of_nat p) ! (p - k)"
      by (metis nth_append_length_plus)
    then show ?thesis by (simp del: replicate_Suc)
  qed
  have up: "unat (of_nat p :: byte) = p" using assms(2) by (simp add: unat_of_nat take_bit_nat_eq_self)
  have last: "rec_data rec ! (?n - 1) = of_nat p" using pad [of 0] by simp
  have "padding_ok (length mac) (rec_data rec) (rec_length rec)"
    unfolding padding_ok_def n last Let_def up using pad by simp
  then have "remove_padding (length mac) rec = (1, rec\<lparr>rec_length := length (msg @ mac)\<rparr>)"
    unfolding remove_padding_def n last up by simp
  moreover have "tls1_cbc_remove_padding False False rec (of_nat block) (of_nat (length mac)) = remove_padding (length mac) rec"
    using tls1_cbc_remove_padding_spec [of rec "length mac" block False] assms(4-8) n by simp
  moreover have "ssl3_cbc_copy_mac (rec\<lparr>rec_length := length (msg @ mac)\<rparr>) (of_nat (length mac)) = Some mac"
    using ssl3_cbc_copy_mac_spec [of "length mac" "rec\<lparr>rec_length := length (msg @ mac)\<rparr>"] assms n by simp
  ultimately show ?thesis by simp
qed

definition demo_record :: SSL3_RECORD where
  "demo_record = \<lparr>rec_type = 22, rec_length = 8, orig_len = 8, rec_off = 0,
     rec_data = [1, 2, 3, 0xA0, 0xA1, 2, 2, 2], rec_epoch = 0, rec_seq_num = seq_zero\<rparr>"

theorem cbc_record_opened_witness:
  "tls1_cbc_remove_padding False False demo_record 8 2 = (1, demo_record\<lparr>rec_length := 5\<rparr>) \<and>
   ssl3_cbc_copy_mac (demo_record\<lparr>rec_length := 5\<rparr>) 2 = Some [0xA0, 0xA1]"
proof -
  have "rec_data demo_record = [1, 2, 3] @ [0xA0, 0xA1] @ replicate (2 + 1) (of_nat 2)"
    by (simp add: demo_record_def numeral_3_eq_3)
  note opened = cbc_record_opened [OF this, of 8]
  have len: "length ([1, 2, 3 :: byte] @ [0xA0, 0xA1]) = 5" by simp
  show ?thesis using opened unfolding len by (simp add: demo_record_def)
qed

theorem tls1_cbc_remove_padding_spec_witness:
  "tls1_cbc_remove_padding True False demo_record 3 2 =
     (1, demo_record\<lparr>rec_data := [0xA0, 0xA1, 2, 2, 2], rec_length := 2, orig_len := 5\<rparr>)"
proof -
  have "[0xA0, 0xA1, 2, 2, 2] ! (4 - k) = (2 :: byte)" if "k \<le> 2" for k :: nat
  proof -
    from that consider "k = 0" | "k = 1" | "k = 2" by linarith
    then show ?thesis by cases simp_all
  qed
  then have "padding_ok 2 [0xA0, 0xA1, 2, 2, 2] 5" by (simp add: padding_ok_def)
  then show ?thesis
    using tls1_cbc_remove_padding_spec [of demo_record 2 3 True]
    by (simp add: demo_record_def remove_padding_def skip_iv_def)
qed

theorem ssl3_cbc_copy_mac_spec_witness: "ssl3_cbc_copy_mac (demo_record\<lparr>rec_length := 7\<rparr>) 3 = Some [0xA1, 2, 2]"
  using ssl3_cbc_copy_mac_spec [of 3 "demo_record\<lparr>rec_length := 7\<rparr>"] by (simp add: demo_record_def)

end
