(* ===== verification/Dtls_Records.thy ===== *)
theory Dtls_Records
  imports Cbc_Padding
begin

text \<open>
  The receiving half of the DTLS record layer: the replay window (record/dtls1_bitmap.c),
  the buffering of records of the next epoch (record/rec_layer_d1.c) and the loop that
  reads a record (\<open>dtls1_get_record\<close> in record/ssl3_record.c), without SCTP and message
  callbacks. \<open>unsigned long\<close> has 64 bits.
\<close>

subsection \<open>The replay window\<close>

record DTLS1_BITMAP =
  bm_map :: u64
  max_seq_num :: seq64

definition satsub64be :: "seq64 \<Rightarrow> seq64 \<Rightarrow> int" where
  "satsub64be v1 v2 =
     (let l1 = seq_value v1; l2 = seq_value v2; ret = sint (l1 - l2) in
      if l1 > l2 \<and> ret < 0 then 128
      else if l2 > l1 \<and> ret > 0 then -128
      else if ret > 128 then 128
      else if ret < -128 then -128
      else ret)"

definition dtls1_record_replay_check :: "seq64 \<Rightarrow> DTLS1_BITMAP \<Rightarrow> bool" where
  "dtls1_record_replay_check seq bitmap =
     (let cmp = satsub64be seq (max_seq_num bitmap) in
      if cmp > 0 then True
      else let shift = nat (- cmp) in
           if shift \<ge> 64 then False
           else if bm_map bitmap AND push_bit shift 1 \<noteq> 0 then False
           else True)"

definition dtls1_record_bitmap_update :: "seq64 \<Rightarrow> DTLS1_BITMAP \<Rightarrow> DTLS1_BITMAP" where
  "dtls1_record_bitmap_update seq bitmap =
     (let cmp = satsub64be seq (max_seq_num bitmap) in
      if cmp > 0
      then let shift = nat cmp;
               bitmap = (if shift < 64 then bitmap\<lparr>bm_map := push_bit shift (bm_map bitmap) OR 1\<rparr>
                         else bitmap\<lparr>bm_map := 1\<rparr>)
           in bitmap\<lparr>max_seq_num := seq\<rparr>
      else let shift = nat (- cmp) in
           if shift < 64 then bitmap\<lparr>bm_map := bm_map bitmap OR push_bit shift 1\<rparr> else bitmap)"

definition zero_bitmap :: DTLS1_BITMAP where
  "zero_bitmap = \<lparr>bm_map = 0, max_seq_num = seq_zero\<rparr>"

text \<open>
  What the window stands for: the numbers received since the window was cleared, with the
  greatest of them, or zero. The window covers the last 64 numbers up to the greatest.
\<close>

definition window_ok :: "nat set \<Rightarrow> DTLS1_BITMAP \<Rightarrow> bool" where
  "window_ok rcvd bitmap \<longleftrightarrow>
     (let m = unat (seq_value (max_seq_num bitmap)) in
      (\<forall>n \<in> rcvd. n \<le> m) \<and> (m \<in> rcvd \<or> m = 0) \<and>
      (\<forall>k < 64. bit (bm_map bitmap) k \<longleftrightarrow> k \<le> m \<and> m - k \<in> rcvd))"

definition seq_nat :: "seq64 \<Rightarrow> nat" where
  "seq_nat s = unat (seq_value s)"

lemma seq_nat_zero [simp]: "seq_nat seq_zero = 0"
  by (simp add: seq_nat_def unat_seq_value seq_zero.rep_eq be_value_def numeral_eq_Suc)

lemma seq_nat_inject: "seq_nat s = seq_nat t \<longleftrightarrow> s = t"
  by (simp add: seq_nat_def seq_value_inject flip: word_unat_eq_iff)

text \<open>The saturating difference, as an integer.\<close>

lemma sint_diff: "sint (v - w :: u64) = (uint v - uint w + 2 ^ 63) mod 2 ^ 64 - 2 ^ 63"
proof -
  have "sint (v - w) = (uint (v - w) + 2 ^ 63) mod 2 ^ 64 - 2 ^ 63"
    by (simp add: sint_uint signed_take_bit_eq_take_bit_shift take_bit_eq_mod)
  also have "uint (v - w) = (uint v - uint w) mod 2 ^ 64"
    by (simp add: uint_word_ariths)
  finally show ?thesis by (simp add: mod_simps)
qed

lemma satsub64be_eq:
  "satsub64be v1 v2 = max (-128) (min 128 (int (seq_nat v1) - int (seq_nat v2)))"
proof -
  define a b where ab: "a = uint (seq_value v1)" "b = uint (seq_value v2)"
  have u: "int (seq_nat v1) = a" "int (seq_nat v2) = b" by (simp_all add: ab seq_nat_def)
  have r: "0 \<le> a" "a < 2 ^ 64" "0 \<le> b" "b < 2 ^ 64"
    using uint_lt2p [of "seq_value v1"] uint_lt2p [of "seq_value v2"] by (simp_all add: ab)
  have l: "seq_value v2 < seq_value v1 \<longleftrightarrow> b < a" "seq_value v1 < seq_value v2 \<longleftrightarrow> a < b"
    by (simp_all add: ab word_less_def)
  define d where "d = (a - b + 2 ^ 63) mod 2 ^ 64 - 2 ^ 63"
  have d: "sint (seq_value v1 - seq_value v2) = d" by (simp add: sint_diff d_def ab)
  consider "a - b < - (2 ^ 63)" | "- (2 ^ 63) \<le> a - b" "a - b < 2 ^ 63" | "2 ^ 63 \<le> a - b" by linarith
  then show ?thesis
  proof cases
    case 1
    then have "(a - b + 2 ^ 63 + 2 ^ 64) mod 2 ^ 64 = a - b + 2 ^ 63 + 2 ^ 64"
      using r by (intro mod_pos_pos_trivial) simp_all
    then have "d = a - b + 2 ^ 64" unfolding d_def mod_add_self2 by simp
    with 1 r show ?thesis by (simp add: satsub64be_def Let_def d u l)
  next
    case 2
    then have "d = a - b" using mod_pos_pos_trivial [of "a - b + 2 ^ 63" "2 ^ 64 :: int"] by (simp add: d_def)
    with 2 show ?thesis by (simp add: satsub64be_def Let_def d u l)
  next
    case 3
    then have "(a - b + 2 ^ 63 - 2 ^ 64) mod 2 ^ 64 = a - b + 2 ^ 63 - 2 ^ 64"
      using r by (intro mod_pos_pos_trivial) simp_all
    then have "d = a - b - 2 ^ 64" unfolding d_def minus_mod_self2 by simp
    with 3 r show ?thesis by (simp add: satsub64be_def Let_def d u l)
  qed
qed

lemma window_ok_zero: "window_ok {} zero_bitmap"
  by (simp add: window_ok_def zero_bitmap_def seq_nat_zero [unfolded seq_nat_def])

lemma replay_check_iff:
  assumes "window_ok rcvd bitmap"
  shows "dtls1_record_replay_check seq bitmap \<longleftrightarrow>
    seq_nat seq \<notin> rcvd \<and> seq_nat (max_seq_num bitmap) < seq_nat seq + 64"
proof -
  let ?m = "seq_nat (max_seq_num bitmap)" and ?n = "seq_nat seq"
  have w: "\<forall>n \<in> rcvd. n \<le> ?m" "\<And>k. k < 64 \<Longrightarrow> bit (bm_map bitmap) k \<longleftrightarrow> k \<le> ?m \<and> ?m - k \<in> rcvd"
    using assms by (auto simp: window_ok_def seq_nat_def Let_def)
  consider "?m < ?n" | "?n \<le> ?m" "?m - ?n < 64" | "?n + 64 \<le> ?m" by linarith
  then show ?thesis
  proof cases
    case 1
    with w(1) show ?thesis by (auto simp: dtls1_record_replay_check_def satsub64be_eq)
  next
    case 2
    then have "nat (- satsub64be seq (max_seq_num bitmap)) = ?m - ?n" "\<not> satsub64be seq (max_seq_num bitmap) > 0"
      by (simp_all add: satsub64be_eq)
    with 2 w(2) [of "?m - ?n"] show ?thesis
      by (auto simp: dtls1_record_replay_check_def Let_def and_exp_eq_0_iff_not_bit)
  next
    case 3
    then show ?thesis by (auto simp: dtls1_record_replay_check_def Let_def satsub64be_eq)
  qed
qed

lemma bitmap_update_ok:
  assumes "window_ok rcvd bitmap" and "dtls1_record_replay_check seq bitmap"
  shows "window_ok (insert (seq_nat seq) rcvd) (dtls1_record_bitmap_update seq bitmap)"
proof -
  let ?m = "seq_nat (max_seq_num bitmap)" and ?n = "seq_nat seq"
  have w: "\<forall>n \<in> rcvd. n \<le> ?m" "?m \<in> rcvd \<or> ?m = 0"
    "\<And>k. k < 64 \<Longrightarrow> bit (bm_map bitmap) k \<longleftrightarrow> k \<le> ?m \<and> ?m - k \<in> rcvd"
    using assms(1) by (auto simp: window_ok_def seq_nat_def Let_def)
  show ?thesis
  proof (cases "?m < ?n")
    case True
    let ?d = "?n - ?m"
    have shift: "bit (if ?d < 64 then push_bit ?d (bm_map bitmap) OR 1 else 1) k \<longleftrightarrow>
        k = 0 \<or> ?d \<le> k \<and> bit (bm_map bitmap) (k - ?d)" if "k < 64" for k
      using that by (auto simp: bit_simps)
    have "nat (satsub64be seq (max_seq_num bitmap)) < 64 \<longleftrightarrow> ?d < 64"
      "?d < 64 \<Longrightarrow> nat (satsub64be seq (max_seq_num bitmap)) = ?d"
      "satsub64be seq (max_seq_num bitmap) > 0"
      using True by (auto simp: satsub64be_eq)
    then have u: "dtls1_record_bitmap_update seq bitmap =
        \<lparr>bm_map = (if ?d < 64 then push_bit ?d (bm_map bitmap) OR 1 else 1), max_seq_num = seq\<rparr>"
      by (simp add: dtls1_record_bitmap_update_def Let_def)
    have "k = 0 \<or> ?d \<le> k \<and> bit (bm_map bitmap) (k - ?d) \<longleftrightarrow> k \<le> ?n \<and> (k = 0 \<or> ?n - k \<in> rcvd)"
      if "k < 64" for k
    proof (cases "?d \<le> k")
      case True
      with \<open>?m < ?n\<close> that w(3) [of "k - ?d"] show ?thesis by auto
    next
      case False
      with w(1) have "k = 0 \<or> ?n - k \<notin> rcvd" by fastforce
      with False show ?thesis by auto
    qed
    with True w(1) shift show ?thesis
      by (auto simp: window_ok_def u Let_def simp flip: seq_nat_def)
  next
    case False
    with assms(2) have d: "?m - ?n < 64" unfolding replay_check_iff [OF assms(1)] by linarith
    let ?d = "?m - ?n"
    have "nat (- satsub64be seq (max_seq_num bitmap)) = ?d" "\<not> satsub64be seq (max_seq_num bitmap) > 0"
      using False d by (simp_all add: satsub64be_eq)
    then have u: "dtls1_record_bitmap_update seq bitmap = bitmap\<lparr>bm_map := bm_map bitmap OR push_bit ?d 1\<rparr>"
      using d by (simp add: dtls1_record_bitmap_update_def Let_def)
    have "bit (bm_map bitmap OR push_bit ?d 1) k \<longleftrightarrow> k \<le> ?m \<and> (?m - k \<in> insert ?n rcvd)" if "k < 64" for k
      using that d False w(3) [of k] by (auto simp: bit_simps)
    with False w(1,2) show ?thesis
      by (auto simp: window_ok_def u Let_def simp flip: seq_nat_def)
  qed
qed

subsection \<open>Records and their buffers\<close>

record DTLS1_RECORD_DATA =
  rd_packet :: "byte list"
  rd_packet_length :: nat
  rd_rbuf_left :: nat
  rd_rrec :: SSL3_RECORD

datatype record_alert = AL_RECORD_OVERFLOW | AL_DECODE_ERROR | AL_DECOMPRESSION_FAILURE

text \<open>
  The members of \<open>RECORD_LAYER\<close> and \<open>DTLS_RECORD_LAYER\<close> that the receiving side uses,
  and the fatal alerts that it sends. The last two are not in the code: \<open>key_gen\<close> counts the changes of the reading keys, and
  \<open>accepted\<close> logs the records that pass \<open>dtls1_process_record\<close>, each with the keys in use
  and its sequence number.
\<close>

record record_layer =
  rrec :: SSL3_RECORD
  packet :: "byte list"
  packet_length :: nat
  rbuf_left :: nat
  read_sequence :: seq64
  r_epoch :: u16
  cur_bitmap :: DTLS1_BITMAP
  next_bitmap :: DTLS1_BITMAP
  unprocessed_rcds :: "DTLS1_RECORD_DATA pqueue"
  unprocessed_epoch :: u16
  processed_rcds :: "DTLS1_RECORD_DATA pqueue"
  processed_epoch :: u16
  alerts :: "record_alert list"
  key_gen :: nat
  accepted :: "(nat \<times> seq64) list"

text \<open>\<open>DTLS_RECORD_LAYER_new\<close> allocates, without clearing, and makes the queues.\<close>

definition DTLS_RECORD_LAYER_new :: "record_layer \<Rightarrow> record_layer" where
  "DTLS_RECORD_LAYER_new garbage = garbage\<lparr>unprocessed_rcds := pqueue_new, processed_rcds := pqueue_new\<rparr>"

function drain :: "'d pqueue \<Rightarrow> 'd pqueue" where
  "drain q = (case pqueue_pop q of (None, q) \<Rightarrow> q | (Some item, q) \<Rightarrow> drain q)"
  by pat_completeness auto

termination drain
  by (relation "measure (\<lambda>q. length (items q))") (auto simp: pqueue_pop_def split: list.splits)

declare drain.simps [simp del]

definition DTLS_RECORD_LAYER_clear :: "record_layer \<Rightarrow> record_layer" where
  "DTLS_RECORD_LAYER_clear rl =
     rl\<lparr>r_epoch := 0, cur_bitmap := zero_bitmap, next_bitmap := zero_bitmap,
        unprocessed_rcds := drain (unprocessed_rcds rl), unprocessed_epoch := 0,
        processed_rcds := drain (processed_rcds rl), processed_epoch := 0\<rparr>"

text \<open>Clearing the layer ends a connection, and with it the use of its keys.\<close>

definition RECORD_LAYER_clear :: "record_layer \<Rightarrow> record_layer" where
  "RECORD_LAYER_clear rl =
     DTLS_RECORD_LAYER_clear (rl\<lparr>packet := [], packet_length := 0, rbuf_left := 0, rrec := zero_record,
       read_sequence := seq_zero, key_gen := key_gen rl + 1\<rparr>)"

text \<open>A new connection, with empty logs.\<close>

definition dtls1_new :: "record_layer \<Rightarrow> record_layer" where
  "dtls1_new garbage =
     (RECORD_LAYER_clear (DTLS_RECORD_LAYER_new garbage))\<lparr>alerts := [], key_gen := 0, accepted := []\<rparr>"

definition blank_layer :: record_layer where
  "blank_layer = \<lparr>rrec = zero_record, packet = [], packet_length = 0, rbuf_left = 0,
     read_sequence = seq_zero, r_epoch = 0, cur_bitmap = zero_bitmap, next_bitmap = zero_bitmap,
     unprocessed_rcds = pqueue_new, unprocessed_epoch = 0, processed_rcds = pqueue_new,
     processed_epoch = 0, alerts = [], key_gen = 0, accepted = []\<rparr>"

lemma drain_empty [simp]: "items (drain q) = []"
  by (induction q rule: drain.induct) (subst drain.simps, auto simp: pqueue_pop_def split: list.splits)

lemma drain_new [simp]: "drain pqueue_new = pqueue_new"
  by (simp add: drain.simps [of pqueue_new] pqueue_pop_def) (simp add: pqueue_new_def)

lemma dtls1_new_eq: "dtls1_new garbage = blank_layer"
  by (cases garbage) (simp add: dtls1_new_def RECORD_LAYER_clear_def DTLS_RECORD_LAYER_new_def
      DTLS_RECORD_LAYER_clear_def blank_layer_def)

text \<open>
  Where the outcome depends on allocations and on code outside this layer: the functions
  \<open>ssl3_enc->enc\<close> and \<open>ssl3_enc->mac\<close> of the method, with the sequence number of the
  record (None for a negative result of the latter), \<open>mac_size\<close> the size of the digest or
  None without a session or digest, the mode of the cipher, \<open>COMP_expand_block\<close> when
  \<open>s->expand\<close> is set, and \<open>SSL_in_init(s) || ossl_statem_get_in_handshake(s)\<close>.
\<close>

record dtls_env =
  item_alloc_ok :: bool
  setup_buffers_ok :: bool
  enc :: "seq64 \<Rightarrow> SSL3_RECORD \<Rightarrow> int \<times> SSL3_RECORD"
  mac :: "seq64 \<Rightarrow> SSL3_RECORD \<Rightarrow> byte list option"
  mac_size :: "nat option"
  cbc_mode :: bool
  expand_block :: "(byte list \<Rightarrow> byte list option) option"
  ssl_version :: nat
  first_packet :: bool
  in_handshake :: bool

text \<open>\<open>memcpy(&read_sequence[2], ..., 6)\<close>.\<close>

definition set_seq_low :: "byte list \<Rightarrow> seq64 \<Rightarrow> seq64" where
  "set_seq_low low s = seq64 (take 2 (seq_bytes s) @ take 6 (low @ replicate 6 0))"

lemma seq_bytes_set_low [code abstract]:
  "seq_bytes (set_seq_low low s) = take 2 (seq_bytes s) @ take 6 (low @ replicate 6 0)"
  by (simp add: set_seq_low_def seq64_inverse)

definition dtls1_copy_record :: "DTLS1_RECORD_DATA \<Rightarrow> record_layer \<Rightarrow> record_layer" where
  "dtls1_copy_record rdata rl =
     rl\<lparr>packet := rd_packet rdata, packet_length := rd_packet_length rdata,
        rbuf_left := rd_rbuf_left rdata, rrec := rd_rrec rdata,
        read_sequence := set_seq_low (take 6 (drop 5 (rd_packet rdata))) (read_sequence rl)\<rparr>"

definition dtls1_buffer_record ::
  "dtls_env \<Rightarrow> seq64 \<Rightarrow> DTLS1_RECORD_DATA pqueue \<Rightarrow> record_layer
   \<Rightarrow> int \<times> DTLS1_RECORD_DATA pqueue \<times> record_layer" where
  "dtls1_buffer_record env prio q rl =
     (if pqueue_size q \<ge> 100 then (0, q, rl)
      else if \<not> item_alloc_ok env then (-1, q, rl)
      else let rdata = \<lparr>rd_packet = packet rl, rd_packet_length = packet_length rl,
                        rd_rbuf_left = rbuf_left rl, rd_rrec = rrec rl\<rparr>;
               rl = rl\<lparr>packet := [], packet_length := 0, rbuf_left := 0, rrec := zero_record\<rparr>
           in if \<not> setup_buffers_ok env then (-1, q, rl)
              else case pqueue_insert (pitem_new prio rdata) q of
                     (None, q) \<Rightarrow> (-1, q, rl)
                   | (Some _, q) \<Rightarrow> (1, q, rl))"

definition dtls1_retrieve_buffered_record ::
  "DTLS1_RECORD_DATA pqueue \<Rightarrow> record_layer \<Rightarrow> int \<times> DTLS1_RECORD_DATA pqueue \<times> record_layer" where
  "dtls1_retrieve_buffered_record q rl =
     (case pqueue_pop q of
        (Some item, q) \<Rightarrow> (1, q, dtls1_copy_record (data item) rl)
      | (None, q) \<Rightarrow> (0, q, rl))"

subsection \<open>Processing records\<close>

text \<open>The result of \<open>dtls1_get_bitmap\<close>: which of the two windows, None for NULL.\<close>

datatype bitmap_choice = CurBitmap | NextBitmap

definition DTLS1_RT_HEADER_LENGTH :: nat where "DTLS1_RT_HEADER_LENGTH = 13"

definition dtls1_get_bitmap :: "record_layer \<Rightarrow> bitmap_choice option" where
  "dtls1_get_bitmap rl =
     (let rr = rrec rl in
      if rec_epoch rr = unat (r_epoch rl) then Some CurBitmap
      else if rec_epoch rr = unat (r_epoch rl) + 1 \<and> unprocessed_epoch rl \<noteq> r_epoch rl
              \<and> (rec_type rr = SSL3_RT_HANDSHAKE \<or> rec_type rr = SSL3_RT_ALERT)
      then Some NextBitmap
      else None)"

definition get_bm :: "bitmap_choice \<Rightarrow> record_layer \<Rightarrow> DTLS1_BITMAP" where
  "get_bm w rl = (case w of CurBitmap \<Rightarrow> cur_bitmap rl | NextBitmap \<Rightarrow> next_bitmap rl)"

definition set_bm :: "bitmap_choice \<Rightarrow> DTLS1_BITMAP \<Rightarrow> record_layer \<Rightarrow> record_layer" where
  "set_bm w bm rl =
     (case w of CurBitmap \<Rightarrow> rl\<lparr>cur_bitmap := bm\<rparr> | NextBitmap \<Rightarrow> rl\<lparr>next_bitmap := bm\<rparr>)"

text \<open>\<open>rr->length = 0; RECORD_LAYER_reset_packet_length(...)\<close>\<close>

definition dump_record :: "record_layer \<Rightarrow> record_layer" where
  "dump_record rl = rl\<lparr>rrec := (rrec rl)\<lparr>rec_length := 0\<rparr>, packet_length := 0\<rparr>"

definition send_fatal :: "record_alert \<Rightarrow> record_layer \<Rightarrow> record_layer" where
  "send_fatal al rl = rl\<lparr>alerts := alerts rl @ [al]\<rparr>"

text \<open>
  The comparison of the MAC in \<open>dtls1_process_record\<close>. The assertions of
  \<open>ssl3_cbc_copy_mac\<close> hold here: \<open>orig_len\<close> has been checked, and digests have at most 64
  bytes, which the code asserts as well.
\<close>

definition check_mac :: "dtls_env \<Rightarrow> seq64 \<Rightarrow> int \<Rightarrow> SSL3_RECORD \<Rightarrow> record_alert + int \<times> SSL3_RECORD" where
  "check_mac env seq enc_err rr =
     (case mac_size env of
        None \<Rightarrow> Inr (enc_err, rr)
      | Some m \<Rightarrow>
          if orig_len rr < m \<or> (cbc_mode env \<and> orig_len rr < m + 1) then Inl AL_DECODE_ERROR
          else let mac_tmp = the (ssl3_cbc_copy_mac rr (of_nat m));
                   rr = rr\<lparr>rec_length := unat (of_nat (rec_length rr) - of_nat m :: u32)\<rparr>;
                   tag = (if cbc_mode env then mac_tmp else drop (rec_length rr) (rec_data rr));
                   enc_err = (case mac env seq rr of
                                None \<Rightarrow> -1
                              | Some md \<Rightarrow> if CRYPTO_memcmp md tag m \<noteq> 0 then -1 else enc_err);
                   enc_err = (if rec_length rr > SSL3_RT_MAX_COMPRESSED_LENGTH + m then -1 else enc_err)
               in Inr (enc_err, rr))"

definition decompress :: "dtls_env \<Rightarrow> SSL3_RECORD \<Rightarrow> record_alert + SSL3_RECORD" where
  "decompress env rr =
     (case expand_block env of
        None \<Rightarrow> Inr rr
      | Some f \<Rightarrow>
          if rec_length rr > SSL3_RT_MAX_COMPRESSED_LENGTH then Inl AL_RECORD_OVERFLOW
          else case f (take (rec_length rr) (rec_data rr)) of
                 None \<Rightarrow> Inl AL_DECOMPRESSION_FAILURE
               | Some out \<Rightarrow> Inr (rr\<lparr>rec_length := length out, rec_data := out\<rparr>))"

definition dtls1_process_record :: "dtls_env \<Rightarrow> bitmap_choice \<Rightarrow> record_layer \<Rightarrow> bool \<times> record_layer" where
  "dtls1_process_record env w rl =
     (let rr = rrec rl in
      if rec_length rr > SSL3_RT_MAX_ENCRYPTED_LENGTH then (False, send_fatal AL_RECORD_OVERFLOW rl)
      else let rr = rr\<lparr>rec_data := drop DTLS1_RT_HEADER_LENGTH (packet rl), orig_len := rec_length rr\<rparr>;
               (enc_err, rr) = enc env (read_sequence rl) rr;
               rl = rl\<lparr>rrec := rr\<rparr>
           in if enc_err = 0 then (False, dump_record rl)
              else case check_mac env (read_sequence rl) enc_err rr of
                Inl al \<Rightarrow> (False, send_fatal al rl)
              | Inr (enc_err, rr) \<Rightarrow>
                  if enc_err < 0 then (False, dump_record (rl\<lparr>rrec := rr\<rparr>))
                  else case decompress env rr of
                    Inl al \<Rightarrow> (False, send_fatal al (rl\<lparr>rrec := rr\<rparr>))
                  | Inr rr \<Rightarrow>
                      if rec_length rr > SSL3_RT_MAX_PLAIN_LENGTH
                      then (False, send_fatal AL_RECORD_OVERFLOW (rl\<lparr>rrec := rr\<rparr>))
                      else let rl = rl\<lparr>rrec := rr\<lparr>rec_off := 0\<rparr>, packet_length := 0,
                                       accepted := accepted rl @ [(key_gen rl, read_sequence rl)]\<rparr>
                           in (True, set_bm w (dtls1_record_bitmap_update (read_sequence rl) (get_bm w rl)) rl))"

text \<open>
  What becomes of the rest of the record layer when a record is processed: only a
  success changes the window and the log.
\<close>

lemma process_record_frame:
  assumes "dtls1_process_record env w rl = (ok, rl')"
  shows "unprocessed_rcds rl' = unprocessed_rcds rl \<and> processed_rcds rl' = processed_rcds rl \<and>
    unprocessed_epoch rl' = unprocessed_epoch rl \<and> r_epoch rl' = r_epoch rl \<and> key_gen rl' = key_gen rl \<and>
    accepted rl' = accepted rl @ (if ok then [(key_gen rl, read_sequence rl)] else []) \<and>
    cur_bitmap rl' = (if ok \<and> w = CurBitmap then dtls1_record_bitmap_update (read_sequence rl) (cur_bitmap rl) else cur_bitmap rl) \<and>
    next_bitmap rl' = (if ok \<and> w = NextBitmap then dtls1_record_bitmap_update (read_sequence rl) (next_bitmap rl) else next_bitmap rl)"
  using assms
  by (auto simp: dtls1_process_record_def Let_def send_fatal_def dump_record_def set_bm_def get_bm_def
      split: if_splits sum.splits prod.splits bitmap_choice.splits)

text \<open>The check with its effect on \<open>rrec\<close>.\<close>

definition replay_check :: "bitmap_choice \<Rightarrow> record_layer \<Rightarrow> bool \<times> record_layer" where
  "replay_check w rl =
     (if dtls1_record_replay_check (read_sequence rl) (get_bm w rl)
      then (True, rl\<lparr>rrec := (rrec rl)\<lparr>rec_seq_num := read_sequence rl\<rparr>\<rparr>)
      else (False, rl))"

text \<open>\<open>!replayok || !dtls1_process_record(s, bitmap)\<close>, as its negation.\<close>

definition check_and_process :: "dtls_env \<Rightarrow> bitmap_choice \<Rightarrow> record_layer \<Rightarrow> bool \<times> record_layer" where
  "check_and_process env w rl =
     (case replay_check w rl of (replayok, rl) \<Rightarrow>
      if replayok then dtls1_process_record env w rl else (False, rl))"

lemma unprocessed_frame [simp]:
  "unprocessed_rcds (dtls1_copy_record d rl) = unprocessed_rcds rl"
  "unprocessed_rcds (dump_record rl) = unprocessed_rcds rl"
  by (simp_all add: dtls1_copy_record_def dump_record_def)

lemma check_and_process_cases:
  "check_and_process env w rl = (ok, rl') \<Longrightarrow>
     \<not> ok \<and> rl' = rl \<or>
     dtls1_record_replay_check (read_sequence rl) (get_bm w rl) \<and>
     dtls1_process_record env w (rl\<lparr>rrec := (rrec rl)\<lparr>rec_seq_num := read_sequence rl\<rparr>\<rparr>) = (ok, rl')"
  by (auto simp: check_and_process_def replay_check_def split: if_splits)

lemma unprocessed_steps:
  "replay_check w rl = (ok, rl') \<Longrightarrow> unprocessed_rcds rl' = unprocessed_rcds rl"
  "check_and_process env w rl = (ok, rl') \<Longrightarrow> unprocessed_rcds rl' = unprocessed_rcds rl"
  "dtls1_buffer_record env prio q rl = (ret, q', rl') \<Longrightarrow> unprocessed_rcds rl' = unprocessed_rcds rl"
  by (auto simp: replay_check_def dtls1_buffer_record_def Let_def
      dest!: check_and_process_cases process_record_frame split: if_splits option.splits prod.splits)

text \<open>The loop of \<open>dtls1_process_buffered_records\<close>; False is the return of 0.\<close>

function process_loop :: "dtls_env \<Rightarrow> record_layer \<Rightarrow> bool \<times> record_layer" where
  "process_loop env rl =
     (if pqueue_peek (unprocessed_rcds rl) = None then (True, rl)
      else case dtls1_retrieve_buffered_record (unprocessed_rcds rl) rl of (_, q, rl1) \<Rightarrow>
        let rl2 = rl1\<lparr>unprocessed_rcds := q\<rparr> in
        case dtls1_get_bitmap rl2 of
          None \<Rightarrow> (False, rl2)
        | Some w \<Rightarrow>
            (case check_and_process env w rl2 of (ok, rl4) \<Rightarrow>
             if \<not> ok then process_loop env (dump_record rl4)
             else case dtls1_buffer_record env (rec_seq_num (rrec rl4)) (processed_rcds rl4) rl4 of
                    (ret, q, rl5) \<Rightarrow>
                      let rl6 = rl5\<lparr>processed_rcds := q\<rparr> in
                      if ret < 0 then (False, rl6) else process_loop env rl6))"
  by pat_completeness auto

lemma retrieve_shorter:
  "dtls1_retrieve_buffered_record q rl = (ret, q', rl') \<Longrightarrow>
     unprocessed_rcds rl' = unprocessed_rcds rl \<and>
     (pqueue_peek q \<noteq> None \<longrightarrow> length (items q') < length (items q))"
  by (auto simp: pqueue_peek_def dtls1_retrieve_buffered_record_def pqueue_pop_def split: list.splits)

termination process_loop
  by (relation "measure (\<lambda>(env, rl). length (items (unprocessed_rcds rl)))")
    (auto dest!: unprocessed_steps [OF sym] retrieve_shorter [OF sym])

declare process_loop.simps [simp del]

definition sync_epochs :: "record_layer \<Rightarrow> record_layer" where
  "sync_epochs rl = rl\<lparr>processed_epoch := r_epoch rl, unprocessed_epoch := r_epoch rl + 1\<rparr>"

definition dtls1_process_buffered_records :: "dtls_env \<Rightarrow> record_layer \<Rightarrow> bool \<times> record_layer" where
  "dtls1_process_buffered_records env rl =
     (if pqueue_peek (unprocessed_rcds rl) \<noteq> None then
        if unprocessed_epoch rl \<noteq> r_epoch rl then (True, rl)
        else if rbuf_left rl > 0 then (True, rl)
        else case process_loop env rl of (ok, rl) \<Rightarrow> if ok then (True, sync_epochs rl) else (False, rl)
      else (True, sync_epochs rl))"

subsection \<open>Reading a record\<close>

text \<open>
  What \<open>ssl3_read_n\<close> finds in one packet: the bytes of the header, those of the body,
  and how much of the packet is left behind them. An empty list of packets stands for a
  read that would block.
\<close>

record dtls_packet =
  header :: "byte list"
  body :: "byte list"
  rest :: nat

text \<open>The header, pulled apart.\<close>

definition parse_header :: "byte list \<Rightarrow> record_layer \<Rightarrow> nat \<times> record_layer" where
  "parse_header p rl =
     (be_value (take 2 (drop 1 p)),
      rl\<lparr>rrec := (rrec rl)\<lparr>rec_type := uint (p ! 0), rec_epoch := be_value (take 2 (drop 3 p)),
                            rec_length := be_value (take 2 (drop 11 p))\<rparr>,
         read_sequence := set_seq_low (take 6 (drop 5 p)) (read_sequence rl)\<rparr>)"

text \<open>
  From \<open>again\<close> on, with the packet read: a value to return, or the state with which to
  go on at \<open>again\<close>.
\<close>

definition get_record_body :: "dtls_env \<Rightarrow> dtls_packet \<Rightarrow> record_layer \<Rightarrow> int \<times> record_layer + record_layer" where
  "get_record_body env w rl =
     (case dtls1_get_bitmap rl of
        None \<Rightarrow> Inr (dump_record rl)
      | Some bm \<Rightarrow>
          case replay_check bm rl of (ok, rl) \<Rightarrow>
          if \<not> ok then Inr (dump_record rl)
          else if rec_length (rrec rl) = 0 then Inr rl
          else if bm = NextBitmap
          then if in_handshake env
               then case dtls1_buffer_record env (rec_seq_num (rrec rl)) (unprocessed_rcds rl) rl of
                      (ret, q, rl) \<Rightarrow>
                        let rl = rl\<lparr>unprocessed_rcds := q\<rparr> in
                        if ret < 0 then Inl (-1, rl) else Inr (dump_record rl)
               else Inr (dump_record rl)
          else case dtls1_process_record env bm rl of (ok, rl) \<Rightarrow>
            if \<not> ok then Inr (dump_record rl) else Inl (1, rl))"

definition get_record_packet :: "dtls_env \<Rightarrow> dtls_packet \<Rightarrow> record_layer \<Rightarrow> int \<times> record_layer + record_layer" where
  "get_record_packet env w rl =
     (let rl = rl\<lparr>packet := header w, packet_length := length (header w), rbuf_left := rest w\<rparr> in
      if length (header w) \<noteq> DTLS1_RT_HEADER_LENGTH then Inr (rl\<lparr>packet_length := 0\<rparr>)
      else let (vers, rl) = parse_header (header w) rl in
      if \<not> first_packet env \<and> vers \<noteq> ssl_version env then Inr (dump_record rl)
      else if vers div 256 \<noteq> ssl_version env div 256 then Inr (dump_record rl)
      else if rec_length (rrec rl) > SSL3_RT_MAX_ENCRYPTED_LENGTH then Inr (dump_record rl)
      else if rec_length (rrec rl) > packet_length rl - DTLS1_RT_HEADER_LENGTH
              \<and> length (body w) \<noteq> rec_length (rrec rl)
      then Inr (dump_record rl)
      else let rl = (if rec_length (rrec rl) > packet_length rl - DTLS1_RT_HEADER_LENGTH
                     then rl\<lparr>packet := header w @ body w,
                             packet_length := length (header w) + length (body w)\<rparr> else rl)
           in get_record_body env w rl)"

fun dtls1_get_record :: "dtls_env \<Rightarrow> dtls_packet list \<Rightarrow> record_layer \<Rightarrow> int \<times> dtls_packet list \<times> record_layer" where
  "dtls1_get_record env ws rl =
     (case dtls1_process_buffered_records env rl of (ok, rl) \<Rightarrow>
      if \<not> ok then (-1, ws, rl)
      else case dtls1_retrieve_buffered_record (processed_rcds rl) rl of (ret, q, rl) \<Rightarrow>
      let rl = rl\<lparr>processed_rcds := q\<rparr> in
      if ret \<noteq> 0 then (1, ws, rl)
      else case ws of
             [] \<Rightarrow> (-1, [], rl)
           | w # ws \<Rightarrow>
               (case get_record_packet env w rl of
                  Inl (ret, rl) \<Rightarrow> (ret, ws, rl)
                | Inr rl \<Rightarrow> dtls1_get_record env ws rl))"

declare dtls1_get_record.simps [simp del]

text \<open>The half of \<open>dtls1_reset_seq_numbers\<close> for reading; it marks a change of the keys.\<close>

definition dtls1_reset_read :: "record_layer \<Rightarrow> record_layer" where
  "dtls1_reset_read rl =
     rl\<lparr>r_epoch := r_epoch rl + 1, cur_bitmap := next_bitmap rl, next_bitmap := zero_bitmap,
        read_sequence := seq_zero, key_gen := key_gen rl + 1\<rparr>"

subsection \<open>No record is accepted twice\<close>

text \<open>The calls that reach the layer while a connection is open.\<close>

datatype dtls_op = GetRecord dtls_env "dtls_packet list" | ResetRead | ClearLayer

fun dtls_run :: "dtls_op list \<Rightarrow> record_layer \<Rightarrow> record_layer" where
  "dtls_run [] rl = rl"
| "dtls_run (GetRecord env ws # ops) rl = dtls_run ops (snd (snd (dtls1_get_record env ws rl)))"
| "dtls_run (ResetRead # ops) rl = dtls_run ops (dtls1_reset_read rl)"
| "dtls_run (ClearLayer # ops) rl = dtls_run ops (RECORD_LAYER_clear rl)"

definition replay_inv :: "record_layer \<Rightarrow> bool" where
  "replay_inv rl \<longleftrightarrow> distinct (accepted rl) \<and> (\<forall>(g, s) \<in> set (accepted rl). g \<le> key_gen rl) \<and>
     window_ok {seq_nat s |s. (key_gen rl, s) \<in> set (accepted rl)} (cur_bitmap rl) \<and>
     window_ok {} (next_bitmap rl)"

text \<open>The steps that touch neither the windows nor the log.\<close>

lemma replay_inv_frame [simp]:
  "replay_inv (dtls1_copy_record d rl) = replay_inv rl" "replay_inv (dump_record rl) = replay_inv rl"
  "replay_inv (sync_epochs rl) = replay_inv rl"
  "replay_inv (rl\<lparr>unprocessed_rcds := q\<rparr>) = replay_inv rl" "replay_inv (rl\<lparr>processed_rcds := q\<rparr>) = replay_inv rl"
  "replay_inv (rl\<lparr>rrec := r\<rparr>) = replay_inv rl" "replay_inv (rl\<lparr>packet_length := n\<rparr>) = replay_inv rl"
  "replay_inv (rl\<lparr>packet := x\<rparr>) = replay_inv rl" "replay_inv (rl\<lparr>rbuf_left := m\<rparr>) = replay_inv rl"
  "replay_inv (rl\<lparr>read_sequence := s\<rparr>) = replay_inv rl"
  by (simp_all add: replay_inv_def dtls1_copy_record_def dump_record_def sync_epochs_def)

lemma buffering_inv:
  "dtls1_buffer_record env prio q rl = (ret, q', rl') \<Longrightarrow> replay_inv rl' = replay_inv rl"
  "dtls1_retrieve_buffered_record q rl = (ret, q', rl') \<Longrightarrow> replay_inv rl' = replay_inv rl"
  "replay_check w rl = (ok, rl') \<Longrightarrow> replay_inv rl' = replay_inv rl"
  by (auto simp: dtls1_buffer_record_def dtls1_retrieve_buffered_record_def replay_check_def Let_def
      split: if_splits option.splits prod.splits)

lemma process_record_inv:
  assumes "replay_inv rl" and "dtls1_record_replay_check (read_sequence rl) (cur_bitmap rl)"
    and "dtls1_process_record env CurBitmap (rl\<lparr>rrec := rr\<rparr>) = (ok, rl')"
  shows "replay_inv rl'"
proof -
  let ?seqs = "{seq_nat s |s. (key_gen rl, s) \<in> set (accepted rl)}" and ?seq = "read_sequence rl"
  note f = process_record_frame [OF assms(3)]
  have w: "window_ok ?seqs (cur_bitmap rl)" using assms(1) by (simp add: replay_inv_def)
  show ?thesis
  proof (cases ok)
    case False
    with assms(1) f show ?thesis by (simp add: replay_inv_def)
  next
    case True
    have "seq_nat ?seq \<notin> ?seqs" using replay_check_iff [OF w] assms(2) by blast
    then have new: "(key_gen rl, ?seq) \<notin> set (accepted rl)" by blast
    from True f have r: "accepted rl' = accepted rl @ [(key_gen rl, ?seq)]"
      "key_gen rl' = key_gen rl" "next_bitmap rl' = next_bitmap rl"
      "cur_bitmap rl' = dtls1_record_bitmap_update ?seq (cur_bitmap rl)" by simp_all
    have "{seq_nat s |s. (key_gen rl', s) \<in> set (accepted rl')} = insert (seq_nat ?seq) ?seqs"
      by (auto simp: r)
    with bitmap_update_ok [OF w assms(2)] assms(1) new show ?thesis
      by (auto simp: replay_inv_def r)
  qed
qed

lemma get_bitmap_current: "unprocessed_epoch rl = r_epoch rl \<Longrightarrow> dtls1_get_bitmap rl = Some w \<Longrightarrow> w = CurBitmap"
  by (simp add: dtls1_get_bitmap_def Let_def split: if_splits)


lemma epoch_frame [simp]:
  "r_epoch (dtls1_copy_record d rl) = r_epoch rl" "unprocessed_epoch (dtls1_copy_record d rl) = unprocessed_epoch rl"
  "r_epoch (dump_record rl) = r_epoch rl" "unprocessed_epoch (dump_record rl) = unprocessed_epoch rl"
  by (simp_all add: dtls1_copy_record_def dump_record_def)

lemma epoch_steps:
  "dtls1_buffer_record env prio q rl = (ret, q', rl') \<Longrightarrow> r_epoch rl' = r_epoch rl \<and> unprocessed_epoch rl' = unprocessed_epoch rl"
  "dtls1_retrieve_buffered_record q rl = (ret, q', rl') \<Longrightarrow> r_epoch rl' = r_epoch rl \<and> unprocessed_epoch rl' = unprocessed_epoch rl"
  "check_and_process env w rl = (ok, rl') \<Longrightarrow> r_epoch rl' = r_epoch rl \<and> unprocessed_epoch rl' = unprocessed_epoch rl"
  by (auto simp: dtls1_buffer_record_def dtls1_retrieve_buffered_record_def Let_def
      dest!: check_and_process_cases process_record_frame split: if_splits option.splits prod.splits)

lemma check_and_process_inv:
  assumes "replay_inv rl" and "check_and_process env CurBitmap rl = (ok, rl')"
  shows "replay_inv rl'"
  using check_and_process_cases [OF assms(2)] process_record_inv [OF assms(1)] assms(1)
  by (auto simp: get_bm_def)

text \<open>
  What every operation keeps that is built from the steps below keeps as well: the loops
  and handlers of the layer are taken apart once for all invariants.
\<close>

locale layer_invariant =
  fixes I :: "record_layer \<Rightarrow> bool"
  assumes frame [simp]: "I (dump_record rl) = I rl" "I (sync_epochs rl) = I rl"
      "I (rl\<lparr>rrec := r\<rparr>) = I rl" "I (rl\<lparr>packet := x\<rparr>) = I rl" "I (rl\<lparr>packet_length := n\<rparr>) = I rl"
      "I (rl\<lparr>rbuf_left := n\<rparr>) = I rl" "I (rl\<lparr>read_sequence := s\<rparr>) = I rl"
    and retrieve_unprocessed: "I rl \<Longrightarrow> dtls1_retrieve_buffered_record (unprocessed_rcds rl) rl = (ret, q, rl') \<Longrightarrow>
      I (rl'\<lparr>unprocessed_rcds := q\<rparr>)"
    and retrieve_processed: "I rl \<Longrightarrow> dtls1_retrieve_buffered_record (processed_rcds rl) rl = (ret, q, rl') \<Longrightarrow>
      I (rl'\<lparr>processed_rcds := q\<rparr>)"
    and buffer_unprocessed: "I rl \<Longrightarrow> dtls1_buffer_record env prio (unprocessed_rcds rl) rl = (ret, q, rl') \<Longrightarrow>
      I (rl'\<lparr>unprocessed_rcds := q\<rparr>)"
    and buffer_processed: "I rl \<Longrightarrow> dtls1_buffer_record env prio (processed_rcds rl) rl = (ret, q, rl') \<Longrightarrow>
      I (rl'\<lparr>processed_rcds := q\<rparr>)"
    and replay: "I rl \<Longrightarrow> replay_check w rl = (ok, rl') \<Longrightarrow> I rl'"
    and check_process: "I rl \<Longrightarrow> check_and_process env CurBitmap rl = (ok, rl') \<Longrightarrow> I rl'"
    and reset: "I rl \<Longrightarrow> I (dtls1_reset_read rl)"
    and clear: "I rl \<Longrightarrow> I (RECORD_LAYER_clear rl)"
begin

lemma process_loop_keeps:
  assumes "I rl" and "unprocessed_epoch rl = r_epoch rl"
  shows "I (snd (process_loop env rl))"
  using assms
proof (induction env rl rule: process_loop.induct)
  case (1 env rl)
  show ?case
  proof (cases "pqueue_peek (unprocessed_rcds rl) = None")
    case True
    with 1 show ?thesis by (simp add: process_loop.simps)
  next
    case False
    obtain ret q rl1 where r: "dtls1_retrieve_buffered_record (unprocessed_rcds rl) rl = (ret, q, rl1)"
      by (metis prod_cases3)
    let ?rl2 = "rl1\<lparr>unprocessed_rcds := q\<rparr>"
    have rl2: "I ?rl2" "unprocessed_epoch ?rl2 = r_epoch ?rl2"
      using retrieve_unprocessed [OF 1(3) r] 1(4) epoch_steps(2) [OF r] by simp_all
    show ?thesis
    proof (cases "dtls1_get_bitmap ?rl2")
      case None
      with False r rl2(1) show ?thesis by (auto simp: process_loop.simps [of env rl] Let_def)
    next
      case (Some w)
      with rl2(2) have w: "w = CurBitmap" by (blast dest: get_bitmap_current)
      obtain ok rl4 where c: "check_and_process env w ?rl2 = (ok, rl4)" by force
      have rl4: "I rl4" "unprocessed_epoch rl4 = r_epoch rl4"
        using check_process [OF rl2(1)] c w rl2(2) epoch_steps(3) [OF c] by simp_all
      show ?thesis
      proof (cases ok)
        case False
        with 1(1) [OF \<open>pqueue_peek _ \<noteq> None\<close> r [symmetric] refl refl Some c [symmetric]] rl4
          \<open>pqueue_peek _ \<noteq> None\<close> r Some c
        show ?thesis by (auto simp: process_loop.simps [of env rl] Let_def)
      next
        case True
        obtain ret' q' rl5 where b: "dtls1_buffer_record env (rec_seq_num (rrec rl4)) (processed_rcds rl4) rl4 = (ret', q', rl5)"
          by (metis prod_cases3)
        have rl5: "I (rl5\<lparr>processed_rcds := q'\<rparr>)" "unprocessed_epoch rl5 = r_epoch rl5"
          using buffer_processed [OF rl4(1) b] rl4(2) epoch_steps(1) [OF b] by simp_all
        show ?thesis
          using False r Some c b True rl5
            1(2) [OF \<open>pqueue_peek _ \<noteq> None\<close> r [symmetric] refl refl Some c [symmetric] _ b [symmetric]]
          by (auto simp: process_loop.simps [of env rl] Let_def)
      qed
    qed
  qed
qed


lemma process_buffered_keeps:
  assumes "I rl"
  shows "I (snd (dtls1_process_buffered_records env rl))"
  using assms process_loop_keeps [of rl env]
  by (auto simp: dtls1_process_buffered_records_def split: prod.split)

text \<open>
  A record of the next epoch is buffered or dropped; only one of the current epoch is
  processed.
\<close>

lemma get_record_body_keeps:
  assumes "I rl"
  shows "case get_record_body env w rl of Inl (ret, rl') \<Rightarrow> I rl' | Inr rl' \<Rightarrow> I rl'"
proof (cases "dtls1_get_bitmap rl")
  case None
  with assms show ?thesis by (simp add: get_record_body_def)
next
  case (Some bm)
  obtain ok rl1 where r: "replay_check bm rl = (ok, rl1)" by force
  have rl1: "I rl1" by (rule replay [OF assms r])
  show ?thesis
  proof (cases "ok \<and> bm = CurBitmap")
    case True
    then show ?thesis
      using rl1 Some r check_process [OF assms, of env]
      by (auto simp: get_record_body_def check_and_process_def split: prod.split)
  next
    case False
    then have "bm = NextBitmap \<or> \<not> ok" by (cases bm) simp_all
    then show ?thesis
      using rl1 Some r buffer_unprocessed [OF rl1]
      by (auto simp: get_record_body_def Let_def split: prod.split)
  qed
qed

lemma get_record_packet_keeps:
  assumes "I rl"
  shows "case get_record_packet env w rl of Inl (ret, rl') \<Rightarrow> I rl' | Inr rl' \<Rightarrow> I rl'"
proof -
  have "I rl1 \<Longrightarrow> case get_record_body env w rl1 of Inl (ret, rl') \<Rightarrow> I rl' | Inr rl' \<Rightarrow> I rl'" for rl1
    by (rule get_record_body_keeps)
  with assms show ?thesis by (simp add: get_record_packet_def parse_header_def Let_def)
qed

lemma get_record_keeps:
  assumes "I rl"
  shows "I (snd (snd (dtls1_get_record env ws rl)))"
  using assms
proof (induction ws arbitrary: rl)
  case Nil
  obtain ok rl1 where p: "dtls1_process_buffered_records env rl = (ok, rl1)" by force
  obtain ret q rl2 where r: "dtls1_retrieve_buffered_record (processed_rcds rl1) rl1 = (ret, q, rl2)" by (metis prod_cases3)
  have "I rl1" using process_buffered_keeps [OF Nil, of env] p by simp
  with p r retrieve_processed [OF _ r] show ?case
    by (simp add: dtls1_get_record.simps [of env "[]"] Let_def)
next
  case (Cons w ws)
  obtain ok rl1 where p: "dtls1_process_buffered_records env rl = (ok, rl1)" by force
  obtain ret q rl2 where r: "dtls1_retrieve_buffered_record (processed_rcds rl1) rl1 = (ret, q, rl2)" by (metis prod_cases3)
  have rl1: "I rl1" using process_buffered_keeps [OF Cons.prems, of env] p by simp
  then have "I (rl2\<lparr>processed_rcds := q\<rparr>)" using r by (rule retrieve_processed)
  with get_record_packet_keeps [OF this, of env w] Cons.IH rl1 p r show ?case
    by (auto simp: dtls1_get_record.simps [of env "w # ws"] Let_def split: sum.split)
qed

lemma run_keeps: "I rl \<Longrightarrow> I (dtls_run ops rl)"
  by (induction ops rl rule: dtls_run.induct) (simp_all add: get_record_keeps reset clear)

end

lemma reset_read_inv:
  assumes "replay_inv rl"
  shows "replay_inv (dtls1_reset_read rl)"
proof -
  have "{seq_nat s |s. (Suc (key_gen rl), s) \<in> set (accepted rl)} = {}"
    using assms by (fastforce simp: replay_inv_def)
  with assms show ?thesis
    by (fastforce simp: replay_inv_def dtls1_reset_read_def window_ok_zero)
qed

lemma record_layer_clear_inv:
  assumes "replay_inv rl"
  shows "replay_inv (RECORD_LAYER_clear rl)"
proof -
  have "{seq_nat s |s. (Suc (key_gen rl), s) \<in> set (accepted rl)} = {}"
    using assms by (fastforce simp: replay_inv_def)
  with assms show ?thesis
    by (fastforce simp: replay_inv_def RECORD_LAYER_clear_def DTLS_RECORD_LAYER_clear_def window_ok_zero)
qed

interpretation replays: layer_invariant replay_inv
proof
  fix rl :: record_layer and env :: dtls_env and q rl' ret prio w ok
  assume inv: "replay_inv rl"
  show "replay_inv (rl'\<lparr>unprocessed_rcds := q\<rparr>)"
    if "dtls1_retrieve_buffered_record (unprocessed_rcds rl) rl = (ret, q, rl')"
    using inv buffering_inv(2) [OF that] by simp
  show "replay_inv (rl'\<lparr>processed_rcds := q\<rparr>)"
    if "dtls1_retrieve_buffered_record (processed_rcds rl) rl = (ret, q, rl')"
    using inv buffering_inv(2) [OF that] by simp
  show "replay_inv (rl'\<lparr>unprocessed_rcds := q\<rparr>)"
    if "dtls1_buffer_record env prio (unprocessed_rcds rl) rl = (ret, q, rl')"
    using inv buffering_inv(1) [OF that] by simp
  show "replay_inv (rl'\<lparr>processed_rcds := q\<rparr>)"
    if "dtls1_buffer_record env prio (processed_rcds rl) rl = (ret, q, rl')"
    using inv buffering_inv(1) [OF that] by simp
  show "replay_inv rl'" if "replay_check w rl = (ok, rl')"
    using inv buffering_inv(3) [OF that] by simp
  show "replay_inv rl'" if "check_and_process env CurBitmap rl = (ok, rl')"
    using inv that by (rule check_and_process_inv)
  show "replay_inv (dtls1_reset_read rl)" using inv by (rule reset_read_inv)
  show "replay_inv (RECORD_LAYER_clear rl)" using inv by (rule record_layer_clear_inv)
qed simp_all

lemma record_layer_new_inv: "replay_inv blank_layer"
  by (simp add: replay_inv_def blank_layer_def window_ok_zero)

text \<open>
  C6: Whatever packets arrive, however often and in whatever order, and whenever the keys
  change: no two records that a DTLS connection accepts under the same keys have the same
  sequence number. Records that are buffered for the next epoch are checked again when
  they are processed.
\<close>

theorem dtls_no_replay: "distinct (accepted (dtls_run ops (dtls1_new garbage)))"
  unfolding dtls1_new_eq using replays.run_keeps [OF record_layer_new_inv, of ops] by (simp add: replay_inv_def)


subsection \<open>The window against its specification\<close>

text \<open>Feeding a sequence of numbers to the window, as the record layer does.\<close>

fun window_run :: "seq64 list \<Rightarrow> DTLS1_BITMAP \<Rightarrow> bool list" where
  "window_run [] bitmap = []"
| "window_run (s # seqs) bitmap =
     (if dtls1_record_replay_check s bitmap
      then True # window_run seqs (dtls1_record_bitmap_update s bitmap)
      else False # window_run seqs bitmap)"

text \<open>
  The specification keeps the set of all numbers accepted, and refuses those in it and
  those 64 or more below the greatest.
\<close>

fun accept_run :: "nat list \<Rightarrow> nat set \<Rightarrow> bool list" where
  "accept_run [] rcvd = []"
| "accept_run (n # ns) rcvd =
     (if n \<notin> rcvd \<and> Max (insert 0 rcvd) < n + 64
      then True # accept_run ns (insert n rcvd)
      else False # accept_run ns rcvd)"

lemma window_max:
  assumes "window_ok rcvd bitmap"
  shows "Max (insert 0 rcvd) = seq_nat (max_seq_num bitmap)"
proof -
  have b: "\<forall>n \<in> rcvd. n \<le> seq_nat (max_seq_num bitmap)"
    and m: "seq_nat (max_seq_num bitmap) \<in> insert 0 rcvd"
    using assms by (auto simp: window_ok_def Let_def seq_nat_def)
  then have "finite rcvd" by (meson finite_nat_set_iff_bounded_le)
  with b m show ?thesis by (intro Max_eqI) auto
qed

lemma window_run_ok: "window_ok rcvd bitmap \<Longrightarrow> window_run seqs bitmap = accept_run (map seq_nat seqs) rcvd"
proof (induction seqs arbitrary: rcvd bitmap)
  case (Cons s seqs)
  then show ?case
    using replay_check_iff [OF Cons.prems, of s] window_max [OF Cons.prems]
      bitmap_update_ok [OF Cons.prems, of s] by simp
qed simp

text \<open>
  C10: The 64-bit window takes the same decisions as the specification that remembers every
  number accepted, for every sequence of record numbers.
\<close>

theorem window_refines_set: "window_run seqs zero_bitmap = accept_run (map seq_nat seqs) {}"
  by (rule window_run_ok [OF window_ok_zero])

subsection \<open>The buffers\<close>

definition buffers_ok :: "record_layer \<Rightarrow> bool" where
  "buffers_ok rl \<longleftrightarrow> (\<forall>q \<in> {unprocessed_rcds rl, processed_rcds rl}. pq_sorted q \<and> length (items q) \<le> 100)"

lemma pop_ok:
  "pqueue_pop q = (r, q') \<Longrightarrow> pq_sorted q \<and> length (items q) \<le> 100 \<Longrightarrow> pq_sorted q' \<and> length (items q') \<le> 100"
  by (auto simp: pqueue_pop_def pq_sorted_def split: list.splits)

lemma length_insert_loop: "insert_loop item its = Some its' \<Longrightarrow> length its' = Suc (length its)"
  by (induction its arbitrary: its') (auto simp: Let_def split: if_splits)

lemma insert_ok:
  "pqueue_insert i q = (r, q') \<Longrightarrow> pq_sorted q \<Longrightarrow>
     pq_sorted q' \<and> length (items q') = (if r = None then length (items q) else Suc (length (items q)))"
  using insert_loop_Some [of "items q" i] 
  by (auto simp: pqueue_insert_def pq_sorted_def length_insert_loop split: if_splits option.splits)

lemma buffer_ok:
  assumes "dtls1_buffer_record env prio q rl = (ret, q', rl')"
    and "pq_sorted q" and "length (items q) \<le> 100"
  shows "pq_sorted q' \<and> length (items q') \<le> 100 \<and>
    unprocessed_rcds rl' = unprocessed_rcds rl \<and> processed_rcds rl' = processed_rcds rl"
  using assms
  by (auto simp: dtls1_buffer_record_def pqueue_size_def size_loop_eq Let_def dest!: insert_ok
      split: if_splits prod.splits option.splits)

lemma buffers_frame [simp]:
  "buffers_ok (dtls1_copy_record d rl) = buffers_ok rl" "buffers_ok (dump_record rl) = buffers_ok rl"
  "buffers_ok (sync_epochs rl) = buffers_ok rl"
  "buffers_ok (dtls1_reset_read rl) = buffers_ok rl"
  "buffers_ok (rl\<lparr>rrec := r\<rparr>) = buffers_ok rl" "buffers_ok (rl\<lparr>packet_length := n\<rparr>) = buffers_ok rl"
  "buffers_ok (rl\<lparr>packet := x\<rparr>) = buffers_ok rl" "buffers_ok (rl\<lparr>rbuf_left := m\<rparr>) = buffers_ok rl"
  "buffers_ok (rl\<lparr>read_sequence := s\<rparr>) = buffers_ok rl" "buffers_ok (rl\<lparr>accepted := l\<rparr>) = buffers_ok rl"
  by (simp_all add: buffers_ok_def dtls1_copy_record_def dump_record_def sync_epochs_def dtls1_reset_read_def)

lemma buffers_clear [simp]: "buffers_ok (RECORD_LAYER_clear rl)"
  by (simp add: buffers_ok_def RECORD_LAYER_clear_def DTLS_RECORD_LAYER_clear_def pq_sorted_def)

lemma buffers_step:
  assumes "buffers_ok rl"
  shows "dtls1_retrieve_buffered_record (unprocessed_rcds rl) rl = (ret, q, rl') \<Longrightarrow> buffers_ok (rl'\<lparr>unprocessed_rcds := q\<rparr>)"
    and "dtls1_retrieve_buffered_record (processed_rcds rl) rl = (ret, q, rl') \<Longrightarrow> buffers_ok (rl'\<lparr>processed_rcds := q\<rparr>)"
    and "dtls1_buffer_record env prio (unprocessed_rcds rl) rl = (ret, q, rl') \<Longrightarrow> buffers_ok (rl'\<lparr>unprocessed_rcds := q\<rparr>)"
    and "dtls1_buffer_record env prio (processed_rcds rl) rl = (ret, q, rl') \<Longrightarrow> buffers_ok (rl'\<lparr>processed_rcds := q\<rparr>)"
    and "replay_check w rl = (ok, rl') \<Longrightarrow> buffers_ok rl'"
    and "check_and_process env w rl = (ok, rl') \<Longrightarrow> buffers_ok rl'"
  using assms
  by (auto simp: buffers_ok_def dtls1_retrieve_buffered_record_def dtls1_copy_record_def replay_check_def
      dest!: buffer_ok check_and_process_cases process_record_frame dest: pop_ok
      split: option.splits prod.splits if_splits)

interpretation buffers: layer_invariant buffers_ok
  by unfold_locales (simp, simp, simp, simp, simp, simp, simp, (erule (1) buffers_step)+, simp, simp)

lemma record_layer_new_buffers: "buffers_ok blank_layer"
  by (simp add: buffers_ok_def blank_layer_def pqueue_new_def pq_sorted_def)

text \<open>
  C39: Neither buffer of the record layer ever holds more than 100 records, and both are in
  strict order of the sequence numbers.
\<close>

theorem dtls_buffers_bounded: "buffers_ok (dtls_run ops (dtls1_new garbage))"
  unfolding dtls1_new_eq by (rule buffers.run_keeps [OF record_layer_new_buffers])

subsection \<open>Records of the next epoch that arrive twice\<close>

text \<open>The state with which the body of a packet is looked at.\<close>

definition opened :: "dtls_packet \<Rightarrow> record_layer \<Rightarrow> record_layer" where
  "opened w rl =
     (let rl = snd (parse_header (header w)
                 (rl\<lparr>packet := header w, packet_length := length (header w), rbuf_left := rest w\<rparr>))
      in if rec_length (rrec rl) > packet_length rl - DTLS1_RT_HEADER_LENGTH
         then rl\<lparr>packet := header w @ body w, packet_length := length (header w) + length (body w)\<rparr> else rl)"

lemma opened_frame [simp]:
  "unprocessed_rcds (opened w rl) = unprocessed_rcds rl" "next_bitmap (opened w rl) = next_bitmap rl"
  "r_epoch (opened w rl) = r_epoch rl" "unprocessed_epoch (opened w rl) = unprocessed_epoch rl"
  by (simp_all add: opened_def parse_header_def Let_def)

lemma opened_header [simp]:
  "rec_type (rrec (opened w rl)) = uint (header w ! 0)"
  "rec_epoch (rrec (opened w rl)) = be_value (take 2 (drop 3 (header w)))"
  "rec_length (rrec (opened w rl)) = be_value (take 2 (drop 11 (header w)))"
  "read_sequence (opened w rl) = set_seq_low (take 6 (drop 5 (header w))) (read_sequence rl)"
  by (simp_all add: opened_def parse_header_def Let_def)

text \<open>Whether a packet gets that far depends on the packet alone.\<close>

definition wellformed_packet :: "dtls_env \<Rightarrow> dtls_packet \<Rightarrow> bool" where
  "wellformed_packet env w \<longleftrightarrow>
     (let vers = be_value (take 2 (drop 1 (header w))); len = be_value (take 2 (drop 11 (header w))) in
      length (header w) = DTLS1_RT_HEADER_LENGTH \<and> (first_packet env \<or> vers = ssl_version env) \<and>
      vers div 256 = ssl_version env div 256 \<and> len \<le> SSL3_RT_MAX_ENCRYPTED_LENGTH \<and>
      (len = 0 \<or> length (body w) = len))"

lemma get_record_packet_wellformed:
  "wellformed_packet env w \<Longrightarrow> get_record_packet env w rl = get_record_body env w (opened w rl)"
  by (auto simp: wellformed_packet_def get_record_packet_def opened_def parse_header_def Let_def
      simp del: not_gr_zero)

lemma get_record_packet_malformed:
  assumes "\<not> wellformed_packet env w"
  shows "case get_record_packet env w rl of Inl _ \<Rightarrow> False | Inr rl' \<Rightarrow> unprocessed_rcds rl' = unprocessed_rcds rl"
  using assms by (auto simp: wellformed_packet_def get_record_packet_def parse_header_def Let_def)

lemma replay_check_frame [simp]:
  "read_sequence (snd (replay_check bm rl)) = read_sequence rl"
  "unprocessed_rcds (snd (replay_check bm rl)) = unprocessed_rcds rl"
  "fst (replay_check bm rl) = dtls1_record_replay_check (read_sequence rl) (get_bm bm rl)"
  by (simp_all add: replay_check_def)

text \<open>What is known of a record that has been put into the buffer.\<close>

lemma insert_grows:
  assumes "pqueue_insert i q = (r, q')" and "length (items q) < length (items q')" and "pq_sorted q"
  shows "r \<noteq> None \<and> priority i \<in> priority ` set (items q')"
proof (cases "pq_map q (priority i)")
  case None
  from pq.insert_new [OF assms(3) None] assms(1) have "r = Some i" "pq_map q' = (pq_map q)(priority i \<mapsto> i)"
    by auto
  then show ?thesis using pq_map_None [of q' "priority i"] by auto
next
  case Some
  with pq.insert_dup [OF assms(3), of i] assms(1,2) show ?thesis by simp
qed

lemma buffer_grows:
  assumes "dtls1_buffer_record env prio q rl = (ret, q', rl')"
    and "length (items q) < length (items q')" and "pq_sorted q"
  shows "item_alloc_ok env \<and> setup_buffers_ok env \<and> prio \<in> priority ` set (items q') \<and> \<not> ret < 0"
  using assms
  by (auto simp: dtls1_buffer_record_def pitem_new_def Let_def dest: insert_grows split: option.splits if_splits prod.splits)

lemma buffer_frame:
  assumes "dtls1_buffer_record env prio q rl = (ret, q', rl')"
  shows "r_epoch rl' = r_epoch rl \<and> unprocessed_epoch rl' = unprocessed_epoch rl \<and>
    next_bitmap rl' = next_bitmap rl \<and> read_sequence rl' = read_sequence rl"
  using assms by (auto simp: dtls1_buffer_record_def Let_def split: if_splits prod.splits option.splits)

lemma body_buffers:
  assumes "get_record_body env w rl = Inr rl1"
    and "length (items (unprocessed_rcds rl1)) > length (items (unprocessed_rcds rl))"
    and "pq_sorted (unprocessed_rcds rl)"
  shows "dtls1_get_bitmap rl = Some NextBitmap \<and> dtls1_record_replay_check (read_sequence rl) (next_bitmap rl) \<and>
    rec_length (rrec rl) \<noteq> 0 \<and> in_handshake env \<and> item_alloc_ok env \<and> setup_buffers_ok env \<and>
    read_sequence rl \<in> priority ` set (items (unprocessed_rcds rl1)) \<and>
    r_epoch rl1 = r_epoch rl \<and> unprocessed_epoch rl1 = unprocessed_epoch rl \<and>
    next_bitmap rl1 = next_bitmap rl \<and> read_sequence rl1 = read_sequence rl"
proof -
  obtain bm where bm: "dtls1_get_bitmap rl = Some bm"
    using assms(1,2) by (cases "dtls1_get_bitmap rl") (auto simp: get_record_body_def)
  obtain ok rl2 where c: "replay_check bm rl = (ok, rl2)" by force
  then have rl2: "rl2 = (if ok then rl\<lparr>rrec := (rrec rl)\<lparr>rec_seq_num := read_sequence rl\<rparr>\<rparr> else rl)"
    "ok = dtls1_record_replay_check (read_sequence rl) (get_bm bm rl)"
    by (auto simp: replay_check_def split: if_splits)
  have b: "ok \<and> bm = NextBitmap \<and> rec_length (rrec rl) \<noteq> 0 \<and> in_handshake env"
    using assms(1,2) bm c rl2(1)
    by (auto simp: get_record_body_def split: if_splits prod.splits dest!: process_record_frame)
  then have s: "rec_seq_num (rrec rl2) = read_sequence rl" "rec_length (rrec rl2) = rec_length (rrec rl)"
    using rl2 by auto
  obtain ret q rl3 where r: "dtls1_buffer_record env (read_sequence rl) (unprocessed_rcds rl2) rl2 = (ret, q, rl3)"
    by (metis prod_cases3)
  have rl1: "rl1 = dump_record (rl3\<lparr>unprocessed_rcds := q\<rparr>)"
    using assms(1) b bm c r s by (auto simp: get_record_body_def Let_def split: if_splits)
  have u: "unprocessed_rcds rl2 = unprocessed_rcds rl" by (simp add: rl2)
  from r have g: "item_alloc_ok env \<and> setup_buffers_ok env \<and> read_sequence rl \<in> priority ` set (items q)"
    using buffer_grows assms(2,3) by (fastforce simp: rl1 u)
  show ?thesis
    using b g bm rl2 buffer_frame [OF r] by (auto simp: rl1 get_bm_def dump_record_def)
qed

lemma body_refuses:
  assumes "dtls1_get_bitmap rl = Some NextBitmap" and "dtls1_record_replay_check (read_sequence rl) (next_bitmap rl)"
    and "rec_length (rrec rl) \<noteq> 0" and "in_handshake env" and "item_alloc_ok env" and "setup_buffers_ok env"
    and "read_sequence rl \<in> priority ` set (items (unprocessed_rcds rl))"
    and "pq_sorted (unprocessed_rcds rl)" and "length (items (unprocessed_rcds rl)) < 100"
  shows "\<exists>rl'. get_record_body env w rl = Inl (-1, rl')"
proof -
  have "pqueue_insert (pitem_new (read_sequence rl) d) (unprocessed_rcds rl) = (None, unprocessed_rcds rl)" for d
    using pq.insert_dup [OF assms(8), of "pitem_new (read_sequence rl) d"] assms(7) by (simp add: pitem_new_def pq_map_None)
  with assms show ?thesis
    by (simp add: get_record_body_def replay_check_def get_bm_def dtls1_buffer_record_def pqueue_size_def
        size_loop_eq Let_def)
qed

lemma set_seq_low_idem: "set_seq_low low (set_seq_low low s) = set_seq_low low s"
proof -
  have "seq_bytes (set_seq_low low (set_seq_low low s)) = seq_bytes (set_seq_low low s)"
    by (simp add: seq_bytes_set_low)
  then show ?thesis by (simp add: seq_bytes_inject)
qed

text \<open>
  C40: When a record of the next epoch has been put into the buffer and the network delivers it
  a second time, it is not dropped: \<open>dtls1_buffer_record\<close> fails and with it the read. The
  comment at its \<open>pqueue_insert\<close> says that duplicates have been dropped before, but the
  window of the next epoch is not updated when a record is buffered.
\<close>

theorem next_epoch_duplicate_fails:
  fixes rl1 :: record_layer
  assumes "rl = dtls_run ops (dtls1_new garbage)"
    and "get_record_packet env w rl = Inr rl1"
    and "length (items (unprocessed_rcds rl)) < length (items (unprocessed_rcds rl1))"
    and "length (items (unprocessed_rcds rl1)) < 100"
  shows "\<exists>rl2. get_record_packet env w rl1 = Inl (-1, rl2)"
proof -
  have ok: "buffers_ok rl" unfolding assms(1) dtls1_new_eq by (rule buffers.run_keeps [OF record_layer_new_buffers])
  then have ok1: "buffers_ok rl1" using buffers.get_record_packet_keeps [of rl env w] assms(2) by simp
  have body: "get_record_packet env w rl' = get_record_body env w (opened w rl')" for rl'
    using get_record_packet_malformed [of env w rl] get_record_packet_wellformed [of env w rl'] assms(2,3)
    by (cases "wellformed_packet env w") simp_all
  have b: "dtls1_get_bitmap (opened w rl) = Some NextBitmap" "r_epoch rl1 = r_epoch rl"
    "dtls1_record_replay_check (read_sequence (opened w rl)) (next_bitmap rl)"
    "be_value (take 2 (drop 11 (header w))) \<noteq> 0" "in_handshake env" "item_alloc_ok env" "setup_buffers_ok env"
    "read_sequence (opened w rl) \<in> priority ` set (items (unprocessed_rcds rl1))"
    "unprocessed_epoch rl1 = unprocessed_epoch rl" "next_bitmap rl1 = next_bitmap rl"
    "read_sequence rl1 = read_sequence (opened w rl)"
    using body_buffers [of env w "opened w rl" rl1] assms(2,3) ok by (auto simp: body buffers_ok_def)
  have s: "read_sequence (opened w rl1) = read_sequence (opened w rl)"
    using b(11) by (simp add: set_seq_low_idem)
  have "dtls1_get_bitmap (opened w rl1) = Some NextBitmap"
    using b(1,2,9) by (simp add: dtls1_get_bitmap_def Let_def split: if_splits)
  moreover have "dtls1_record_replay_check (read_sequence (opened w rl1)) (next_bitmap (opened w rl1))"
    using b(3,10) s by simp
  moreover have "read_sequence (opened w rl1) \<in> priority ` set (items (unprocessed_rcds (opened w rl1)))"
    using b(8) s by simp
  ultimately show ?thesis
    using b(4-7) ok1 assms(4) unfolding body by (intro body_refuses) (auto simp: buffers_ok_def)
qed

text \<open>A fresh connection, and a Finished message of the first epoch that arrives twice.\<close>

definition demo_env :: dtls_env where
  "demo_env = \<lparr>item_alloc_ok = True, setup_buffers_ok = True, enc = (\<lambda>_ rr. (1, rr)),
     mac = (\<lambda>_ _. None), mac_size = None, cbc_mode = False, expand_block = None,
     ssl_version = 0xFEFD, first_packet = False, in_handshake = True\<rparr>"

definition demo_packet :: dtls_packet where
  "demo_packet = \<lparr>header = [22, 0xFE, 0xFD, 0, 1, 0, 0, 0, 0, 0, 0, 0, 1], body = [0], rest = 0\<rparr>"

definition demo_layer :: record_layer where
  "demo_layer = dtls_run [GetRecord demo_env []] (dtls1_new blank_layer)"

definition demo_buffered :: record_layer where
  "demo_buffered = (case get_record_packet demo_env demo_packet demo_layer of Inl (_, rl) \<Rightarrow> rl | Inr rl \<Rightarrow> rl)"

lemma demo_layer_eq: "demo_layer = sync_epochs blank_layer"
  by (simp add: demo_layer_def dtls1_new_eq dtls1_get_record.simps [of demo_env "[]"] dtls1_process_buffered_records_def
      blank_layer_def pqueue_new_def pqueue_peek_def sync_epochs_def dtls1_retrieve_buffered_record_def
      pqueue_pop_def)

lemma demo_sequence: "set_seq_low [0, 0, 0, 0, 0, 0] seq_zero = seq_zero"
  by (subst seq_bytes_inject [symmetric]) (simp add: seq_bytes_set_low seq_zero.rep_eq numeral_eq_Suc)

lemma demo_opened:
  "opened demo_packet demo_layer = demo_layer\<lparr>packet := header demo_packet @ body demo_packet, packet_length := 14,
     rrec := \<lparr>rec_type = 22, rec_length = 1, orig_len = 0, rec_off = 0, rec_data = [], rec_epoch = 1,
       rec_seq_num = seq_zero\<rparr>\<rparr>"
  by (simp add: opened_def parse_header_def demo_packet_def DTLS1_RT_HEADER_LENGTH_def demo_layer_eq sync_epochs_def
      blank_layer_def zero_record_def be_value_def demo_sequence)

lemma demo_step:
  "get_record_packet demo_env demo_packet demo_layer = Inr demo_buffered \<and>
   items (unprocessed_rcds demo_layer) = [] \<and> items (processed_rcds demo_layer) = [] \<and>
   map priority (items (unprocessed_rcds demo_buffered)) = [seq_zero] \<and>
   items (processed_rcds demo_buffered) = [] \<and> unprocessed_epoch demo_buffered \<noteq> r_epoch demo_buffered"
proof -
  have wf: "wellformed_packet demo_env demo_packet"
    by (simp add: wellformed_packet_def demo_packet_def demo_env_def DTLS1_RT_HEADER_LENGTH_def be_value_def
        SSL3_RT_MAX_ENCRYPTED_LENGTH_def)
  have "\<exists>rl. get_record_body demo_env demo_packet (opened demo_packet demo_layer) = Inr rl \<and>
      map priority (items (unprocessed_rcds rl)) = [seq_zero] \<and> items (processed_rcds rl) = [] \<and>
      unprocessed_epoch rl \<noteq> r_epoch rl"
    unfolding demo_opened
    by (simp add: get_record_body_def dtls1_get_bitmap_def demo_layer_eq sync_epochs_def blank_layer_def
      replay_check_def get_bm_def dtls1_record_replay_check_def satsub64be_eq zero_bitmap_def demo_env_def
      dtls1_buffer_record_def pqueue_size_def pqueue_new_def pqueue_insert_def pitem_new_def dump_record_def
      SSL3_RT_HANDSHAKE_def)
  then show ?thesis
    by (auto simp: demo_buffered_def get_record_packet_wellformed [OF wf] demo_layer_eq sync_epochs_def
        blank_layer_def pqueue_new_def)
qed

theorem next_epoch_duplicate_fails_witness:
  "(\<exists>rl2. get_record_packet demo_env demo_packet demo_buffered = Inl (-1, rl2)) \<and>
   fst (dtls1_get_record demo_env [demo_packet, demo_packet] demo_layer) = -1"
proof
  note demo = demo_step
  then obtain i where i: "items (unprocessed_rcds demo_buffered) = [i]" by auto
  have step: "get_record_packet demo_env demo_packet demo_layer = Inr demo_buffered" using demo by blast
  show fails: "\<exists>rl2. get_record_packet demo_env demo_packet demo_buffered = Inl (-1, rl2)"
    by (rule next_epoch_duplicate_fails [OF demo_layer_def step]) (use demo i in simp_all)
  have "dtls1_process_buffered_records demo_env demo_buffered = (True, demo_buffered)"
    using demo i by (simp add: dtls1_process_buffered_records_def pqueue_peek_def)
  moreover have "dtls1_process_buffered_records demo_env demo_layer = (True, demo_layer)"
    by (simp add: dtls1_process_buffered_records_def demo_layer_eq sync_epochs_def blank_layer_def
        pqueue_peek_def pqueue_new_def)
  ultimately show "fst (dtls1_get_record demo_env [demo_packet, demo_packet] demo_layer) = -1"
    using fails demo
    by (auto simp: dtls1_get_record.simps [of demo_env "_ # _"] dtls1_retrieve_buffered_record_def pqueue_pop_def
        Let_def step)
qed

subsection \<open>Accepted records are authentic\<close>

text \<open>
  C7: When the connection has a MAC of \<open>m\<close> bytes, a record is accepted only if its padding was
  valid and the last \<open>m\<close> bytes of what was decrypted are the MAC of the bytes before them,
  in CBC mode as in others. The hypotheses on the decrypted record say what \<open>ssl3_enc->enc\<close>
  returns: a length in the buffer from which at most 256 bytes of padding were removed.
\<close>

theorem accepted_record_authentic:
  assumes "dtls1_process_record env w rl = (True, rl')" and "mac_size env = Some m" and "0 < m" and "m \<le> 64"
    and "enc env (read_sequence rl) ((rrec rl)\<lparr>rec_data := drop 13 (packet rl), orig_len := rec_length (rrec rl)\<rparr>) = (e, rr)"
    and "m \<le> rec_length rr" and "rec_length rr \<le> orig_len rr" and "orig_len rr \<le> rec_length rr + 256"
    and "orig_len rr < 2 ^ 31" and "orig_len rr \<le> length (rec_data rr)"
    and "\<forall>r md. mac env (read_sequence rl) r = Some md \<longrightarrow> m \<le> length md"
  shows "0 < e \<and> (\<exists>md. mac env (read_sequence rl) (rr\<lparr>rec_length := rec_length rr - m\<rparr>) = Some md \<and>
    take m md = take m (drop (rec_length rr - m) (rec_data rr)))"
proof -
  let ?rr = "rr\<lparr>rec_length := rec_length rr - m\<rparr>"
  have copy: "the (ssl3_cbc_copy_mac rr (of_nat m)) = take m (drop (rec_length rr - m) (rec_data rr))"
    using ssl3_cbc_copy_mac_spec [of m rr] assms by simp
  have len: "unat (of_nat (rec_length rr) - of_nat m :: u32) = rec_length rr - m"
    using assms by (simp add: unat_sub)
  let ?tag = "if cbc_mode env then take m (drop (rec_length rr - m) (rec_data rr)) else drop (rec_length rr - m) (rec_data rr)"
  have tag: "m \<le> length ?tag" "take m ?tag = take m (drop (rec_length rr - m) (rec_data rr))"
    using assms by auto
  obtain e' rr' where c: "check_mac env (read_sequence rl) e rr = Inr (e', rr')" "\<not> e' < 0" "e \<noteq> 0"
    using assms(1,5) by (auto simp: dtls1_process_record_def DTLS1_RT_HEADER_LENGTH_def Let_def split: if_splits sum.splits)
  from c(1,2) assms(2) obtain md where md: "mac env (read_sequence rl) ?rr = Some md" "CRYPTO_memcmp md ?tag m = 0" "e' = e"
    by (auto simp: check_mac_def Let_def copy len split: if_splits option.splits)
  from md(1) assms(11) have "m \<le> length md" by blast
  from CRYPTO_memcmp_zero [OF this tag(1)] md(2) have "take m md = take m ?tag" by simp
  with md c tag(2) show ?thesis by auto
qed

definition mac_env :: dtls_env where
  "mac_env = demo_env\<lparr>mac := (\<lambda>_ r. Some (take 2 (rec_data r))), mac_size := Some 2, cbc_mode := True\<rparr>"

definition mac_layer :: record_layer where
  "mac_layer = blank_layer\<lparr>packet := replicate 13 0 @ [7, 9, 7, 9],
     rrec := zero_record\<lparr>rec_length := 4\<rparr>\<rparr>"

text \<open>The MAC of this sample is made of the first two bytes.\<close>

theorem accepted_record_authentic_witness:
  "fst (dtls1_process_record mac_env CurBitmap mac_layer) \<and>
   (\<exists>md. mac mac_env (read_sequence mac_layer)
      ((rrec mac_layer)\<lparr>rec_data := [7, 9, 7, 9], orig_len := 4, rec_length := 2\<rparr>) = Some md \<and> take 2 md = [7, 9])"
proof -
  let ?rr = "(rrec mac_layer)\<lparr>rec_data := drop 13 (packet mac_layer), orig_len := rec_length (rrec mac_layer)\<rparr>"
  have rr: "enc mac_env (read_sequence mac_layer) ?rr = (1, ?rr)" by (simp add: mac_env_def demo_env_def)
  have d: "drop 13 (packet mac_layer) = [7, 9, 7, 9]" by (simp add: mac_layer_def)
  have "ssl3_cbc_copy_mac ?rr (of_nat 2) = Some [7, 9]"
    using ssl3_cbc_copy_mac_spec [of 2 ?rr] by (simp add: mac_layer_def)
  moreover have "CRYPTO_memcmp [7, 9] [7, 9] 2 = 0"
    by (simp add: CRYPTO_memcmp_zero)
  ultimately have "fst (dtls1_process_record mac_env CurBitmap mac_layer)"
    by (simp add: dtls1_process_record_def rr d check_mac_def decompress_def mac_env_def demo_env_def mac_layer_def
      DTLS1_RT_HEADER_LENGTH_def SSL3_RT_MAX_ENCRYPTED_LENGTH_def SSL3_RT_MAX_COMPRESSED_LENGTH_def
      SSL3_RT_MAX_PLAIN_LENGTH_def Let_def)
  then obtain rl' where p: "dtls1_process_record mac_env CurBitmap mac_layer = (True, rl')"
    by (metis prod.collapse)
  from accepted_record_authentic [OF p _ _ _ rr, of 2] p show ?thesis
    by (simp add: mac_env_def mac_layer_def)
qed

end
