(* ===== verification/Tls_Write.thy ===== *)
theory Tls_Write
  imports Byte_Words
begin

text \<open>
  The writing half of the TLS record layer (ssl/record/rec_layer_s3.c, the write buffers of
  ssl3_buffer.c, and the alerts of ssl/s3_msg.c): \<open>ssl3_write_bytes\<close> cuts data into records,
  \<open>do_ssl3_write\<close> seals them into the write buffers, \<open>ssl3_write_pending\<close> gives these to the
  BIO. Modelled as built without the multi-block code, for TLS and not DTLS, without
  message callbacks.
\<close>

subsection \<open>State\<close>

datatype rwstate = SSL_NOTHING | SSL_WRITING | SSL_READING

datatype cipher_mode = EVP_CIPH_CBC_MODE | EVP_CIPH_GCM_MODE | EVP_CIPH_CCM_MODE | OTHER_MODE

text \<open>What the code asks of \<open>enc_write_ctx\<close>: the flag, the mode and the IV length.\<close>

record cipher_ctx =
  pipeline_flag :: bool
  cipher_mode_of :: cipher_mode
  iv_length :: int

definition SSL3_RT_MAX_MD_SIZE :: nat where "SSL3_RT_MAX_MD_SIZE = 64"
definition SSL_RT_MAX_CIPHER_BLOCK_SIZE :: nat where "SSL_RT_MAX_CIPHER_BLOCK_SIZE = 16"
definition SSL3_RT_SEND_MAX_ENCRYPTED_OVERHEAD :: nat where
  "SSL3_RT_SEND_MAX_ENCRYPTED_OVERHEAD = SSL_RT_MAX_CIPHER_BLOCK_SIZE + SSL3_RT_MAX_MD_SIZE"
definition SSL3_AL_FATAL :: byte where "SSL3_AL_FATAL = 2"
definition SSL_MAX_PIPELINES :: nat where "SSL_MAX_PIPELINES = 32"

text \<open>
  The members of \<open>SSL\<close>, \<open>s->s3\<close> and \<open>s->rlayer\<close> that writing uses. \<open>wbufs\<close> is the list of
  the \<open>numwpipes\<close> write buffers, each the bytes that are left in it. A pointer is a number;
  data at a pointer is given with it as a list. \<open>clnt_hello_state\<close> says that the handshake
  state is TLS_ST_CW_CLNT_HELLO. \<open>crypto\<close> is what the cipher, the MAC and the compression
  keep, \<open>wbio\<close> the BIO or None for NULL. The last two members are logs that the code does not
  have: the bytes that the BIO took, and every record put into the buffers with its type,
  plain text and bytes.
\<close>

record ('c, 'b) writer =
  wnum :: nat
  wpend_tot :: nat
  wpend_type :: int
  wpend_ret :: nat
  wpend_buf :: nat
  wbufs :: "byte list list"
  w_rwstate :: rwstate
  alert_dispatch :: bool
  send_alert :: "byte list"
  send_alert_at :: nat
  empty_fragment_done :: bool
  need_empty_fragments :: bool
  max_send_fragment :: nat
  split_send_fragment :: nat
  max_pipelines :: nat
  enable_partial_write :: bool
  accept_moving_buffer :: bool
  release_buffers :: bool
  w_version :: nat
  clnt_hello_state :: bool
  w_renegotiate :: bool
  w_in_init :: bool
  w_in_handshake :: bool
  session_set :: bool
  enc_write_ctx :: "cipher_ctx option"
  write_hash_size :: "int option"
  use_explicit_iv :: bool
  write_etm :: bool
  compress_set :: bool
  crypto :: 'c
  wbio :: "'b option"
  sent_bytes :: "byte list"
  record_log :: "(int \<times> byte list \<times> byte list) list"

text \<open>
  The functions that the record layer calls through pointers or from libraries: \<open>BIO_write\<close>
  and \<open>BIO_flush\<close>, \<open>handshake_func\<close>, compression, the MAC of a record of a type, and the
  encryption of records, given the length of the explicit IV in front of each that it fills.
  \<open>malloc_ok k\<close> is the outcome of the allocation of the \<open>k\<close>-th buffer.
\<close>

record ('c, 'b) write_ops =
  BIO_write :: "byte list \<Rightarrow> 'b \<Rightarrow> int \<times> 'b"
  BIO_flush :: "'b \<Rightarrow> 'b"
  handshake_func :: "('c, 'b) writer \<Rightarrow> int \<times> ('c, 'b) writer"
  ssl3_do_compress :: "byte list \<Rightarrow> 'c \<Rightarrow> byte list option \<times> 'c"
  write_mac :: "int \<Rightarrow> byte list \<Rightarrow> 'c \<Rightarrow> byte list option \<times> 'c"
  write_enc :: "nat \<Rightarrow> (int \<times> byte list) list \<Rightarrow> 'c \<Rightarrow> byte list list option \<times> 'c"
  malloc_ok :: "nat \<Rightarrow> bool"

definition RECORD_LAYER_write_pending :: "('c, 'b) writer \<Rightarrow> bool" where
  "RECORD_LAYER_write_pending s \<longleftrightarrow> wbufs s \<noteq> [] \<and> last (wbufs s) \<noteq> []"

text \<open>\<open>s->rlayer.wbuf[0].left != 0\<close>.\<close>

definition first_pending :: "('c, 'b) writer \<Rightarrow> bool" where
  "first_pending s \<longleftrightarrow> wbufs s \<noteq> [] \<and> hd (wbufs s) \<noteq> []"

text \<open>
  \<open>ssl3_setup_write_buffer\<close>: the buffers from \<open>k\<close> to \<open>n\<close> are allocated up to the first failure;
  those in use stay.
\<close>

fun setup_loop :: "(nat \<Rightarrow> bool) \<Rightarrow> nat \<Rightarrow> nat \<Rightarrow> byte list list \<Rightarrow> bool \<times> byte list list" where
  "setup_loop ok k 0 w = (True, w)"
| "setup_loop ok k (Suc n) w = (if ok k then setup_loop ok (k + 1) n (w @ [[]]) else (False, w))"

definition ssl3_setup_write_buffer ::
  "('c, 'b) write_ops \<Rightarrow> nat \<Rightarrow> ('c, 'b) writer \<Rightarrow> bool \<times> ('c, 'b) writer" where
  "ssl3_setup_write_buffer ops numwpipes s =
     (let old = take numwpipes (wbufs s);
          (ok, w) = setup_loop (malloc_ok ops) (length old) (numwpipes - length old) old
      in (ok, s\<lparr>wbufs := w\<rparr>))"

definition ssl3_release_write_buffer :: "('c, 'b) writer \<Rightarrow> ('c, 'b) writer" where
  "ssl3_release_write_buffer s = s\<lparr>wbufs := []\<rparr>"

subsection \<open>Giving the buffers to the BIO\<close>

text \<open>
  The loop of \<open>ssl3_write_pending\<close> from buffer \<open>k\<close> on. It is undefined (None) without a
  buffer and for a BIO that claims to have taken more than it was given.
\<close>

function pending_loop ::
  "('c, 'b) write_ops \<Rightarrow> nat \<Rightarrow> ('c, 'b) writer \<Rightarrow> (int \<times> ('c, 'b) writer) option" where
  "pending_loop ops k s =
     (if k \<ge> length (wbufs s) then None
      else if wbufs s ! k = [] \<and> k < length (wbufs s) - 1 then pending_loop ops (k + 1) s
      else
        let b = wbufs s ! k in
        case wbio s of
          None \<Rightarrow> Some (- 1, s)
        | Some bio \<Rightarrow>
            let (i, bio) = BIO_write ops b bio;
                s = s\<lparr>w_rwstate := SSL_WRITING, wbio := Some bio\<rparr> in
            if i = int (length b) then
              let s = s\<lparr>wbufs := (wbufs s)[k := []], sent_bytes := sent_bytes s @ b\<rparr> in
              if k + 1 < length (wbufs s) then pending_loop ops (k + 1) s
              else Some (int (wpend_ret s), s\<lparr>w_rwstate := SSL_NOTHING\<rparr>)
            else if i \<le> 0 then Some (i, s)
            else if i > int (length b) then None
            else pending_loop ops k (s\<lparr>wbufs := (wbufs s)[k := drop (nat i) b],
                   sent_bytes := sent_bytes s @ take (nat i) b\<rparr>))"
  by pat_completeness auto
termination
  by (relation "measures [\<lambda>(ops, k, s). length (wbufs s) - k, \<lambda>(ops, k, s). length (wbufs s ! k)]")
    (auto split: if_splits)

declare pending_loop.simps [simp del]

definition ssl3_write_pending ::
  "('c, 'b) write_ops \<Rightarrow> int \<Rightarrow> nat \<Rightarrow> nat \<Rightarrow> ('c, 'b) writer \<Rightarrow> (int \<times> ('c, 'b) writer) option" where
  "ssl3_write_pending ops type buf len s =
     (if wpend_tot s > len \<or> wpend_buf s \<noteq> buf \<and> \<not> accept_moving_buffer s \<or> wpend_type s \<noteq> type
      then Some (- 1, s)
      else pending_loop ops 0 s)"

subsection \<open>Sealing records\<close>

definition explicit_iv_length :: "('c, 'b) writer \<Rightarrow> nat" where
  "explicit_iv_length s =
     (case enc_write_ctx s of
        None \<Rightarrow> 0
      | Some ctx \<Rightarrow>
          if use_explicit_iv s then
            case cipher_mode_of ctx of
              EVP_CIPH_CBC_MODE \<Rightarrow> if iv_length ctx \<le> 1 then 0 else nat (iv_length ctx)
            | EVP_CIPH_GCM_MODE \<Rightarrow> 8
            | EVP_CIPH_CCM_MODE \<Rightarrow> 8
            | OTHER_MODE \<Rightarrow> 0
          else 0)"

text \<open>
  The first loop over the pipelines: each record is its part of the data, compressed and
  with a MAC, as far as they are in use.
\<close>

fun plain_records ::
  "('c, 'b) write_ops \<Rightarrow> bool \<Rightarrow> bool \<Rightarrow> int \<Rightarrow> byte list \<Rightarrow> nat list \<Rightarrow> 'c \<Rightarrow> byte list list option \<times> 'c" where
  "plain_records ops cmp macs type buf [] c = (Some [], c)"
| "plain_records ops cmp macs type buf (l # ls) c =
     (let (d, c) = (if cmp then ssl3_do_compress ops (take l buf) c else (Some (take l buf), c)) in
      case d of
        None \<Rightarrow> (None, c)
      | Some d \<Rightarrow>
          let (m, c) = (if macs then write_mac ops type d c else (Some [], c)) in
          case m of
            None \<Rightarrow> (None, c)
          | Some m \<Rightarrow>
              let (ds, c) = plain_records ops cmp macs type (drop l buf) ls c
              in (map_option ((#) (d @ m)) ds, c))"

text \<open>The second loop: the MAC over the encrypted record, and the header.\<close>

fun outer_macs ::
  "('c, 'b) write_ops \<Rightarrow> bool \<Rightarrow> int \<Rightarrow> byte list list \<Rightarrow> 'c \<Rightarrow> byte list list option \<times> 'c" where
  "outer_macs ops macs type [] c = (Some [], c)"
| "outer_macs ops macs type (r # rs) c =
     (let (m, c) = (if macs then write_mac ops type r c else (Some [], c)) in
      case m of
        None \<Rightarrow> (None, c)
      | Some m \<Rightarrow> let (rs, c) = outer_macs ops macs type rs c in (map_option ((#) (r @ m)) rs, c))"

definition TLS1_get_version :: "nat \<Rightarrow> nat" where
  "TLS1_get_version v = (if v div 256 = 3 then v else 0)"

definition record_header :: "('c, 'b) writer \<Rightarrow> int \<Rightarrow> nat \<Rightarrow> byte list" where
  "record_header s type n =
     [word_of_int type, word_of_nat (w_version s div 256),
      if clnt_hello_state s \<and> \<not> w_renegotiate s \<and> int (TLS1_get_version (w_version s)) > TLS1_VERSION
      then 1 else word_of_nat (w_version s),
      word_of_nat (n div 256), word_of_nat n]"

definition seal_records ::
  "('c, 'b) write_ops \<Rightarrow> int \<Rightarrow> byte list \<Rightarrow> nat list \<Rightarrow> nat \<Rightarrow> ('c, 'b) writer \<Rightarrow>
     byte list list option \<times> ('c, 'b) writer" where
  "seal_records ops type buf pipelens mac_size s =
     (let macs = mac_size \<noteq> 0;
          (wr, c) = plain_records ops (compress_set s) (\<not> write_etm s \<and> macs) type buf pipelens (crypto s) in
      case wr of
        None \<Rightarrow> (None, s\<lparr>crypto := c\<rparr>)
      | Some wr \<Rightarrow>
          let (er, c) = write_enc ops (explicit_iv_length s) (map (Pair type) wr) c in
          case er of
            None \<Rightarrow> (None, s\<lparr>crypto := c\<rparr>)
          | Some er \<Rightarrow>
              let (rs, c) = outer_macs ops (write_etm s \<and> macs) type er c in
              (map_option (map (\<lambda>r. record_header s type (length r) @ r)) rs, s\<lparr>crypto := c\<rparr>))"


subsection \<open>Writing records\<close>

text \<open>The parts of the data that the pipelines take.\<close>

fun chunks :: "byte list \<Rightarrow> nat list \<Rightarrow> byte list list" where
  "chunks buf [] = []"
| "chunks buf (l # ls) = take l buf # chunks (drop l buf) ls"

text \<open>
  \<open>do_ssl3_write\<close> after the alert. The size of the MAC, or an error. When it calls itself for
  an empty fragment, no buffer is pending, no alert waits and a buffer is there, so that the
  call is \<open>seal_records\<close>, whose result it puts in front of its only record. Several pipelines
  with an empty fragment would write to a pointer that is not set.
\<close>

definition write_mac_size :: "('c, 'b) writer \<Rightarrow> int" where
  "write_mac_size s =
     (if \<not> session_set s \<or> enc_write_ctx s = None then 0
      else case write_hash_size s of None \<Rightarrow> 0 | Some n \<Rightarrow> n)"

definition empty_fragment ::
  "('c, 'b) write_ops \<Rightarrow> int \<Rightarrow> byte list \<Rightarrow> nat \<Rightarrow> ('c, 'b) writer \<Rightarrow> byte list option \<times> ('c, 'b) writer" where
  "empty_fragment ops type buf mac_size s =
     (if enc_write_ctx s \<noteq> None \<and> \<not> empty_fragment_done s then
        if need_empty_fragments s \<and> type = SSL3_RT_APPLICATION_DATA then
          case seal_records ops type buf [0] mac_size s of
            (None, s) \<Rightarrow> (None, s)
          | (Some rs, s) \<Rightarrow>
              if length (hd rs) > SSL3_RT_HEADER_LENGTH + SSL3_RT_SEND_MAX_ENCRYPTED_OVERHEAD then (None, s)
              else (Some (hd rs), s\<lparr>empty_fragment_done := True\<rparr>)
        else (Some [], s\<lparr>empty_fragment_done := True\<rparr>)
      else (Some [], s))"

definition write_records ::
  "('c, 'b) write_ops \<Rightarrow> int \<Rightarrow> nat \<Rightarrow> byte list \<Rightarrow> nat list \<Rightarrow> ('c, 'b) writer \<Rightarrow>
     (int \<times> ('c, 'b) writer) option" where
  "write_records ops type bufp buf pipelens s =
     (let totlen = sum_list pipelens; numpipes = length pipelens;
          (ok, s) = (if length (wbufs s) < numpipes then ssl3_setup_write_buffer ops numpipes s else (True, s)) in
      if \<not> ok then Some (- 1, s)
      else if totlen = 0 then Some (0, s)
      else if write_mac_size s < 0 then Some (- 1, s)
      else
        let mac_size = nat (write_mac_size s) in
        case empty_fragment ops type buf mac_size s of
          (None, s) \<Rightarrow> Some (- 1, s)
        | (Some prefix, s) \<Rightarrow>
            if prefix \<noteq> [] \<and> numpipes > 1 then None
            else
              case seal_records ops type buf pipelens mac_size s of
                (None, s) \<Rightarrow> Some (- 1, s)
              | (Some rs, s) \<Rightarrow>
                  ssl3_write_pending ops type bufp totlen
                    (s\<lparr>wbufs := map ((@) prefix) rs @ drop (length rs) (wbufs s),
                       wpend_tot := totlen, wpend_buf := bufp, wpend_type := type, wpend_ret := totlen,
                       record_log := record_log s @
                         (if prefix = [] then [] else [(type, [], prefix)]) @
                         zip (replicate numpipes type) (zip (chunks buf pipelens) rs)\<rparr>))"

text \<open>
  \<open>ssl3_dispatch_alert\<close>. It calls \<open>do_ssl3_write\<close> with no alert left to dispatch, that is the
  check for pending data and \<open>write_records\<close>.
\<close>

definition ssl3_dispatch_alert ::
  "('c, 'b) write_ops \<Rightarrow> ('c, 'b) writer \<Rightarrow> (int \<times> ('c, 'b) writer) option" where
  "ssl3_dispatch_alert ops s =
     (let s = s\<lparr>alert_dispatch := False\<rparr> in
      case (if RECORD_LAYER_write_pending s
            then ssl3_write_pending ops SSL3_RT_ALERT (send_alert_at s) 2 s
            else write_records ops SSL3_RT_ALERT (send_alert_at s) (send_alert s) [2] s) of
        None \<Rightarrow> None
      | Some (i, s) \<Rightarrow>
          if i \<le> 0 then Some (i, s\<lparr>alert_dispatch := True\<rparr>)
          else if hd (send_alert s) = SSL3_AL_FATAL
          then Some (i, s\<lparr>wbio := map_option (BIO_flush ops) (wbio s)\<rparr>)
          else Some (i, s))"

definition do_ssl3_write ::
  "('c, 'b) write_ops \<Rightarrow> int \<Rightarrow> nat \<Rightarrow> byte list \<Rightarrow> nat list \<Rightarrow> ('c, 'b) writer \<Rightarrow>
     (int \<times> ('c, 'b) writer) option" where
  "do_ssl3_write ops type bufp buf pipelens s =
     (if RECORD_LAYER_write_pending s then ssl3_write_pending ops type bufp (sum_list pipelens) s
      else if alert_dispatch s then
        case ssl3_dispatch_alert ops s of
          None \<Rightarrow> None
        | Some (i, s) \<Rightarrow> if i \<le> 0 then Some (i, s) else write_records ops type bufp buf pipelens s
      else write_records ops type bufp buf pipelens s)"

text \<open>
  \<open>ssl3_send_alert\<close> after the description has been mapped to \<open>desc\<close>; removing the session from
  the cache is left out.
\<close>

definition tls_send_alert ::
  "('c, 'b) write_ops \<Rightarrow> byte \<Rightarrow> int \<Rightarrow> ('c, 'b) writer \<Rightarrow> (int \<times> ('c, 'b) writer) option" where
  "tls_send_alert ops level desc s =
     (if desc < 0 then Some (- 1, s)
      else let s = s\<lparr>alert_dispatch := True, send_alert := [level, word_of_int desc]\<rparr> in
        if \<not> RECORD_LAYER_write_pending s then ssl3_dispatch_alert ops s else Some (- 1, s))"

subsection \<open>Writing data\<close>

text \<open>How many pipelines are used, and what each takes of \<open>n\<close> bytes.\<close>

definition max_pipes :: "('c, 'b) writer \<Rightarrow> nat" where
  "max_pipes s =
     (case enc_write_ctx s of
        None \<Rightarrow> 1
      | Some ctx \<Rightarrow>
          if max_pipelines s = 0 \<or> \<not> pipeline_flag ctx \<or> \<not> use_explicit_iv s then 1 else max_pipelines s)"

definition pipe_lengths :: "('c, 'b) writer \<Rightarrow> nat \<Rightarrow> nat \<Rightarrow> nat list" where
  "pipe_lengths s maxpipes n =
     (let numpipes = min maxpipes (if n = 0 then 1 else (n - 1) div split_send_fragment s + 1) in
      if n div numpipes \<ge> max_send_fragment s then replicate numpipes (max_send_fragment s)
      else map (\<lambda>j. n div numpipes + (if j < n mod numpipes then 1 else 0)) [0..<numpipes])"

text \<open>The loop of \<open>ssl3_write_bytes\<close>, which may run for ever for all that is known here.\<close>

partial_function (option) write_loop ::
  "('c, 'b) write_ops \<Rightarrow> int \<Rightarrow> nat \<Rightarrow> byte list \<Rightarrow> nat \<Rightarrow> nat \<Rightarrow> nat \<Rightarrow> ('c, 'b) writer \<Rightarrow>
     (int \<times> ('c, 'b) writer) option" where
  "write_loop ops type bufp buf maxpipes tot n s =
     (case do_ssl3_write ops type (bufp + tot) (drop tot buf) (pipe_lengths s maxpipes n) s of
        None \<Rightarrow> None
      | Some (i, s) \<Rightarrow>
          if i \<le> 0 then Some (i, s\<lparr>wnum := tot\<rparr>)
          else if i = int n \<or> type = SSL3_RT_APPLICATION_DATA \<and> enable_partial_write s then
            let s = s\<lparr>empty_fragment_done := False\<rparr> in
            Some (int tot + i, if i = int n \<and> release_buffers s then ssl3_release_write_buffer s else s)
          else write_loop ops type bufp buf maxpipes (tot + nat i) (n - nat i) s)"

declare write_loop.simps [code]

text \<open>The part of \<open>ssl3_write_bytes\<close> behind the writing of what was pending.\<close>

definition write_rest ::
  "('c, 'b) write_ops \<Rightarrow> int \<Rightarrow> nat \<Rightarrow> byte list \<Rightarrow> nat \<Rightarrow> nat \<Rightarrow> ('c, 'b) writer \<Rightarrow>
     (int \<times> ('c, 'b) writer) option" where
  "write_rest ops type bufp buf len tot s =
     (if tot = len then Some (int tot, if release_buffers s then ssl3_release_write_buffer s else s)
      else if max_pipelines s > SSL_MAX_PIPELINES then Some (- 1, s)
      else if max_send_fragment s = 0 \<or> split_send_fragment s > max_send_fragment s \<or> split_send_fragment s = 0
      then Some (- 1, s)
      else write_loop ops type bufp buf (max_pipes s) tot (len - tot) s)"

definition ssl3_write_bytes ::
  "('c, 'b) write_ops \<Rightarrow> int \<Rightarrow> nat \<Rightarrow> byte list \<Rightarrow> int \<Rightarrow> ('c, 'b) writer \<Rightarrow>
     (int \<times> ('c, 'b) writer) option" where
  "ssl3_write_bytes ops type bufp buf len s =
     (if len < 0 then Some (- 1, s)
      else
        let s = s\<lparr>w_rwstate := SSL_NOTHING\<rparr>; tot = wnum s; len = nat len in
        if len < wnum s \<or> first_pending s \<and> len < wnum s + wpend_tot s then Some (- 1, s)
        else
          let s = s\<lparr>wnum := 0\<rparr>;
              (i, s) = (if w_in_init s \<and> \<not> w_in_handshake s then handshake_func ops s else (1, s)) in
          if i < 0 then Some (i, s)
          else if i = 0 then Some (- 1, s)
          else if first_pending s then
            case ssl3_write_pending ops type (bufp + tot) (wpend_tot s) s of
              None \<Rightarrow> None
            | Some (i, s) \<Rightarrow>
                if i \<le> 0 then Some (i, s\<lparr>wnum := tot\<rparr>) else write_rest ops type bufp buf len (tot + nat i) s
          else write_rest ops type bufp buf len tot s)"


subsection \<open>What writing keeps\<close>

text \<open>
  What the record layer relies on: a BIO takes at most what it is given, and encryption
  returns as many records as it gets.
\<close>

definition ops_ok :: "('c, 'b) write_ops \<Rightarrow> bool" where
  "ops_ok ops \<longleftrightarrow>
     (\<forall>b st. fst (BIO_write ops b st) \<le> int (length b)) \<and>
     (\<forall>n rs c. case fst (write_enc ops n rs c) of None \<Rightarrow> True | Some es \<Rightarrow> length es = length rs)"

text \<open>The members that writing does not change.\<close>

definition settings where
  "settings s =
     (max_send_fragment s, split_send_fragment s, max_pipelines s, enable_partial_write s, release_buffers s,
      alert_dispatch s, w_in_init s \<and> \<not> w_in_handshake s, enc_write_ctx s, use_explicit_iv s,
      need_empty_fragments s, session_set s, write_hash_size s, wbio s = None)"

text \<open>
  No reason to stop: the BIO takes something whenever it is called, and nothing that sealing
  needs can fail.
\<close>

definition unhindered :: "('c, 'b) write_ops \<Rightarrow> ('c, 'b) writer \<Rightarrow> bool" where
  "unhindered ops s \<longleftrightarrow> (\<forall>b st. b \<noteq> [] \<longrightarrow> 0 < fst (BIO_write ops b st)) \<and> malloc_ok ops 0 \<and>
     (\<forall>n rs c. fst (write_enc ops n rs c) \<noteq> None) \<and> (\<forall>t d c. fst (write_mac ops t d c) \<noteq> None) \<and>
     (\<forall>d c. fst (ssl3_do_compress ops d c) \<noteq> None) \<and>
     wbio s \<noteq> None \<and> 0 \<le> write_mac_size s \<and> \<not> need_empty_fragments s"

lemma unhindered_settings: "settings s = settings t \<Longrightarrow> unhindered ops s = unhindered ops t"
  by (auto simp: settings_def unhindered_def write_mac_size_def)

text \<open>
  One pipeline, nothing to send but data, no handshake to do, and sensible sizes.
\<close>

definition plain_writer :: "('c, 'b) writer \<Rightarrow> bool" where
  "plain_writer s \<longleftrightarrow> max_pipes s = 1 \<and> max_pipelines s \<le> SSL_MAX_PIPELINES \<and> \<not> alert_dispatch s \<and>
     \<not> (w_in_init s \<and> \<not> w_in_handshake s) \<and>
     0 < split_send_fragment s \<and> split_send_fragment s \<le> max_send_fragment s"

lemma plain_writer_settings: "settings s = settings t \<Longrightarrow> plain_writer s = plain_writer t"
  by (cases "enc_write_ctx t") (auto simp: settings_def plain_writer_def max_pipes_def)

text \<open>
  From \<open>s0\<close> to \<open>s\<close> the first \<open>d\<close> bytes of the data have been put into records of the type and
  of allowed length, and the bytes of these records have been sent, up to those in the buffer.
\<close>

definition put :: "int \<Rightarrow> byte list \<Rightarrow> ('c, 'b) writer \<Rightarrow> nat \<Rightarrow> ('c, 'b) writer \<Rightarrow> bool" where
  "put type buf s0 d s \<longleftrightarrow>
     (\<exists>new. record_log s = record_log s0 @ new \<and> concat (map (fst \<circ> snd) new) = take d buf \<and>
        (\<forall>(t, p, r) \<in> set new. t = type \<and> length p \<le> max_send_fragment s0) \<and>
        sent_bytes s @ concat (wbufs s) = sent_bytes s0 @ concat (map (snd \<circ> snd) new)) \<and>
     settings s = settings s0 \<and> length (wbufs s) \<le> 1"

text \<open>
  The state between two attempts to write \<open>len\<close> bytes at \<open>bufp\<close>: what is in the buffer is the
  record behind the first \<open>wnum\<close> bytes.
\<close>

definition between ::
  "int \<Rightarrow> nat \<Rightarrow> byte list \<Rightarrow> nat \<Rightarrow> ('c, 'b) writer \<Rightarrow> ('c, 'b) writer \<Rightarrow> bool" where
  "between type bufp buf len s0 s \<longleftrightarrow>
     (if first_pending s
      then put type buf s0 (wnum s + wpend_tot s) s \<and> wnum s + wpend_tot s \<le> len \<and> 0 < wpend_tot s \<and>
        wpend_type s = type \<and> wpend_buf s = bufp + wnum s \<and> wpend_ret s = wpend_tot s
      else put type buf s0 (wnum s) s \<and> wnum s \<le> len)"

lemma pending_loop_one:
  assumes "\<forall>b st. fst (BIO_write ops b st) \<le> int (length b)"
  shows "wbufs s = [b] \<Longrightarrow> b \<noteq> [] \<Longrightarrow> \<exists>i m w bio. m \<le> length b \<and>
    pending_loop ops 0 s = Some (i, s\<lparr>wbufs := [drop m b], sent_bytes := sent_bytes s @ take m b,
      w_rwstate := w, wbio := bio\<rparr>) \<and>
    (bio = None \<longleftrightarrow> wbio s = None) \<and>
    (if m = length b then i = int (wpend_ret s) else i \<le> 0 \<and> \<not> unhindered ops s)"
proof (induction "length b" arbitrary: s b rule: less_induct)
  case less
  show ?case
  proof (cases "wbio s")
    case None
    then show ?thesis using less.prems
      by (intro exI [of _ "- 1"] exI [of _ 0] exI [of _ "w_rwstate s"] exI [of _ "wbio s"])
        (simp add: pending_loop.simps unhindered_def)
  next
    case (Some st)
    obtain i st' where io: "BIO_write ops b st = (i, st')" by (cases "BIO_write ops b st")
    have i: "i \<le> int (length b)" using assms io by (metis fst_conv)
    consider "i = int (length b)" | "i \<le> 0" "i \<noteq> int (length b)" | "0 < i" "i < int (length b)" using i by linarith
    then show ?thesis
    proof cases
      case 1
      then show ?thesis using less.prems Some io
        by (intro exI [of _ "int (wpend_ret s)"] exI [of _ "length b"] exI [of _ SSL_NOTHING] exI [of _ "Some st'"])
          (simp add: pending_loop.simps)
    next
      case 2
      then have "\<not> unhindered ops s" unfolding unhindered_def using less.prems(2) io by (metis fst_conv not_less)
      then show ?thesis using 2 less.prems Some io
        by (intro exI [of _ i] exI [of _ 0] exI [of _ SSL_WRITING] exI [of _ "Some st'"])
          (simp add: pending_loop.simps)
    next
      case 3
      define n where "n = nat i"
      have n: "0 < n" "n < length b" "i = int n" using 3 by (simp_all add: n_def)
      let ?s = "s\<lparr>w_rwstate := SSL_WRITING, wbio := Some st', wbufs := [drop n b], sent_bytes := sent_bytes s @ take n b\<rparr>"
      have "pending_loop ops 0 s = pending_loop ops 0 ?s"
        using less.prems Some io n by (subst pending_loop.simps) simp
      moreover have "length (drop n b) < length b" "wbufs ?s = [drop n b]" "drop n b \<noteq> []" using n by simp_all
      from less.hyps [OF this] obtain i' m w bio where "m \<le> length (drop n b)"
        "pending_loop ops 0 ?s = Some (i', ?s\<lparr>wbufs := [drop m (drop n b)],
           sent_bytes := sent_bytes ?s @ take m (drop n b), w_rwstate := w, wbio := bio\<rparr>)"
        "bio = None \<longleftrightarrow> wbio ?s = None"
        "if m = length (drop n b) then i' = int (wpend_ret ?s) else i' \<le> 0 \<and> \<not> unhindered ops ?s"
        by (elim exE conjE) (rule that, assumption+)
      moreover have "unhindered ops ?s = unhindered ops s" by (rule unhindered_settings) (simp add: settings_def Some)
      ultimately show ?thesis using n Some
        by (intro exI [of _ i'] exI [of _ "n + m"] exI [of _ w] exI [of _ bio])
          (auto simp: take_add add.commute [of m n] split: if_splits)
    qed
  qed
qed


text \<open>Sealing one record keeps everything but \<open>crypto\<close>, and gives one record.\<close>

lemma plain_records_length:
  "plain_records ops cmp macs type buf ls c = (Some wr, c') \<Longrightarrow> length wr = length ls"
  by (induction ops cmp macs type buf ls c arbitrary: wr c' rule: plain_records.induct)
    (auto simp: Let_def split: option.splits prod.splits)

lemma outer_macs_length: "outer_macs ops macs type rs c = (Some rs', c') \<Longrightarrow> length rs' = length rs"
  by (induction ops macs type rs c arbitrary: rs' c' rule: outer_macs.induct)
    (auto simp: Let_def split: option.splits prod.splits)

definition unsent :: "('c, 'b) writer \<Rightarrow> ('c, 'b) writer \<Rightarrow> bool" where
  "unsent s s' \<longleftrightarrow> settings s' = settings s \<and> wbufs s' = wbufs s \<and> record_log s' = record_log s \<and>
     sent_bytes s' = sent_bytes s \<and> wnum s' = wnum s"

lemma unsent_trans: "unsent s t \<Longrightarrow> unsent t u \<Longrightarrow> unsent s u"
  by (simp add: unsent_def)

lemma unsent_crypto: "unsent s (s\<lparr>crypto := c\<rparr>)" and unsent_done: "unsent s (s\<lparr>empty_fragment_done := e\<rparr>)"
  by (simp_all add: unsent_def settings_def)

lemma enc_length:
  assumes "ops_ok ops" "write_enc ops n wr c = (Some es, c')"
  shows "length es = length wr"
proof -
  from assms(1) have "case fst (write_enc ops n wr c) of None \<Rightarrow> True | Some es \<Rightarrow> length es = length wr"
    unfolding ops_ok_def by blast
  then show ?thesis using assms(2) by simp
qed

lemma seal_records_result:
  assumes ok: "ops_ok ops" and "seal_records ops type buf ls m s = (rs, s')"
  shows "unsent s s' \<and>
    (case rs of None \<Rightarrow> True | Some rs \<Rightarrow> length rs = length ls \<and> (\<forall>r \<in> set rs. r \<noteq> []))"
proof -
  obtain wr c1 where p: "plain_records ops (compress_set s) (\<not> write_etm s \<and> 0 < m) type buf ls (crypto s) = (wr, c1)"
    by (rule prod.exhaust)
  show ?thesis
  proof (cases wr)
    case None
    then show ?thesis using assms(2) by (auto simp: seal_records_def Let_def p unsent_crypto)
  next
    case wr: (Some ps)
    obtain er c2 where e: "write_enc ops (explicit_iv_length s) (map (Pair type) ps) c1 = (er, c2)" by (rule prod.exhaust)
    show ?thesis
    proof (cases er)
      case None
      then show ?thesis using assms(2) by (auto simp: seal_records_def Let_def p wr e unsent_crypto)
    next
      case er: (Some es)
      obtain os c3 where o: "outer_macs ops (write_etm s \<and> 0 < m) type es c2 = (os, c3)" by (rule prod.exhaust)
      show ?thesis
        using assms(2) plain_records_length [OF p [unfolded wr]] enc_length [OF ok e [unfolded er]]
          outer_macs_length [of ops "write_etm s \<and> 0 < m" type es c2] o
        by (cases os) (auto simp: seal_records_def Let_def p wr e er o unsent_crypto record_header_def)
    qed
  qed
qed

lemma empty_fragment_result:
  assumes "ops_ok ops" "empty_fragment ops type buf m s = (r, s')"
  shows "unsent s s'"
proof -
  obtain rs t where t: "seal_records ops type buf [0] m s = (rs, t)" by (rule prod.exhaust)
  have "unsent s t" using seal_records_result [OF assms(1) t] by blast
  then show ?thesis using assms(2) unsent_trans [OF _ unsent_done, of s t True] unsent_done [of s]
    unfolding empty_fragment_def t by (auto split: if_splits option.splits simp: unsent_def)
qed

lemma setup_one:
  "length (wbufs s) = 0 \<Longrightarrow> ssl3_setup_write_buffer ops 1 s = (malloc_ok ops 0, s\<lparr>wbufs := if malloc_ok ops 0 then [[]] else []\<rparr>)"
  by (simp add: ssl3_setup_write_buffer_def)

lemma unhindered_seal:
  assumes "unhindered ops s" "seal_records ops type buf ls m s' = (rs, t)"
  shows "rs \<noteq> None"
proof -
  have ok: "write_mac ops t d c \<noteq> (None, c')" "ssl3_do_compress ops d c \<noteq> (None, c')"
    "write_enc ops n xs c \<noteq> (None, c')" for t d c c' n xs
    using assms(1) unfolding unhindered_def by (metis fst_conv)+
  have pr: "plain_records ops cmp macs type buf ls c \<noteq> (None, c')" for cmp macs ls c c'
    by (induction ls arbitrary: buf c c') (auto simp: Let_def ok split: option.splits prod.splits)
  have ou: "outer_macs ops macs type xs c \<noteq> (None, c')" for macs xs c c'
    by (induction xs arbitrary: c c') (auto simp: Let_def ok split: option.splits prod.splits)
  have "outer_macs ops macs type xs c = (r, c') \<Longrightarrow> r \<noteq> None" for macs xs c r c'
    using ou [of macs xs c c'] by (cases r) simp_all
  then show ?thesis
    using assms(2) by (fastforce simp: seal_records_def Let_def pr ok split: option.splits prod.splits)
qed

text \<open>Both write what is in the one buffer, and record that it was \<open>l\<close> bytes.\<close>

lemma put_settings: "put type buf s0 d s \<Longrightarrow> settings s = settings s0 \<and> length (wbufs s) \<le> 1"
  by (simp add: put_def)

lemma put_unsent: "put type buf s0 d s \<Longrightarrow> unsent s s' \<Longrightarrow> put type buf s0 d s' \<and> first_pending s' = first_pending s"
  by (simp add: put_def unsent_def first_pending_def)

lemma put_sent:
  assumes "put type buf s0 d s" "wbufs s = [b]" "m \<le> length b" "bio = None \<longleftrightarrow> wbio s = None"
  shows "put type buf s0 d (s\<lparr>wbufs := [drop m b], sent_bytes := sent_bytes s @ take m b, w_rwstate := w, wbio := bio\<rparr>)"
  using assms by (auto simp: put_def settings_def)

definition waits :: "int \<Rightarrow> nat \<Rightarrow> nat \<Rightarrow> ('c, 'b) writer \<Rightarrow> bool" where
  "waits type bufp l s \<longleftrightarrow>
     wpend_tot s = l \<and> wpend_type s = type \<and> wpend_buf s = bufp \<and> wpend_ret s = l"

lemma flush_one:
  assumes "ops_ok ops" "put type buf s0 d s" "first_pending s" "waits type bufp l s" "0 < l"
  shows "\<exists>i s'. ssl3_write_pending ops type bufp l s = Some (i, s') \<and> put type buf s0 d s' \<and> wnum s' = wnum s \<and>
    (if first_pending s' then i \<le> 0 \<and> waits type bufp l s' \<and> \<not> unhindered ops s0 else i = int l)"
proof -
  obtain b where b: "wbufs s = [b]" "b \<noteq> []"
    using assms(2,3) by (cases "wbufs s") (auto simp: put_def first_pending_def)
  have io: "\<forall>b st. fst (BIO_write ops b st) \<le> int (length b)" using assms(1) by (simp add: ops_ok_def)
  obtain i m w bio where h: "m \<le> length b" "pending_loop ops 0 s = Some (i, s\<lparr>wbufs := [drop m b],
      sent_bytes := sent_bytes s @ take m b, w_rwstate := w, wbio := bio\<rparr>)"
    "if m = length b then i = int (wpend_ret s) else i \<le> 0 \<and> \<not> unhindered ops s" "bio = None \<longleftrightarrow> wbio s = None"
    using pending_loop_one [OF io b] by (elim exE conjE) (rule that, assumption+)
  have "ssl3_write_pending ops type bufp l s = pending_loop ops 0 s"
    using assms(4) by (simp add: ssl3_write_pending_def waits_def)
  then show ?thesis
    using h put_sent [OF assms(2) b(1) h(1,4), where w = w] assms(4) unhindered_settings [of s s0 ops] put_settings [OF assms(2)]
    by (auto simp: first_pending_def waits_def)
qed

text \<open>One record of at most the allowed length is put into the empty buffer and sent.\<close>

lemma put_record:
  assumes "put type buf s0 d s" "\<not> first_pending s" "d + l \<le> length buf" "l \<le> max_send_fragment s0"
    and "wbufs s \<noteq> []"
  shows "put type buf s0 (d + l) (s\<lparr>wbufs := [pre @ r], wpend_tot := x, wpend_buf := y, wpend_type := z, wpend_ret := v,
    record_log := record_log s @ (if pre = [] then [] else [(type, [], pre)]) @ [(type, take l (drop d buf), r)]\<rparr>)"
proof -
  obtain new where new: "record_log s = record_log s0 @ new" "concat (map (fst \<circ> snd) new) = take d buf"
    "\<forall>(t, p, r) \<in> set new. t = type \<and> length p \<le> max_send_fragment s0"
    "sent_bytes s @ concat (wbufs s) = sent_bytes s0 @ concat (map (snd \<circ> snd) new)"
    "settings s = settings s0" "length (wbufs s) \<le> 1"
    using assms(1) by (auto simp: put_def)
  have "concat (wbufs s) = []" using new(6) assms(2,5) by (cases "wbufs s") (auto simp: first_pending_def)
  then have sent: "sent_bytes s = sent_bytes s0 @ concat (map (snd \<circ> snd) new)" using new(4) by (simp only: append_Nil2)
  show ?thesis
    unfolding put_def using new sent assms(3,4)
    by (intro conjI exI [of _ "new @ (if pre = [] then [] else [(type, [], pre)]) @ [(type, take l (drop d buf), r)]"])
      (simp_all add: take_add settings_def)
qed


lemma write_records_one:
  assumes ok: "ops_ok ops" and put: "put type buf s0 d s" and "\<not> first_pending s"
    and l: "0 < l" "d + l \<le> length buf" "l \<le> max_send_fragment s0"
  shows "\<exists>i s'. write_records ops type bufp (drop d buf) [l] s = Some (i, s') \<and> wnum s' = wnum s \<and>
    (i \<le> 0 \<longrightarrow> \<not> unhindered ops s0) \<and>
    (if first_pending s' then i \<le> 0 \<and> put type buf s0 (d + l) s' \<and> waits type bufp l s'
     else i < 0 \<and> put type buf s0 d s' \<or> i = int l \<and> put type buf s0 (d + l) s')"
proof -
  define u where "u = (if length (wbufs s) < 1 then ssl3_setup_write_buffer ops 1 s else (True, s))"
  obtain a s1 where s1: "u = (a, s1)" by (rule prod.exhaust)
  have u: "put type buf s0 d s1 \<and> \<not> first_pending s1 \<and> wnum s1 = wnum s \<and> (a \<longrightarrow> wbufs s1 \<noteq> [])"
    using s1 put assms(3) setup_one [of s ops] unfolding u_def
    by (cases "wbufs s") (auto simp: put_def first_pending_def settings_def split: if_splits)
  obtain p s2 where s2: "empty_fragment ops type (drop d buf) (nat (write_mac_size s1)) s1 = (p, s2)" by (rule prod.exhaust)
  have u2: "unsent s1 s2" by (rule empty_fragment_result [OF ok s2])
  obtain rs s3 where s3: "seal_records ops type (drop d buf) [l] (nat (write_mac_size s1)) s2 = (rs, s3)" by (rule prod.exhaust)
  note r = seal_records_result [OF ok s3]
  then have u3: "unsent s1 s3" using unsent_trans [OF u2] by blast
  have e: "write_records ops type bufp (drop d buf) [l] s =
     (if \<not> a \<or> write_mac_size s1 < 0 \<or> p = None then Some (- 1, if a \<and> \<not> write_mac_size s1 < 0 then s2 else s1)
      else case rs of None \<Rightarrow> Some (- 1, s3) | Some rs \<Rightarrow> ssl3_write_pending ops type bufp l
        (s3\<lparr>wbufs := map ((@) (the p)) rs @ drop (length rs) (wbufs s3), wpend_tot := l, wpend_buf := bufp,
           wpend_type := type, wpend_ret := l, record_log := record_log s3 @
             (if the p = [] then [] else [(type, [], the p)]) @ zip [type] (zip [take l (drop d buf)] rs)\<rparr>))"
    using l(1) s1 u_def by (auto simp: write_records_def Let_def s2 s3 split: option.splits)
  have failed: "put type buf s0 d t \<and> \<not> first_pending t \<and> wnum t = wnum s" if "unsent s1 t" for t
    using put_unsent [OF _ that] u that by (auto simp: unsent_def)
  show ?thesis
  proof (cases "\<not> a \<or> write_mac_size s1 < 0 \<or> p = None \<or> rs = None")
    case True
    have "unhindered ops s \<Longrightarrow> a \<and> \<not> write_mac_size s1 < 0 \<and> p \<noteq> None \<and> rs \<noteq> None"
    proof -
      assume unhindered: "unhindered ops s"
      then have a using s1 setup_one [of s ops] unfolding u_def by (cases "wbufs s") (auto simp: unhindered_def split: if_splits)
      moreover have "settings s1 = settings s" using u put by (simp add: put_def)
      then have "unhindered ops s1" using unhindered unhindered_settings by blast
      then have "\<not> write_mac_size s1 < 0" "p \<noteq> None"
        using s2 by (auto simp: unhindered_def empty_fragment_def split: if_splits)
      ultimately show ?thesis using unhindered_seal [OF unhindered s3] by simp
    qed
    then have dead: "\<not> unhindered ops s0" using True unhindered_settings [of s0 s ops] put by (auto simp: put_def)
    have "unsent s1 s1" by (simp add: unsent_def)
    then have "\<exists>t. write_records ops type bufp (drop d buf) [l] s = Some (- 1, t) \<and> unsent s1 t"
      using True e u2 u3 by auto
    then obtain t where t: "write_records ops type bufp (drop d buf) [l] s = Some (- 1, t)" "unsent s1 t" by blast
    then show ?thesis using failed [OF t(2)] dead by (intro exI [of _ "- 1"] exI [of _ t]) simp
  next
    case False
    then obtain pre r where pr: "p = Some pre" "rs = Some [r]" "r \<noteq> []" using r by (cases rs) (auto simp: length_Suc_conv)
    let ?t = "s3\<lparr>wbufs := [pre @ r], wpend_tot := l, wpend_buf := bufp, wpend_type := type, wpend_ret := l,
      record_log := record_log s3 @ (if pre = [] then [] else [(type, [], pre)]) @ [(type, take l (drop d buf), r)]\<rparr>"
    have w: "length (wbufs s3) = 1" "wbufs s3 \<noteq> []"
      using u u3 False by (cases "wbufs s1"; auto simp: put_def unsent_def)+
    have "put type buf s0 (d + l) ?t"
      by (rule put_record) (use failed [OF u3] l w in auto)
    moreover have "write_records ops type bufp (drop d buf) [l] s = ssl3_write_pending ops type bufp l ?t"
      using e False pr w by simp
    moreover have "first_pending ?t" "waits type bufp l ?t" "wnum ?t = wnum s"
      using pr(3) failed [OF u3] by (auto simp: first_pending_def waits_def)
    ultimately show ?thesis using flush_one [OF ok, of type buf s0 "d + l" ?t bufp l] l(1) by fastforce
  qed
qed


text \<open>The loop and the whole of \<open>ssl3_write_bytes\<close>, with one pipeline.\<close>

lemma put_wnum [simp]: "put type buf s0 d (s\<lparr>wnum := w\<rparr>) = put type buf s0 d s"
  and put_done [simp]: "put type buf s0 d (s\<lparr>empty_fragment_done := e\<rparr>) = put type buf s0 d s"
  and put_rwstate [simp]: "put type buf s0 d (s\<lparr>w_rwstate := r\<rparr>) = put type buf s0 d s"
  by (simp_all add: put_def settings_def)

lemma pending_members [simp]:
  "first_pending (s\<lparr>wnum := w\<rparr>) = first_pending s" "first_pending (s\<lparr>empty_fragment_done := e\<rparr>) = first_pending s"
  "first_pending (s\<lparr>w_rwstate := r\<rparr>) = first_pending s" "waits type bufp l (s\<lparr>wnum := w\<rparr>) = waits type bufp l s"
  "waits type bufp l (s\<lparr>w_rwstate := r\<rparr>) = waits type bufp l s"
  by (simp_all add: first_pending_def waits_def)

lemma put_release:
  "put type buf s0 d s \<Longrightarrow> \<not> first_pending s \<Longrightarrow>
   put type buf s0 d (ssl3_release_write_buffer s) \<and> \<not> first_pending (ssl3_release_write_buffer s) \<and>
   wnum (ssl3_release_write_buffer s) = wnum s"
  by (cases "wbufs s") (auto simp: put_def first_pending_def ssl3_release_write_buffer_def settings_def)

lemma pipe_lengths_one: "0 < n \<Longrightarrow> pipe_lengths s 1 n = [min n (max_send_fragment s)]"
  by (auto simp: pipe_lengths_def Let_def min_def)

lemma do_write_one:
  "length (wbufs s) \<le> 1 \<Longrightarrow> \<not> first_pending s \<Longrightarrow> \<not> alert_dispatch s \<Longrightarrow>
   do_ssl3_write ops type bufp buf ls s = write_records ops type bufp buf ls s"
  by (cases "wbufs s") (auto simp: do_ssl3_write_def RECORD_LAYER_write_pending_def first_pending_def)

definition attempt_result ::
  "('c, 'b) write_ops \<Rightarrow> int \<Rightarrow> nat \<Rightarrow> byte list \<Rightarrow> nat \<Rightarrow> ('c, 'b) writer \<Rightarrow> (int \<times> ('c, 'b) writer) option \<Rightarrow> bool" where
  "attempt_result ops type bufp buf len s0 r \<longleftrightarrow>
     (\<exists>i s. r = Some (i, s) \<and>
        (if i \<le> 0 then between type bufp buf len s0 s \<and> \<not> unhindered ops s0
         else put type buf s0 (nat i) s \<and> \<not> first_pending s \<and> wnum s = 0 \<and> i \<le> int len \<and>
           (i = int len \<or> type = SSL3_RT_APPLICATION_DATA \<and> enable_partial_write s0)))"

lemma write_loop_one:
  assumes ok: "ops_ok ops" and plain: "plain_writer s0" and len: "len \<le> length buf"
  shows "put type buf s0 tot s \<Longrightarrow> \<not> first_pending s \<Longrightarrow> wnum s = 0 \<Longrightarrow> tot + n = len \<Longrightarrow> 0 < n \<Longrightarrow>
    attempt_result ops type bufp buf len s0 (write_loop ops type bufp buf 1 tot n s)"
proof (induction n arbitrary: tot s rule: less_induct)
  case (less n)
  let ?l = "min n (max_send_fragment s0)"
  note set = put_settings [OF less.prems(1)]
  have l: "0 < ?l" "?l \<le> n" using plain less.prems(5) by (auto simp: plain_writer_def)
  have e: "enable_partial_write s = enable_partial_write s0" "max_send_fragment s = max_send_fragment s0"
    "\<not> alert_dispatch s" using set plain by (auto simp: settings_def plain_writer_def)
  have "tot + ?l \<le> length buf" using less.prems(4) len l(2) by linarith
  from write_records_one [OF ok less.prems(1,2) l(1) this, of "bufp + tot"] obtain i s' where
    w: "write_records ops type (bufp + tot) (drop tot buf) [?l] s = Some (i, s')" "wnum s' = 0"
      "i \<le> 0 \<longrightarrow> \<not> unhindered ops s0"
      "if first_pending s' then i \<le> 0 \<and> put type buf s0 (tot + ?l) s' \<and> waits type (bufp + tot) ?l s'
       else i < 0 \<and> put type buf s0 tot s' \<or> i = int ?l \<and> put type buf s0 (tot + ?l) s'"
    using less.prems(3) by auto
  have do: "do_ssl3_write ops type (bufp + tot) (drop tot buf) (pipe_lengths s 1 n) s = Some (i, s')"
    using set e(3) w(1) do_write_one [of s] less.prems(2) unfolding pipe_lengths_one [OF less.prems(5)] e(2) by auto
  note step = write_loop.simps [of ops type bufp buf 1 tot n s, unfolded do option.case prod.case]
  show ?case
  proof (cases "i \<le> 0")
    case True
    then have "between type bufp buf len s0 (s'\<lparr>wnum := tot\<rparr>)"
      using w(4) l less.prems(4) by (auto simp: between_def waits_def split: if_splits)
    then show ?thesis using True w(3) unfolding step by (simp add: attempt_result_def)
  next
    case False
    then have i: "i = int ?l" "put type buf s0 (tot + ?l) s'" "\<not> first_pending s'" using w(4) by (auto split: if_splits)
    have i0: "\<not> i \<le> 0" "nat i = ?l" using False i(1) by simp_all
    have e': "enable_partial_write s' = enable_partial_write s0" using put_settings [OF i(2)] by (simp add: settings_def)
    show ?thesis
    proof (cases "i = int n \<or> type = SSL3_RT_APPLICATION_DATA \<and> enable_partial_write s'")
      case True
      let ?t = "s'\<lparr>empty_fragment_done := False\<rparr>"
      have "put type buf s0 (tot + ?l) ?t \<and> \<not> first_pending ?t" using i by simp
      then show ?thesis
        using True i i0 l less.prems(4) w(2) e' put_release [of type buf s0 "tot + ?l" ?t]
        unfolding step by (auto simp: attempt_result_def Let_def nat_add_distrib)
    next
      case no: False
      have "attempt_result ops type bufp buf len s0 (write_loop ops type bufp buf 1 (tot + ?l) (n - ?l) s')"
        by (rule less.IH) (use i l no less.prems w(2) in auto)
      then show ?thesis unfolding step using no i0 by auto
    qed
  qed
qed


lemma write_rest_one:
  assumes "ops_ok ops" "plain_writer s0" "len \<le> length buf" "0 < len"
    and "put type buf s0 tot s" "\<not> first_pending s" "wnum s = 0" "tot \<le> len"
  shows "attempt_result ops type bufp buf len s0 (write_rest ops type bufp buf len tot s)"
proof (cases "tot = len")
  case True
  then show ?thesis using assms put_release [OF assms(5,6)]
    by (simp add: write_rest_def attempt_result_def)
next
  case False
  have set: "settings s = settings s0" using put_settings [OF assms(5)] by simp
  have "plain_writer s" using plain_writer_settings [OF set] assms(2) by simp
  then have "write_rest ops type bufp buf len tot s = write_loop ops type bufp buf 1 tot (len - tot) s"
    using False by (auto simp: write_rest_def plain_writer_def)
  then show ?thesis using write_loop_one [OF assms(1-3) assms(5-7)] False assms(8) by simp
qed

lemma write_bytes_one:
  assumes ok: "ops_ok ops" and plain: "plain_writer s0" and len: "len \<le> length buf" "0 < len"
    and s: "between type bufp buf len s0 s"
  shows "attempt_result ops type bufp buf len s0 (ssl3_write_bytes ops type bufp buf (int len) s)"
proof -
  have set: "settings s = settings s0" using s by (auto simp: between_def put_def split: if_splits)
  have no: "\<not> (w_in_init s \<and> \<not> w_in_handshake s)"
    using plain_writer_settings [OF set] plain by (auto simp: plain_writer_def)
  have short: "\<not> (len < wnum s \<or> first_pending s \<and> len < wnum s + wpend_tot s)"
    using s by (auto simp: between_def split: if_splits)
  define t where "t = s\<lparr>w_rwstate := SSL_NOTHING, wnum := 0\<rparr>"
  have t: "first_pending t = first_pending s" "wnum t = 0" "put type buf s0 d t = put type buf s0 d s"
    "waits ty bp l t = waits ty bp l s" for d ty bp l by (simp_all add: t_def)
  have e: "ssl3_write_bytes ops type bufp buf (int len) s =
    (if first_pending s then
       case ssl3_write_pending ops type (bufp + wnum s) (wpend_tot s) t of
         None \<Rightarrow> None
       | Some (i, t) \<Rightarrow> if i \<le> 0 then Some (i, t\<lparr>wnum := wnum s\<rparr>)
           else write_rest ops type bufp buf len (wnum s + nat i) t
     else write_rest ops type bufp buf len (wnum s) t)"
    using no short t(1) by (auto simp: ssl3_write_bytes_def Let_def t_def cong: option.case_cong prod.case_cong if_cong)
  show ?thesis
  proof (cases "first_pending s")
    case False
    then show ?thesis unfolding e using write_rest_one [OF ok plain len, of type "wnum s" t] s t
      by (simp add: between_def)
  next
    case True
    let ?l = "wpend_tot s"
    have p: "put type buf s0 (wnum s + ?l) s" "wnum s + ?l \<le> len" "waits type (bufp + wnum s) ?l s" "0 < ?l"
      using s True by (auto simp: between_def waits_def)
    have "put type buf s0 (wnum s + ?l) t" "first_pending t" "waits type (bufp + wnum s) ?l t"
      using p True t by simp_all
    from flush_one [OF ok this p(4)] obtain i u where u:
      "ssl3_write_pending ops type (bufp + wnum s) ?l t = Some (i, u)" "put type buf s0 (wnum s + ?l) u"
      "wnum u = 0" "if first_pending u then i \<le> 0 \<and> waits type (bufp + wnum s) ?l u \<and> \<not> unhindered ops s0 else i = int ?l"
      using t(2) by auto
    show ?thesis
    proof (cases "first_pending u")
      case True
      then show ?thesis unfolding e using \<open>first_pending s\<close> u p(2,4)
        by (simp add: attempt_result_def between_def waits_def)
    next
      case False
      then show ?thesis unfolding e using \<open>first_pending s\<close> u p(2,4)
          write_rest_one [OF ok plain len u(2) False u(3) p(2)] by simp
    qed
  qed
qed

text \<open>
  Attempts to write the same data, as a caller repeats them: the result of the first that
  returns a positive number, or of the last of \<open>k + 1\<close>.
\<close>

fun attempts ::
  "('c, 'b) write_ops \<Rightarrow> int \<Rightarrow> nat \<Rightarrow> byte list \<Rightarrow> int \<Rightarrow> nat \<Rightarrow> ('c, 'b) writer \<Rightarrow>
     (int \<times> ('c, 'b) writer) option" where
  "attempts ops type bufp buf len 0 s = ssl3_write_bytes ops type bufp buf len s"
| "attempts ops type bufp buf len (Suc k) s =
     (case ssl3_write_bytes ops type bufp buf len s of
        None \<Rightarrow> None
      | Some (i, s) \<Rightarrow> if i \<le> 0 then attempts ops type bufp buf len k s else Some (i, s))"

lemma attempts_result:
  assumes "ops_ok ops" "plain_writer s0" "len \<le> length buf" "0 < len"
  shows "between type bufp buf len s0 s \<Longrightarrow>
    attempt_result ops type bufp buf len s0 (attempts ops type bufp buf (int len) k s)"
proof (induction k arbitrary: s)
  case 0
  then show ?case using write_bytes_one [OF assms] by simp
next
  case (Suc k)
  note one = write_bytes_one [OF assms Suc.prems]
  then obtain i t where r: "ssl3_write_bytes ops type bufp buf (int len) s = Some (i, t)"
    "i \<le> 0 \<Longrightarrow> between type bufp buf len s0 t" unfolding attempt_result_def by metis
  show ?case
  proof (cases "i \<le> 0")
    case True
    then show ?thesis using Suc.IH [OF r(2)] r(1) by simp
  next
    case False
    then show ?thesis using one r(1) by simp
  qed
qed

text \<open>A writer at rest: nothing is left of an earlier write.\<close>

definition at_rest :: "('c, 'b) writer \<Rightarrow> bool" where
  "at_rest s \<longleftrightarrow> \<not> first_pending s \<and> wnum s = 0 \<and> length (wbufs s) \<le> 1"

lemma at_rest_between: "at_rest s \<Longrightarrow> between type bufp buf len s s"
  by (cases "wbufs s") (auto simp: at_rest_def between_def put_def first_pending_def)



subsection \<open>A sample connection\<close>

text \<open>
  Before any keys are set: no cipher and no MAC. The BIO takes four bytes at a time and
  refuses every second call.
\<close>

definition clear_ops :: "(unit, nat) write_ops" where
  "clear_ops =
     \<lparr>BIO_write = (\<lambda>b n. if n = 0 then (- 1, 4) else (int (min n (length b)), 0)), BIO_flush = (\<lambda>n. n),
      handshake_func = (\<lambda>s. (1, s)), ssl3_do_compress = (\<lambda>d c. (Some d, c)),
      write_mac = (\<lambda>t d c. (Some [], c)), write_enc = (\<lambda>n rs c. (Some (map snd rs), c)), malloc_ok = (\<lambda>k. True)\<rparr>"

definition sample_writer :: "(unit, nat) writer" where
  "sample_writer =
     \<lparr>wnum = 0, wpend_tot = 0, wpend_type = 0, wpend_ret = 0, wpend_buf = 0, wbufs = [], w_rwstate = SSL_NOTHING,
      alert_dispatch = False, send_alert = [0, 0], send_alert_at = 1, empty_fragment_done = False,
      need_empty_fragments = False, max_send_fragment = 2, split_send_fragment = 2, max_pipelines = 0,
      enable_partial_write = False, accept_moving_buffer = False, release_buffers = False, w_version = 0x0303,
      clnt_hello_state = False, w_renegotiate = False, w_in_init = False, w_in_handshake = False, session_set = False,
      enc_write_ctx = None, write_hash_size = None, use_explicit_iv = True, write_etm = False, compress_set = False,
      crypto = (), wbio = Some 4, sent_bytes = [], record_log = []\<rparr>"

lemma sample_ok: "ops_ok clear_ops" "plain_writer sample_writer" "at_rest sample_writer"
  by (simp_all add: ops_ok_def clear_ops_def plain_writer_def sample_writer_def max_pipes_def at_rest_def
      first_pending_def SSL_MAX_PIPELINES_def)

lemma sample_attempts:
  "map_option fst (attempts clear_ops 23 100 [1, 2, 3] 3 3 sample_writer) = Some 3"
  by code_simp


definition willing_ops :: "(unit, nat) write_ops" where
  "willing_ops = clear_ops\<lparr>BIO_write := \<lambda>b n. (int (length b), n)\<rparr>"


subsection \<open>Where it fails\<close>

text \<open>
  An alert that blocks stays in the buffer, and from then on every attempt to write other data
  is refused as a bad retry, also when the BIO would take the alert.
\<close>

lemma blocked_alert_refuses:
  assumes "first_pending s" "wpend_type s = SSL3_RT_ALERT" "type \<noteq> SSL3_RT_ALERT" "0 \<le> len"
    and "\<not> (w_in_init s \<and> \<not> w_in_handshake s)"
  shows "\<exists>s'. ssl3_write_bytes ops type bufp buf len s = Some (- 1, s') \<and> wbufs s' = wbufs s \<and> sent_bytes s' = sent_bytes s \<and>
    wpend_type s' = SSL3_RT_ALERT"
  using assms by (auto simp: ssl3_write_bytes_def Let_def ssl3_write_pending_def first_pending_def)

text \<open>
  With several pipelines what is pending is looked for in the first and in the last buffer
  only. When fewer pipelines are used than buffers are allocated, a record left in between is
  overwritten by the next call.
\<close>

lemma pending_between_lost:
  assumes "wbufs s = [[], b, []]" "\<not> alert_dispatch s"
  shows "do_ssl3_write ops type bufp buf ls s = write_records ops type bufp buf ls s"
  using assms by (simp add: do_ssl3_write_def RECORD_LAYER_write_pending_def)

end
