(* ===== verification/Rsa_Padding.thy ===== *)
theory Rsa_Padding
  imports Constant_Time Byte_Words
begin

text \<open>
  The padding schemes of RSA: PKCS#1 v1.5 for signatures and encryption (crypto/rsa/rsa_pk1.c),
  SSLv2/v3 (rsa_ssl.c), X9.31 (rsa_x931.c) and none (rsa_none.c). \<open>from\<close> with \<open>flen\<close> is a list;
  what is written to \<open>to\<close> is the result. A function that checks returns the reason it
  reports or the message.
\<close>

datatype rsa_reason =
    NO_REASON | INVALID_PADDING | BLOCK_TYPE_IS_NOT_01 | BLOCK_TYPE_IS_NOT_02
  | BAD_FIXED_HEADER_DECRYPT | NULL_BEFORE_BLOCK_MISSING | BAD_PAD_BYTE_COUNT | DATA_TOO_LARGE
  | DATA_TOO_SMALL | MALLOC_FAILURE | SSLV3_ROLLBACK_ATTACK | INVALID_HEADER | INVALID_TRAILER | PKCS_DECODING_ERROR

type_synonym checked = "rsa_reason + byte list"

definition RSA_PKCS1_PADDING_SIZE :: int where "RSA_PKCS1_PADDING_SIZE = 11"

subsection \<open>PKCS#1 v1.5, block type 1\<close>

definition RSA_padding_add_PKCS1_type_1 :: "int \<Rightarrow> byte list \<Rightarrow> byte list option" where
  "RSA_padding_add_PKCS1_type_1 tlen from =
     (if int (length from) > tlen - RSA_PKCS1_PADDING_SIZE then None
      else let j = tlen - 3 - int (length from) in Some ([0, 1] @ replicate (nat j) 0xFF @ [0] @ from))"

text \<open>The scan over the padding from \<open>i\<close> on, with the rounds left: \<open>i\<close> and \<open>p\<close> after it.\<close>

fun scan_ff :: "byte list \<Rightarrow> nat \<Rightarrow> nat \<Rightarrow> rsa_reason + nat \<times> byte list" where
  "scan_ff p i 0 = Inr (i, p)"
| "scan_ff p i (Suc n) =
     (if hd p \<noteq> 0xFF
      then if hd p = 0 then Inr (i, tl p) else Inl BAD_FIXED_HEADER_DECRYPT
      else scan_ff (tl p) (i + 1) n)"

text \<open>From the block type on, with a leading zero byte removed.\<close>

definition check_block_01 :: "int \<Rightarrow> byte list \<Rightarrow> int \<Rightarrow> checked" where
  "check_block_01 tlen p num =
     (let flen = length p in
      if num \<noteq> int flen + 1 \<or> hd p \<noteq> 1 then Inl BLOCK_TYPE_IS_NOT_01
      else let j = flen - 1 in
        case scan_ff (tl p) 0 j of
          Inl e \<Rightarrow> Inl e
        | Inr (i, p) \<Rightarrow>
            if i = j then Inl NULL_BEFORE_BLOCK_MISSING
            else if i < 8 then Inl BAD_PAD_BYTE_COUNT
            else let i = i + 1; j = j - i in
              if int j > tlen then Inl DATA_TOO_LARGE else Inr (take j p))"

definition RSA_padding_check_PKCS1_type_1 :: "int \<Rightarrow> byte list \<Rightarrow> int \<Rightarrow> checked" where
  "RSA_padding_check_PKCS1_type_1 tlen from num =
     (if num < 11 then Inl NO_REASON
      else if num = int (length from)
      then if hd from \<noteq> 0 then Inl INVALID_PADDING else check_block_01 tlen (tl from) num
      else check_block_01 tlen from num)"

lemma scan_ff_end: "scan_ff p i n = Inr (i', p') \<Longrightarrow> length p = n \<Longrightarrow>
  (\<exists>k. i' = i + k \<and> k < n \<and> p = replicate k 0xFF @ [0] @ p') \<or> i' = i + n"
proof (induction p i n rule: scan_ff.induct)
  case (2 p i n)
  then obtain c q where p: "p = c # q" "length q = n" by (cases p) auto
  show ?case
  proof (cases "c = 0xFF")
    case True
    with 2 p consider k where "i' = i + 1 + k" "k < n" "q = replicate k 0xFF @ [0] @ p'" | "i' = i + 1 + n"
      by auto
    then show ?thesis
    proof cases
      case (1 k)
      then show ?thesis using True p by (intro disjI1 exI [of _ "Suc k"]) simp
    qed simp
  next
    case False
    with 2(2) p show ?thesis by (intro disjI1 exI [of _ 0]) (auto split: if_splits)
  qed
qed auto

lemma scan_ff_padding: "k < n \<Longrightarrow> scan_ff (replicate k 0xFF @ 0 # p) i n = Inr (i + k, p)"
  by (induction k arbitrary: i n) (auto simp: gr0_conv_Suc less_Suc_eq_0_disj Suc_less_eq2 dest!: Suc_lessE)

lemma check_block_01_iff:
  "check_block_01 tlen p num = Inr d \<longleftrightarrow>
     (\<exists>k \<ge> 8. p = [1] @ replicate k 0xFF @ [0] @ d \<and> num = int (k + length d + 3) \<and> int (length d) \<le> tlen)"
proof
  assume "check_block_01 tlen p num = Inr d"
  then obtain i q where h: "num = int (length p) + 1" "hd p = 1" "scan_ff (tl p) 0 (length p - 1) = Inr (i, q)"
    "i \<noteq> length p - 1" "8 \<le> i" "int (length p - 1 - (i + 1)) \<le> tlen" "d = take (length p - 1 - (i + 1)) q"
    by (auto simp: check_block_01_def Let_def split: if_splits sum.splits)
  from scan_ff_end [OF h(3)] h(4) have t: "i < length p - 1" "tl p = replicate i 0xFF @ [0] @ q" by auto
  then have l: "length p = i + length q + 2"
    by (cases p) auto
  then have "p = 1 # tl p" using h(2) by (cases p) auto
  with h l t show "\<exists>k \<ge> 8. p = [1] @ replicate k 0xFF @ [0] @ d \<and> num = int (k + length d + 3) \<and> int (length d) \<le> tlen"
    by (intro exI [of _ i]) auto
next
  assume "\<exists>k \<ge> 8. p = [1] @ replicate k 0xFF @ [0] @ d \<and> num = int (k + length d + 3) \<and> int (length d) \<le> tlen"
  then obtain k where "8 \<le> k" "p = [1] @ replicate k 0xFF @ [0] @ d" "num = int (k + length d + 3)" "int (length d) \<le> tlen"
    by blast
  then show "check_block_01 tlen p num = Inr d"
    using scan_ff_padding [of k "k + 1 + length d" d 0] by (simp add: check_block_01_def Let_def)
qed

text \<open>
  The check of block type 1 accepts exactly the encoded messages, with or without the
  leading zero byte, whose padding has at least eight bytes 0xFF and whose message fits
  into the output, and returns the message.
\<close>

theorem pkcs1_type_1_accepts:
  "RSA_padding_check_PKCS1_type_1 tlen from num = Inr d \<longleftrightarrow>
     (\<exists>k \<ge> 8. num = int (k + length d + 3) \<and> int (length d) \<le> tlen \<and>
       (from = [0, 1] @ replicate k 0xFF @ [0] @ d \<or> from = [1] @ replicate k 0xFF @ [0] @ d))"
proof (cases "num = int (length from)")
  case True
  then show ?thesis
    by (cases "from") (auto simp: RSA_padding_check_PKCS1_type_1_def check_block_01_iff)
next
  case False
  then show ?thesis
    by (auto simp: RSA_padding_check_PKCS1_type_1_def check_block_01_iff)
qed

lemma pkcs1_type_1_round_trip:
  assumes "RSA_padding_add_PKCS1_type_1 tlen from = Some to"
  shows "int (length to) = tlen \<and> RSA_padding_check_PKCS1_type_1 (int (length from)) to tlen = Inr from"
  using assms unfolding pkcs1_type_1_accepts
  by (auto simp: RSA_padding_add_PKCS1_type_1_def RSA_PKCS1_PADDING_SIZE_def Let_def split: if_splits
      intro!: exI [of _ "nat (tlen - 3 - int (length from))"])

subsection \<open>PKCS#1 v1.5, block type 2\<close>

text \<open>
  \<open>RAND_bytes\<close> is the parameter \<open>rand\<close>: from a state of the generator, so many bytes and
  the next state, or None for its failure. The loop that replaces a zero byte draws until
  the byte is not zero, so it may not end: that is the outer None.
\<close>

type_synonym 'r generator = "'r \<Rightarrow> nat \<Rightarrow> (byte list \<times> 'r) option"

partial_function (option) redraw :: "'r generator \<Rightarrow> 'r \<Rightarrow> (byte \<times> 'r) option option" where
  "redraw rand r =
     (case rand r 1 of None \<Rightarrow> Some None
      | Some (bs, r') \<Rightarrow> if hd bs = 0 then redraw rand r' else Some (Some (hd bs, r')))"

fun nonzero_bytes :: "'r generator \<Rightarrow> byte list \<Rightarrow> 'r \<Rightarrow> (byte list \<times> 'r) option option" where
  "nonzero_bytes rand [] r = Some (Some ([], r))"
| "nonzero_bytes rand (c # cs) r =
     (case if c = 0 then redraw rand r else Some (Some (c, r)) of
        None \<Rightarrow> None
      | Some None \<Rightarrow> Some None
      | Some (Some (c, r)) \<Rightarrow>
          (case nonzero_bytes rand cs r of
             None \<Rightarrow> None
           | Some None \<Rightarrow> Some None
           | Some (Some (cs, r)) \<Rightarrow> Some (Some (c # cs, r))))"

definition RSA_padding_add_PKCS1_type_2 ::
    "'r generator \<Rightarrow> 'r \<Rightarrow> int \<Rightarrow> byte list \<Rightarrow> (byte list \<times> 'r) option option" where
  "RSA_padding_add_PKCS1_type_2 rand r tlen from =
     (if int (length from) > tlen - 11 then Some None
      else let j = tlen - 3 - int (length from) in
        case rand r (nat j) of
          None \<Rightarrow> Some None
        | Some (bs, r) \<Rightarrow>
            (case nonzero_bytes rand bs r of
               None \<Rightarrow> None
             | Some None \<Rightarrow> Some None
             | Some (Some (ps, r)) \<Rightarrow> Some (Some ([0, 2] @ ps @ [0] @ from, r))))"

text \<open>The search for the first zero byte, on masks: \<open>i\<close>, the rounds left, \<open>found_zero_byte\<close>, \<open>zero_index\<close>.\<close>

fun zero_scan :: "byte list \<Rightarrow> nat \<Rightarrow> nat \<Rightarrow> u32 \<Rightarrow> u32 \<Rightarrow> u32" where
  "zero_scan em i 0 found_zero_byte zero_index = zero_index"
| "zero_scan em i (Suc n) found_zero_byte zero_index =
     (let equals0 = constant_time_is_zero (ucast (em ! i));
          zero_index = constant_time_select_int (NOT found_zero_byte AND equals0) (word_of_nat i) zero_index
      in zero_scan em (i + 1) n (found_zero_byte OR equals0) zero_index)"

definition RSA_padding_check_PKCS1_type_2 :: "bool \<Rightarrow> int \<Rightarrow> byte list \<Rightarrow> int \<Rightarrow> checked" where
  "RSA_padding_check_PKCS1_type_2 malloc_ok tlen from num =
     (if tlen < 0 then Inl NO_REASON
      else if int (length from) > num then Inl PKCS_DECODING_ERROR
      else if num < 11 then Inl PKCS_DECODING_ERROR
      else if \<not> malloc_ok then Inl MALLOC_FAILURE
      else let em = replicate (nat num - length from) 0 @ from;
               good = constant_time_is_zero (ucast (em ! 0));
               good = good AND constant_time_eq (ucast (em ! 1)) 2;
               zero_index = zero_scan em 2 (nat num - 2) 0 0;
               good = good AND constant_time_ge zero_index (2 + 8);
               msg_index = zero_index + 1;
               mlen = word_of_int num - msg_index;
               good = good AND constant_time_ge (word_of_int tlen) mlen
           in if good = 0 then Inl PKCS_DECODING_ERROR
              else Inr (take (unat mlen) (drop (unat msg_index) em)))"

text \<open>What the constant-time search computes: the place of the first zero byte, or 0.\<close>

lemma mask_or: "mask_of c OR mask_of e = mask_of (c \<or> e)"
  and mask_and: "mask_of c AND mask_of e = mask_of (c \<and> e)"
  and mask_not: "NOT (mask_of c) = mask_of (\<not> c)"
  by auto

lemma ucast_byte_zero: "(ucast (c :: byte) :: u32) = 0 \<longleftrightarrow> c = 0"
  and ucast_byte_two: "(ucast (c :: byte) :: u32) = 2 \<longleftrightarrow> c = 2"
  by (simp_all add: word_uint_eq_iff uint_ucast_byte)

lemma zero_scan_value:
  "i + length xs = length em \<Longrightarrow> drop i em = xs \<Longrightarrow>
   zero_scan em i (length xs) (mask_of f) z =
     (if f \<or> 0 \<notin> set xs then z else word_of_nat (i + length (takeWhile (\<lambda>c. c \<noteq> 0) xs)))"
proof (induction xs arbitrary: i f z)
  case (Cons x xs)
  then have x: "em ! i = x" "drop (i + 1) em = xs"
    by (simp add: nth_via_drop) (metis Cons.prems(2) Suc_eq_plus1 drop_Suc list.sel(3) tl_drop)
  show ?case
    using Cons.IH [of "i + 1" "f \<or> x = 0"] Cons.prems x
    by (cases f; cases "x = 0") (simp_all add: constant_time_is_zero_eq ucast_byte_zero constant_time_select_int_def
      constant_time_select_def Let_def)
qed simp

text \<open>The loop over a failing or succeeding generator keeps what it drew: no zero byte is left.\<close>

lemma redraw_nonzero: "redraw rand r = Some (Some (c, r')) \<Longrightarrow> c \<noteq> 0"
proof -
  have "\<forall>c r'. res = Some (c, r') \<longrightarrow> c \<noteq> 0" if "redraw rand r = Some res" for res
    using that
  proof (induction rule: redraw.raw_induct [rotated, consumes 1])
    case (1 f rand r res)
    note IH = 1(1) and step = 1(2)
    show ?case
    proof (cases "rand r 1")
      case None
      then show ?thesis using step by auto
    next
      case (Some d)
      obtain bs r' where d: "d = (bs, r')" by (cases d)
      show ?thesis
      proof (cases "hd bs = 0")
        case True
        then have "f rand r' = Some res" using step Some d by simp
        then show ?thesis by (rule IH)
      qed (use step Some d in auto)
    qed
  qed
  then show "redraw rand r = Some (Some (c, r')) \<Longrightarrow> c \<noteq> 0" by simp
qed

lemma nonzero_bytes_result:
  "nonzero_bytes rand cs r = Some (Some (ps, r')) \<Longrightarrow> length ps = length cs \<and> 0 \<notin> set ps"
proof (induction cs arbitrary: r ps r')
  case (Cons c cs)
  then obtain c1 r1 ps1 where "(if c = 0 then redraw rand r else Some (Some (c, r))) = Some (Some (c1, r1))"
    "nonzero_bytes rand cs r1 = Some (Some (ps1, r'))" "ps = c1 # ps1"
    by (auto split: option.splits)
  moreover from this(1) have "c1 \<noteq> 0" by (auto split: if_splits dest: redraw_nonzero)
  ultimately show ?case using Cons.IH by auto
qed simp

text \<open>
  Every redraw ends when the generator, from the state reached, yields a byte other than
  zero (or fails) after finitely many draws.
\<close>

inductive yields_nonzero :: "'r generator \<Rightarrow> 'r \<Rightarrow> bool" for rand where
  fails: "rand r 1 = None \<Longrightarrow> yields_nonzero rand r"
| nonzero: "rand r 1 = Some (bs, r') \<Longrightarrow> hd bs \<noteq> 0 \<Longrightarrow> yields_nonzero rand r"
| again: "rand r 1 = Some (bs, r') \<Longrightarrow> yields_nonzero rand r' \<Longrightarrow> yields_nonzero rand r"

lemma redraw_ends: "yields_nonzero rand r \<Longrightarrow> redraw rand r \<noteq> None"
  by (induction rule: yields_nonzero.induct) (subst redraw.simps, simp)+

lemma nonzero_bytes_ends: "\<forall>r. yields_nonzero rand r \<Longrightarrow> nonzero_bytes rand cs r \<noteq> None"
proof (induction cs arbitrary: r)
  case (Cons c cs)
  have "(if c = 0 then redraw rand r else Some (Some (c, r))) \<noteq> None"
    using Cons.prems redraw_ends [of rand r] by auto
  then show ?case using Cons.IH [OF Cons.prems] by (auto simp only: nonzero_bytes.simps split: option.splits)
qed simp

lemma add_PKCS1_type_2_ends:
  "\<forall>r. yields_nonzero rand r \<Longrightarrow> RSA_padding_add_PKCS1_type_2 rand r tlen from \<noteq> None"
  by (auto simp: RSA_padding_add_PKCS1_type_2_def Let_def nonzero_bytes_ends split: option.splits)

text \<open>Exactly the encoded messages, found without a branch on the bytes.\<close>

abbreviation zero_padded :: "int \<Rightarrow> byte list \<Rightarrow> byte list" where
  "zero_padded num from \<equiv> replicate (nat num - length from) 0 @ from"

lemma takeWhile_nonzero: "0 \<notin> set ps \<Longrightarrow> takeWhile (\<lambda>c. c \<noteq> 0) (ps @ 0 # d) = (ps :: byte list)"
  by (induction ps) auto

lemma all_masks:
  "constant_time_is_zero x AND constant_time_eq y v AND constant_time_ge p q AND constant_time_ge r s \<noteq> 0 \<longleftrightarrow>
     x = 0 \<and> y = v \<and> q \<le> p \<and> s \<le> r"
  by (simp add: constant_time_is_zero_eq constant_time_eq_eq constant_time_ge_eq)

lemma type_2_parts:
  assumes em: "length em = n" "11 \<le> n" and n: "int n < 2 ^ 31" and t: "0 \<le> tlen" "tlen < 2 ^ 31"
    and z: "z = zero_scan em 2 (n - 2) 0 0"
  shows "(constant_time_is_zero (ucast (em ! 0)) AND constant_time_eq (ucast (em ! 1)) 2
        AND constant_time_ge z (2 + 8)
        AND constant_time_ge (word_of_int tlen) (word_of_int (int n) - (z + 1)) \<noteq> 0) \<and>
      take (unat (word_of_int (int n) - (z + 1))) (drop (unat (z + 1)) em) = d \<longleftrightarrow>
    (\<exists>ps. 8 \<le> length ps \<and> 0 \<notin> set ps \<and> em = [0, 2] @ ps @ [0] @ d \<and> int (length d) \<le> tlen)"
  (is "?good \<and> ?d \<longleftrightarrow> ?spec")
proof -
  obtain a b xs where s: "em = a # b # xs" "length xs = n - 2"
    using em by (cases em; cases "tl em") auto
  define k where "k = length (takeWhile (\<lambda>c. c \<noteq> 0) xs)"
  have zv: "z = (if 0 \<notin> set xs then 0 else word_of_nat (2 + k))"
    using zero_scan_value [of 2 xs em False 0] s by (simp add: z k_def)
  have spec: "?spec \<longleftrightarrow> a = 0 \<and> b = 2 \<and> 0 \<in> set xs \<and> 8 \<le> k \<and> drop (k + 1) xs = d \<and> int (length d) \<le> tlen"
  proof
    assume ?spec
    then obtain ps where h: "8 \<le> length ps" "0 \<notin> set ps" "a = 0" "b = 2" "xs = ps @ [0] @ d" "int (length d) \<le> tlen"
      using s by auto
    then have "k = length ps" by (simp add: k_def takeWhile_nonzero)
    with h show "a = 0 \<and> b = 2 \<and> 0 \<in> set xs \<and> 8 \<le> k \<and> drop (k + 1) xs = d \<and> int (length d) \<le> tlen" by simp
  next
    assume h: "a = 0 \<and> b = 2 \<and> 0 \<in> set xs \<and> 8 \<le> k \<and> drop (k + 1) xs = d \<and> int (length d) \<le> tlen"
    then obtain ps qs where x: "xs = ps @ 0 # qs" "0 \<notin> set ps" using split_list_first [of 0 xs] by blast
    then have "k = length ps" by (simp add: k_def takeWhile_nonzero)
    with h x s show ?spec by (intro exI [of _ ps]) simp
  qed
  show ?thesis
  proof (cases "0 \<in> set xs")
    case False
    then show ?thesis unfolding spec by (simp add: zv constant_time_ge_eq)
  next
    case True
    then have "length (takeWhile (\<lambda>c. c \<noteq> 0) xs) < length xs" by (induction xs) auto
    then have k: "k < n - 2" unfolding k_def s(2) .
    have zk: "z = word_of_nat (2 + k)" using zv True by simp
    have le: "k + 3 \<le> n" using k by simp
    have u: "unat z = 2 + k" "unat (z + 1) = k + 3" "unat (word_of_int (int n) - (z + 1)) = n - (k + 3)"
    proof -
      show "unat z = 2 + k" unfolding zk using k n by (intro unat_u32) simp
      have z1: "z + 1 = word_of_nat (k + 3)" unfolding zk by simp
      show "unat (z + 1) = k + 3" unfolding z1 using k n by (simp add: unat_of_nat take_bit_nat_eq_self del: of_nat_add)
      have "word_of_int (int n) - (z + 1) = (word_of_nat (n - (k + 3)) :: u32)"
        unfolding z1 using le by (simp add: of_nat_diff del: of_nat_add)
      then show "unat (word_of_int (int n) - (z + 1)) = n - (k + 3)" using n by (simp add: unat_of_nat take_bit_nat_eq_self del: of_nat_diff)
    qed
    have t': "unat (word_of_int tlen :: u32) = nat tlen"
      using t by (simp add: unsigned_of_int take_bit_int_eq_self)
    have c1: "(2 + 8 :: u32) \<le> z \<longleftrightarrow> 8 \<le> k"
      unfolding word_le_nat_alt u by simp
    have c2: "word_of_int (int n) - (z + 1) \<le> (word_of_int tlen :: u32) \<longleftrightarrow> int (n - (k + 3)) \<le> tlen"
      unfolding word_le_nat_alt u t' using t by auto
    have g: "?good \<longleftrightarrow> a = 0 \<and> b = 2 \<and> 8 \<le> k \<and> int (n - (k + 3)) \<le> tlen"
      unfolding all_masks c1 c2 by (simp add: s ucast_byte_zero ucast_byte_two)
    have "drop (k + 3) em = drop (k + 1) xs" using s by (simp add: numeral_3_eq_3)
    then have e: "?d \<longleftrightarrow> drop (k + 1) xs = d" unfolding u using s em by simp
    have "length (drop (k + 1) xs) = n - (k + 3)" using s by simp
    then show ?thesis unfolding spec g e using True by auto
  qed
qed

lemma type_2_accepted:
  "\<lbrakk>num < 2 ^ 31; tlen < 2 ^ 31\<rbrakk> \<Longrightarrow>
   RSA_padding_check_PKCS1_type_2 True tlen from num = Inr d \<longleftrightarrow>
     0 \<le> tlen \<and> int (length from) \<le> num \<and> int (length d) \<le> tlen \<and>
     (\<exists>ps. 8 \<le> length ps \<and> 0 \<notin> set ps \<and> zero_padded num from = [0, 2] @ ps @ [0] @ d)"
  (is "_ \<Longrightarrow> _ \<Longrightarrow> _ \<longleftrightarrow> ?spec")
proof (cases "0 \<le> tlen \<and> int (length from) \<le> num \<and> 11 \<le> num")
  case True
  assume b: "num < 2 ^ 31" "tlen < 2 ^ 31"
  define em where "em = zero_padded num from"
  from True have l: "length em = nat num" by (auto simp: em_def)
  define z where "z = zero_scan em 2 (nat num - 2) 0 0"
  have n: "int (nat num) = num" using True by simp
  have "11 \<le> nat num" using True by linarith
  note parts = type_2_parts [OF l this _ _ b(2) z_def, unfolded n]
  show ?thesis
    using parts [of d] True b
    unfolding RSA_padding_check_PKCS1_type_2_def Let_def em_def [symmetric] z_def [symmetric] and.assoc
    by auto
next
  case False
  have "11 \<le> num" if h: ?spec
  proof -
    obtain ps where ps: "8 \<le> length ps" "zero_padded num from = [0, 2] @ ps @ [0] @ d" using h by blast
    have "length (zero_padded num from) = 3 + length ps + length d" unfolding ps by simp
    moreover have "length from \<le> nat num" using h by auto
    ultimately show ?thesis using ps(1) by simp
  qed
  then show ?thesis using False by (auto simp: RSA_padding_check_PKCS1_type_2_def)
qed

text \<open>
  C14: The constant-time check of block type 2 accepts exactly the blocks that, extended with
  zero bytes on the left to the length of the modulus, are two bytes 0 and 2, at least
  eight bytes of padding that are not zero, a zero byte and a message that fits into the
  output; and it returns the message.
\<close>

theorem pkcs1_type_2_accepts:
  "\<lbrakk>num < 2 ^ 31; tlen < 2 ^ 31\<rbrakk> \<Longrightarrow>
   RSA_padding_check_PKCS1_type_2 True tlen from num = Inr d \<longleftrightarrow>
     0 \<le> tlen \<and> int (length from) \<le> num \<and> int (length d) \<le> tlen \<and>
     (\<exists>ps. 8 \<le> length ps \<and> 0 \<notin> set ps \<and> zero_padded num from = [0, 2] @ ps @ [0] @ d)"
  by (rule type_2_accepted)

lemma pkcs1_type_2_accepts_witness:
  "RSA_padding_check_PKCS1_type_2 True 4 [2, 1, 2, 3, 4, 5, 6, 7, 8, 0, 9, 10] 13 = Inr [9, 10]"
  using pkcs1_type_2_accepts [of 13 4 "[2, 1, 2, 3, 4, 5, 6, 7, 8, 0, 9, 10]" "[9, 10]"]
  by (auto intro!: exI [of _ "[1, 2, 3, 4, 5, 6, 7, 8]"])

lemma pkcs1_type_2_round_trip:
  assumes "RSA_padding_add_PKCS1_type_2 rand r tlen from = Some (Some (to, r'))"
    and "\<forall>r n bs r'. rand r n = Some (bs, r') \<longrightarrow> length bs = n" and "tlen < 2 ^ 31"
  shows "int (length to) = tlen \<and> RSA_padding_check_PKCS1_type_2 True (int (length from)) to tlen = Inr from"
proof -
  obtain bs r1 ps where b: "int (length from) \<le> tlen - 11"
    "rand r (nat (tlen - 3 - int (length from))) = Some (bs, r1)"
    "nonzero_bytes rand bs r1 = Some (Some (ps, r'))" "to = [0, 2] @ ps @ [0] @ from"
    using assms(1) by (auto simp: RSA_padding_add_PKCS1_type_2_def Let_def split: option.splits if_splits)
  have "length ps = nat (tlen - 3 - int (length from))" "0 \<notin> set ps"
    using nonzero_bytes_result [OF b(3)] assms(2) b(2) by auto
  then have "int (length to) = tlen" "8 \<le> length ps" "zero_padded tlen to = [0, 2] @ ps @ [0] @ from" "0 \<notin> set ps"
    using b(1) by (simp_all add: b(4))
  then show ?thesis
    using b(1) assms(3) type_2_accepted [of tlen "int (length from)" to "from"] by auto
qed

subsection \<open>SSLv2 and SSLv3\<close>

definition RSA_padding_add_SSLv23 ::
    "'r generator \<Rightarrow> 'r \<Rightarrow> int \<Rightarrow> byte list \<Rightarrow> (byte list \<times> 'r) option option" where
  "RSA_padding_add_SSLv23 rand r tlen from =
     (if int (length from) > tlen - 11 then Some None
      else let j = tlen - 3 - 8 - int (length from) in
        case rand r (nat j) of
          None \<Rightarrow> Some None
        | Some (bs, r) \<Rightarrow>
            (case nonzero_bytes rand bs r of
               None \<Rightarrow> None
             | Some None \<Rightarrow> Some None
             | Some (Some (ps, r)) \<Rightarrow> Some (Some ([0, 2] @ ps @ replicate 8 3 @ [0] @ from, r))))"

fun scan_zero :: "byte list \<Rightarrow> nat \<Rightarrow> nat \<Rightarrow> nat \<times> byte list" where
  "scan_zero p i 0 = (i, p)"
| "scan_zero p i (Suc n) = (if hd p = 0 then (i, tl p) else scan_zero (tl p) (i + 1) n)"

text \<open>The eight bytes before the zero at index \<open>z\<close>: where the loop over \<open>k\<close> stops, from \<open>k\<close> on.\<close>

fun scan_threes :: "byte list \<Rightarrow> nat \<Rightarrow> int \<Rightarrow> nat \<Rightarrow> int" where
  "scan_threes from z k 0 = k"
| "scan_threes from z k (Suc n) =
     (if from ! nat (int (z + 1) + k) \<noteq> 3 then k else scan_threes from z (k + 1) n)"

definition RSA_padding_check_SSLv23 :: "int \<Rightarrow> byte list \<Rightarrow> int \<Rightarrow> checked" where
  "RSA_padding_check_SSLv23 tlen from num =
     (let flen = length from in
      if flen < 10 then Inl DATA_TOO_SMALL
      else if num \<noteq> int flen + 1 \<or> hd from \<noteq> 2 then Inl BLOCK_TYPE_IS_NOT_02
      else let j = flen - 1; (i, p) = scan_zero (tl from) 0 j in
        if i = j \<or> i < 8 then Inl NULL_BEFORE_BLOCK_MISSING
        else if scan_threes from (i + 1) (- 9) 8 = - 1 then Inl SSLV3_ROLLBACK_ATTACK
        else let i = i + 1; j = j - i in
          if int j > tlen then Inl DATA_TOO_LARGE else Inr (take j p))"

lemma scan_zero_value:
  "scan_zero p i (length p) =
     (let k = length (takeWhile (\<lambda>c. c \<noteq> 0) p) in (i + k, drop (k + 1) p))"
  by (induction p arbitrary: i) (auto simp: Let_def)

lemma scan_threes_end: "scan_threes from z k n = k + int n \<longleftrightarrow> (\<forall>m < n. from ! nat (int (z + 1) + k + int m) = 3)"
proof (induction n arbitrary: k)
  case (Suc n)
  show ?case
    using Suc [of "k + 1"] by (auto simp: All_less_Suc2 algebra_simps)
qed simp


lemma check_SSLv23_encoded:
  assumes "length qs = 8" and "0 \<notin> set (ps @ qs)" and f: "from = [2] @ ps @ qs @ [0] @ d"
    and "num = int (length from) + 1"
  shows "RSA_padding_check_SSLv23 tlen from num =
    (if qs = replicate 8 3 then Inl SSLV3_ROLLBACK_ATTACK
     else if int (length d) > tlen then Inl DATA_TOO_LARGE else Inr d)"
proof -
  have k: "length (takeWhile (\<lambda>c. c \<noteq> 0) (ps @ qs @ 0 # d)) = length ps + 8"
    using takeWhile_nonzero [of "ps @ qs" d] assms(1,2) by simp
  have s: "scan_zero (tl from) 0 (length from - 1) = (length ps + 8, d)"
    using scan_zero_value [of "tl from" 0] k assms(1) by (simp add: f Let_def add.left_commute)
  have "from ! nat (int (length ps + 8 + 1 + 1) + - 9 + int m) = qs ! m" if "m < 8" for m
  proof -
    have "nat (int (length ps + 8 + 1 + 1) + - 9 + int m) = Suc (length ps + m)" by simp
    then show ?thesis using that assms(1) by (simp add: f nth_append)
  qed
  then have "scan_threes from (length ps + 8 + 1) (- 9) 8 = - 1 \<longleftrightarrow> qs = replicate 8 3"
    using scan_threes_end [of "from" "length ps + 8 + 1" "- 9" 8] assms(1)
    by (auto simp: list_eq_iff_nth_eq)
  then show ?thesis
    using s assms(1,4) by (simp add: RSA_padding_check_SSLv23_def f)
qed

lemma check_SSLv23_shape:
  assumes "RSA_padding_check_SSLv23 tlen from num = Inr d"
  shows "num = int (length from) + 1 \<and>
    (\<exists>ps qs e. length qs = 8 \<and> 0 \<notin> set (ps @ qs) \<and> from = [2] @ ps @ qs @ [0] @ e)"
proof -
  let ?k = "length (takeWhile (\<lambda>c. c \<noteq> 0) (tl from))"
  have h: "length from \<ge> 10" "num = int (length from) + 1" "hd from = 2" "?k \<noteq> length from - 1" "8 \<le> ?k"
    using assms scan_zero_value [of "tl from" 0]
    by (auto simp: RSA_padding_check_SSLv23_def Let_def split: if_splits)
  have f: "from = 2 # tl from" using h(1,3) by (cases "from") auto
  have "0 \<in> set (tl from)"
  proof (rule ccontr)
    assume "0 \<notin> set (tl from)"
    then have "takeWhile (\<lambda>c. c \<noteq> 0) (tl from) = tl from" by (auto simp: takeWhile_eq_all_conv)
    then have "?k = length (tl from)" by (simp only:)
    then show False using h(4) by simp
  qed
  then obtain rs e where r: "tl from = rs @ 0 # e" "0 \<notin> set rs" using split_list_first by fastforce
  then have "8 \<le> length rs" using h(5) by (simp add: takeWhile_nonzero)
  then obtain ps qs where "length qs = 8" "rs = ps @ qs"
    by (metis append_take_drop_id diff_diff_cancel length_drop)
  then have "from = [2] @ ps @ qs @ [0] @ e" "0 \<notin> set (ps @ qs)" using f r by simp_all
  with h(2) \<open>length qs = 8\<close> show ?thesis by blast
qed

text \<open>
  What the SSLv2/v3 check accepts: the encoding of block type 2 unless the last eight
  padding bytes are all 3, the mark of a client that also speaks SSLv3.
\<close>

theorem sslv23_accepts:
  "RSA_padding_check_SSLv23 tlen from num = Inr d \<longleftrightarrow>
     num = int (length from) + 1 \<and> int (length d) \<le> tlen \<and>
     (\<exists>ps qs. length qs = 8 \<and> 0 \<notin> set (ps @ qs) \<and> qs \<noteq> replicate 8 3 \<and> from = [2] @ ps @ qs @ [0] @ d)"
proof
  assume c: "RSA_padding_check_SSLv23 tlen from num = Inr d"
  then obtain ps qs e where e: "length qs = 8" "0 \<notin> set (ps @ qs)" "from = [2] @ ps @ qs @ [0] @ e"
    "num = int (length from) + 1" using check_SSLv23_shape by metis
  show "num = int (length from) + 1 \<and> int (length d) \<le> tlen \<and>
     (\<exists>ps qs. length qs = 8 \<and> 0 \<notin> set (ps @ qs) \<and> qs \<noteq> replicate 8 3 \<and> from = [2] @ ps @ qs @ [0] @ d)"
    using c e check_SSLv23_encoded [OF e, of tlen] by (auto split: if_splits)
next
  assume "num = int (length from) + 1 \<and> int (length d) \<le> tlen \<and>
     (\<exists>ps qs. length qs = 8 \<and> 0 \<notin> set (ps @ qs) \<and> qs \<noteq> replicate 8 3 \<and> from = [2] @ ps @ qs @ [0] @ d)"
  then obtain ps qs where e: "length qs = 8" "0 \<notin> set (ps @ qs)" "from = [2] @ ps @ qs @ [0] @ d"
    "num = int (length from) + 1" "qs \<noteq> replicate 8 3" "int (length d) \<le> tlen" by blast
  then show "RSA_padding_check_SSLv23 tlen from num = Inr d"
    using check_SSLv23_encoded [OF e(1-4), of tlen] by simp
qed

text \<open>What the client's side of SSLv2/v3 encodes, the server's side recognises as a rollback.\<close>

lemma add_SSLv23_rollback:
  assumes "RSA_padding_add_SSLv23 rand r tlen from = Some (Some (to, r'))"
    and "\<forall>r n bs r'. rand r n = Some (bs, r') \<longrightarrow> length bs = n"
  shows "int (length to) = tlen \<and> hd to = 0 \<and>
    RSA_padding_check_SSLv23 tlen' (tl to) tlen = Inl SSLV3_ROLLBACK_ATTACK"
proof -
  obtain bs r1 ps where b: "int (length from) \<le> tlen - 11"
    "rand r (nat (tlen - 3 - 8 - int (length from))) = Some (bs, r1)"
    "nonzero_bytes rand bs r1 = Some (Some (ps, r'))" "to = [0, 2] @ ps @ replicate 8 3 @ [0] @ from"
    using assms(1) by (auto simp: RSA_padding_add_SSLv23_def Let_def split: option.splits if_splits)
  have p: "length ps = nat (tlen - 3 - 8 - int (length from))" "0 \<notin> set ps"
    using nonzero_bytes_result [OF b(3)] assms(2) b(2) by auto
  have "int (length to) = tlen" using b(1,4) p(1) by simp
  moreover have "RSA_padding_check_SSLv23 tlen' (tl to) tlen = Inl SSLV3_ROLLBACK_ATTACK"
    using check_SSLv23_encoded [of "replicate 8 3" ps "tl to" "from" tlen] p b(1,4) by simp
  ultimately show ?thesis by (simp add: b(4))
qed

subsection \<open>X9.31\<close>

definition RSA_padding_add_X931 :: "int \<Rightarrow> byte list \<Rightarrow> byte list option" where
  "RSA_padding_add_X931 tlen from =
     (let j = tlen - int (length from) - 2 in
      if j < 0 then None
      else Some ((if j = 0 then [0x6A]
                  else [0x6B] @ (if j > 1 then replicate (nat (j - 1)) 0xBB else []) @ [0xBA])
                 @ from @ [0xCC]))"

fun scan_bb :: "byte list \<Rightarrow> nat \<Rightarrow> nat \<Rightarrow> rsa_reason + nat \<times> byte list" where
  "scan_bb p i 0 = Inr (i, p)"
| "scan_bb p i (Suc n) =
     (let c = hd p in
      if c = 0xBA then Inr (i, tl p)
      else if c \<noteq> 0xBB then Inl INVALID_PADDING
      else scan_bb (tl p) (i + 1) n)"

text \<open>
  After a header 6A, \<open>p\<close> is at the second byte and the trailer is at \<open>j = flen - 2\<close> from there;
  of a block of one byte that is the header itself.
\<close>

definition RSA_padding_check_X931 :: "int \<Rightarrow> byte list \<Rightarrow> int \<Rightarrow> checked" where
  "RSA_padding_check_X931 tlen from num =
     (let flen = int (length from) in
      if num \<noteq> flen \<or> hd from \<noteq> 0x6A \<and> hd from \<noteq> 0x6B then Inl INVALID_HEADER
      else if hd from = 0x6B
      then let j = flen - 3 in
        case scan_bb (tl from) 0 (nat j) of
          Inl e \<Rightarrow> Inl e
        | Inr (i, p) \<Rightarrow>
            let j = j - int i in
            if i = 0 then Inl INVALID_PADDING
            else if p ! nat j \<noteq> 0xCC then Inl INVALID_TRAILER else Inr (take (nat j) p)
      else let j = flen - 2 in
        if from ! nat (1 + j) \<noteq> 0xCC then Inl INVALID_TRAILER else Inr (take (nat j) (tl from)))"

lemma scan_bb_Inr:
  "n \<le> length p \<Longrightarrow> scan_bb p i n = Inr (i', q) \<longleftrightarrow>
     (\<exists>k < n. i' = i + k \<and> p = replicate k 0xBB @ [0xBA] @ q) \<or>
     i' = i + n \<and> p = replicate n 0xBB @ q"
proof (induction n arbitrary: p i)
  case (Suc n)
  then obtain c r where p: "p = c # r" "n \<le> length r" by (cases p) auto
  show ?case
    using Suc.IH [OF p(2), of "i + 1"]
    by (cases "c = 0xBA"; cases "c = 0xBB") (auto simp: p(1) Let_def Ex_less_Suc2)
qed auto

lemma x931_accepted:
  "from \<noteq> [] \<Longrightarrow> RSA_padding_check_X931 tlen from num = Inr d \<longleftrightarrow>
     num = int (length from) \<and>
     (from = [0x6A] @ d @ [0xCC] \<or>
      (\<exists>k \<ge> 1. d \<noteq> [] \<and> from = [0x6B] @ replicate k 0xBB @ [0xBA] @ d @ [0xCC]) \<or>
      (\<exists>k \<ge> 1. \<exists>c. d = [] \<and> from = [0x6B] @ replicate k 0xBB @ [0xCC, c]))"
proof -
  assume "from \<noteq> []"
  then obtain h p where f: "from = h # p" by (cases "from") auto
  consider "h = 0x6A" | "h = 0x6B" | "h \<noteq> 0x6A" "h \<noteq> 0x6B" by blast
  then show ?thesis
  proof cases
    case 1
    then show ?thesis
      by (cases p rule: rev_cases) (auto simp: RSA_padding_check_X931_def f Let_def nat_add_distrib nth_append)
  next
    case 2
    define n where "n = length p - 2"
    have n: "nat (int (length p) - 2) = n" "nat (int (length p) - 2 - int i) = n - i" for i
      by (auto simp: n_def)
    have "RSA_padding_check_X931 tlen from num = Inr d \<longleftrightarrow> num = int (length from) \<and>
        (\<exists>i q. scan_bb p 0 n = Inr (i, q) \<and> i \<noteq> 0 \<and> q ! (n - i) = 0xCC \<and> d = take (n - i) q)"
      using 2 by (auto simp: RSA_padding_check_X931_def f Let_def n split: sum.splits)
    also have "\<dots> \<longleftrightarrow> num = int (length from) \<and>
        ((\<exists>k \<ge> 1. d \<noteq> [] \<and> p = replicate k 0xBB @ [0xBA] @ d @ [0xCC]) \<or>
         (\<exists>k \<ge> 1. \<exists>c. d = [] \<and> p = replicate k 0xBB @ [0xCC, c]))"
    proof (intro conj_cong refl iffI)
      assume "\<exists>i q. scan_bb p 0 n = Inr (i, q) \<and> i \<noteq> 0 \<and> q ! (n - i) = 0xCC \<and> d = take (n - i) q"
      then obtain i q where a: "scan_bb p 0 n = Inr (i, q)" "i \<noteq> 0" "q ! (n - i) = 0xCC" "d = take (n - i) q"
        by blast
      have l: "length p = n + 2" using a(1,2) by (cases n) (auto simp: n_def)
      from a(1) consider (found) "i < n" "p = replicate i 0xBB @ [0xBA] @ q" | (all) "i = n" "p = replicate n 0xBB @ q"
        using scan_bb_Inr [of n p 0 i q] l by auto
      then show "(\<exists>k \<ge> 1. d \<noteq> [] \<and> p = replicate k 0xBB @ [0xBA] @ d @ [0xCC]) \<or>
         (\<exists>k \<ge> 1. \<exists>c. d = [] \<and> p = replicate k 0xBB @ [0xCC, c])"
      proof cases
        case found
        then have "length q = n - i + 1" using l by simp
        then have "q = d @ [0xCC]" "d \<noteq> []"
          using a(3,4) found(1) take_Suc_conv_app_nth [of "n - i" q] by auto
        then show ?thesis using found a(2) by (intro disjI1 exI [of _ i]) simp
      next
        case all
        then have "length q = 2" using l by simp
        then obtain x c where "q = [x, c]" by (auto simp: length_Suc_conv numeral_2_eq_2)
        then show ?thesis using all a by (intro disjI2 exI [of _ n]) simp
      qed
    next
      assume "(\<exists>k \<ge> 1. d \<noteq> [] \<and> p = replicate k 0xBB @ [0xBA] @ d @ [0xCC]) \<or>
         (\<exists>k \<ge> 1. \<exists>c. d = [] \<and> p = replicate k 0xBB @ [0xCC, c])"
      then consider k where "1 \<le> k" "d \<noteq> []" "p = replicate k 0xBB @ [0xBA] @ d @ [0xCC]"
        | k c where "1 \<le> k" "d = []" "p = replicate k 0xBB @ [0xCC, c]" by blast
      then show "\<exists>i q. scan_bb p 0 n = Inr (i, q) \<and> i \<noteq> 0 \<and> q ! (n - i) = 0xCC \<and> d = take (n - i) q"
      proof cases
        case (1 k)
        moreover from this have "n = k + length d" "length d > 0" by (simp_all add: n_def)
        ultimately show ?thesis using scan_bb_Inr [of n p 0 k "d @ [0xCC]"]
          by (intro exI [of _ k] exI [of _ "d @ [0xCC]"]) (simp add: nth_append)
      next
        case (2 k c)
        moreover from this have "n = k" by (simp add: n_def)
        ultimately show ?thesis using scan_bb_Inr [of n p 0 k "[0xCC, c]"]
          by (intro exI [of _ k] exI [of _ "[0xCC, c]"]) simp
      qed
    qed
    finally show ?thesis using 2 by (simp add: f)
  next
    case 3
    then show ?thesis by (auto simp: RSA_padding_check_X931_def f)
  qed
qed

text \<open>
  C21: What the X9.31 check accepts of a block that is not empty: the two encodings, that with
  padding only when there are at least two padding bytes and a message; and a block with no
  end of the padding, whose message is then empty and whose last byte is ignored.
\<close>

theorem x931_accepts:
  "from \<noteq> [] \<Longrightarrow> RSA_padding_check_X931 tlen from num = Inr d \<longleftrightarrow>
     num = int (length from) \<and>
     (from = [0x6A] @ d @ [0xCC] \<or>
      (\<exists>k \<ge> 1. d \<noteq> [] \<and> from = [0x6B] @ replicate k 0xBB @ [0xBA] @ d @ [0xCC]) \<or>
      (\<exists>k \<ge> 1. \<exists>c. d = [] \<and> from = [0x6B] @ replicate k 0xBB @ [0xCC, c]))"
  by (rule x931_accepted)

lemma x931_accepts_witness:
  "RSA_padding_check_X931 9 [0x6B, 0xBB, 0xBA, 7, 0xCC] 5 = Inr [7] \<and>
   RSA_padding_check_X931 9 [0x6B, 0xBB, 0xCC, 7] 4 = Inr []"
  using x931_accepts [of "[0x6B, 0xBB, 0xBA, 7, 0xCC]" 9 5 "[7]"] x931_accepts [of "[0x6B, 0xBB, 0xCC, 7]" 9 4 "[]"]
  by (auto intro!: exI [of _ 1])

text \<open>
  What is encoded is accepted, except when the padding is the two nibbles of one header byte
  and one end byte, or when the message is empty and padded.
\<close>

lemma x931_round_trip:
  assumes "RSA_padding_add_X931 tlen from = Some to"
  shows "int (length to) = tlen \<and>
    (RSA_padding_check_X931 n to tlen = Inr from \<longleftrightarrow>
       tlen = int (length from) + 2 \<or> tlen > int (length from) + 3 \<and> from \<noteq> [])"
proof -
  let ?j = "tlen - int (length from) - 2"
  have j: "0 \<le> ?j" using assms by (auto simp: RSA_padding_add_X931_def Let_def split: if_splits)
  consider "?j = 0" | "?j = 1" | "?j > 1" using j by linarith
  then show ?thesis
  proof cases
    case 1
    then show ?thesis using assms x931_accepted [of to n tlen "from"]
      by (auto simp: RSA_padding_add_X931_def)
  next
    case 2
    then have "to = [0x6B, 0xBA] @ from @ [0xCC]" using assms by (simp add: RSA_padding_add_X931_def)
    then show ?thesis using 2 x931_accepted [of to n tlen "from"]
      by (auto simp: Cons_eq_append_conv neq_Nil_conv dest!: Suc_le_D)
  next
    case 3
    then have to: "to = [0x6B] @ replicate (nat (?j - 1)) 0xBB @ [0xBA] @ from @ [0xCC]"
      using assms by (auto simp: RSA_padding_add_X931_def Let_def)
    show ?thesis
    proof (cases "from = []")
      case True
      have "replicate m 0xBB @ [0xBA, 0xCC] \<noteq> replicate k 0xBB @ [0xCC, c :: byte]" for m k c
        using append_eq_append_conv [of "replicate m 0xBB" "replicate k 0xBB" "[0xBA, 0xCC :: byte]" "[0xCC, c]"] by auto
      then show ?thesis using True 3 to x931_accepted [of to n tlen "from"] by auto
    next
      case False
      then have "\<exists>k \<ge> 1. to = [0x6B] @ replicate k 0xBB @ [0xBA] @ from @ [0xCC]"
        using to 3 by (intro exI [of _ "nat (?j - 1)"]) auto
      moreover have "int (length to) = tlen" using to 3 by simp
      ultimately show ?thesis using False 3 x931_accepted [of to n tlen "from"] to by auto
    qed
  qed
qed

subsection \<open>No padding\<close>

definition RSA_padding_add_none :: "int \<Rightarrow> byte list \<Rightarrow> byte list option" where
  "RSA_padding_add_none tlen from =
     (if int (length from) > tlen then None
      else if int (length from) < tlen then None else Some from)"

definition RSA_padding_check_none :: "int \<Rightarrow> byte list \<Rightarrow> int \<Rightarrow> checked" where
  "RSA_padding_check_none tlen from num =
     (if int (length from) > tlen then Inl DATA_TOO_LARGE
      else Inr (replicate (nat (tlen - int (length from))) 0 @ from))"

end
