(* ===== verification/Asn1_Integer.thy ===== *)
theory Asn1_Integer
  imports Byte_Words
begin

text \<open>
  ASN.1 INTEGER (crypto/asn1/a_int.c): the conversion between the internal form, a sign and
  the bytes of the absolute value, and the content octets, which are in two's complement;
  and the conversions of the internal form to and from 64-bit integers.
\<close>

subsection \<open>Values\<close>

definition signed_value :: "bool \<Rightarrow> byte list \<Rightarrow> int" where
  "signed_value neg b = (if neg then - int (be_value b) else int (be_value b))"

text \<open>The value of content octets in two's complement.\<close>

definition content_value :: "byte list \<Rightarrow> int" where
  "content_value p = int (be_value p) - (if 128 \<le> unat (hd p) then 256 ^ length p else 0)"

subsection \<open>The conversions\<close>

text \<open>From the last byte on: what is left of \<open>src\<close> reversed, \<open>pad\<close>, \<open>carry\<close>, what is written.\<close>

fun twos_loop :: "byte list \<Rightarrow> byte \<Rightarrow> u32 \<Rightarrow> byte list \<Rightarrow> byte list" where
  "twos_loop [] pad carry dst = dst"
| "twos_loop (b # src) pad carry dst =
     (let carry = carry + ucast (b XOR pad)
      in twos_loop src pad (drop_bit 8 carry) (ucast carry # dst))"

definition twos_complement :: "byte list \<Rightarrow> byte \<Rightarrow> byte list" where
  "twos_complement src pad = twos_loop (rev src) pad (ucast pad AND 1) []"

text \<open>The result of \<open>i2c_ibuf\<close> is what it writes to \<open>*pp\<close>; its length is what it returns.\<close>

definition i2c_pad :: "byte list \<Rightarrow> bool \<Rightarrow> nat \<times> byte" where
  "i2c_pad b neg =
     (if b \<noteq> [] then
        let i = unat (hd b) in
        if \<not> neg \<and> i > 127 then (1, 0)
        else if neg then
          if i > 128 then (1, 0xFF)
          else if i = 128 then
            let pad = foldl (\<lambda>pad c. pad OR c) 0 (tl b); pb = (if pad \<noteq> 0 then 0xFF else 0)
            in (unat (pb AND 1), pb)
          else (0, 0xFF)
        else (0, 0)
      else (0, 0))"

definition i2c_ibuf :: "byte list \<Rightarrow> bool \<Rightarrow> byte list" where
  "i2c_ibuf b neg =
     (let (pad, pb) = i2c_pad b neg;
          ret = (if b \<noteq> [] then length b + pad else 1);
          out = (replicate ret 0) [0 := pb]
      in take pad out @ twos_complement b pb @ drop (pad + length b) out)"

definition c2i_ibuf :: "byte list \<Rightarrow> (bool \<times> byte list) option" where
  "c2i_ibuf p =
     (if p = [] then None
      else let neg = hd p AND 0x80 in
        if length p = 1 then Some (neg \<noteq> 0, if neg \<noteq> 0 then [(hd p XOR 0xFF) + 1] else p)
        else let pad = (if hd p = 0 then 1
                        else if hd p = 0xFF then if foldl (\<lambda>pad c. pad OR c) 0 (tl p) \<noteq> 0 then 1 else 0
                        else (0 :: nat))
          in if pad \<noteq> 0 \<and> neg = p ! 1 AND 0x80 then None
             else Some (neg \<noteq> 0, twos_complement (drop pad p) (if neg \<noteq> 0 then 0xFF else 0)))"

subsection \<open>Two's complement\<close>

lemma twos_loop_zero: "twos_loop src 0 0 dst = rev src @ dst"
proof (induction src arbitrary: dst)
  case (Cons b src)
  have "drop_bit 8 (ucast b :: u32) = 0"
    using byte_less [of b] by (simp add: drop_bit_eq_div word_arith_nat_div unat_ucast_byte)
  moreover have "ucast (ucast b :: u32) = b"
    by (rule bit_word_eqI) (simp add: bit_simps)
  ultimately show ?case using Cons by (simp add: Let_def)
qed simp

lemma twos_loop_ones:
  "c \<le> 1 \<Longrightarrow> be_value (twos_loop src 0xFF (word_of_nat c) dst) =
     ((256 ^ length src - 1 - be_value (rev src) + c) mod 256 ^ length src) * 256 ^ length dst + be_value dst"
proof (induction src arbitrary: c dst)
  case (Cons b src)
  define m v e :: nat where "m = 256 ^ length src" "v = be_value (rev src)" "e = c + (255 - unat b)"
  have vm: "v < m" using be_value_less [of "rev src"] by (simp add: m_v_e_def)
  have "(ucast (b XOR 0xFF) :: u32) = word_of_nat (255 - unat b)"
    unfolding xor_ones [symmetric] by (rule unsigned_word_eqI [where 'a = nat]) (simp add: unat_ucast_byte)
  then have e: "word_of_nat c + ucast (b XOR 0xFF) = (word_of_nat e :: u32)" "e \<le> 256"
    using Cons.prems by (simp_all add: m_v_e_def)
  have d: "drop_bit 8 (word_of_nat e :: u32) = word_of_nat (e div 256)" "e div 256 \<le> 1"
    using e(2) by (simp_all add: drop_bit_eq_div word_arith_nat_div unat_of_nat take_bit_nat_eq_self)
  have u: "unat (ucast (word_of_nat e :: u32) :: byte) = e mod 256"
    using e(2) by (simp add: unsigned_ucast_eq unat_of_nat take_bit_nat_eq_self take_bit_eq_mod)
  have m: "256 ^ length (b # src) = 256 * m" by (simp add: m_v_e_def)
  have "256 ^ length (b # src) - 1 - be_value (rev (b # src)) + c = 256 * (m - 1 - v + e div 256) + e mod 256"
  proof -
    have "256 * m - 1 - (256 * v + unat b) + c = 256 * (m - 1 - v) + e"
      using vm byte_less [of b] by (simp add: m_v_e_def(3) diff_mult_distrib2)
    moreover have "e = 256 * (e div 256) + e mod 256" by simp
    moreover have "be_value (rev (b # src)) = 256 * v + unat b" by (simp add: m_v_e_def(2))
    ultimately show ?thesis unfolding m by (metis add.assoc distrib_left)
  qed
  moreover have "(256 * x + e mod 256) mod (256 * m) = 256 * (x mod m) + e mod 256" for x
    by (simp add: mod_mult2_eq)
  ultimately have "(256 ^ length (b # src) - 1 - be_value (rev (b # src)) + c) mod 256 ^ length (b # src) =
      256 * ((m - 1 - v + e div 256) mod m) + e mod 256"
    unfolding m by (simp only: )
  then show ?case
    using Cons.IH [OF d(2), of "ucast (word_of_nat e :: u32) # dst"]
    by (simp add: Let_def e d be_value_Cons u m_v_e_def(1,2) algebra_simps)
qed simp

lemma twos_loop_length: "length (twos_loop src pad carry dst) = length src + length dst"
  by (induction src pad carry dst rule: twos_loop.induct) (simp_all add: Let_def)

lemma twos_complement_length [simp]: "length (twos_complement src pad) = length src"
  by (simp add: twos_complement_def twos_loop_length)

lemma twos_complement_zero [simp]: "twos_complement src 0 = src"
  by (simp add: twos_complement_def twos_loop_zero)

lemma twos_complement_value:
  "be_value (twos_complement src 0xFF) = (256 ^ length src - be_value src) mod 256 ^ length src"
proof -
  have "ucast (0xFF :: byte) AND (1 :: u32) = word_of_nat 1" by simp
  then show ?thesis
    using twos_loop_ones [of 1 "rev src" "[]"] be_value_less [of src]
    by (simp add: twos_complement_def Suc_diff_Suc)
qed

lemma twos_complement_value':
  "be_value src \<noteq> 0 \<Longrightarrow> be_value (twos_complement src 0xFF) = 256 ^ length src - be_value src"
  using be_value_less [of src] by (simp add: twos_complement_value)

subsection \<open>Content octets\<close>

text \<open>Half the range of \<open>n\<close> bytes; the shortest encoding has no byte that repeats the sign.\<close>

abbreviation half :: "nat \<Rightarrow> int" where
  "half n \<equiv> 128 * 256 ^ (n - 1)"

definition minimal :: "byte list \<Rightarrow> bool" where
  "minimal p \<longleftrightarrow> p \<noteq> [] \<and>
     (2 \<le> length p \<longrightarrow> \<not> (hd p = 0 \<and> unat (p ! 1) < 128) \<and> \<not> (hd p = 0xFF \<and> 128 \<le> unat (p ! 1)))"

lemma digit_below: "(0 :: int) \<le> r \<Longrightarrow> r < h \<Longrightarrow> t * h + r < k * h \<longleftrightarrow> t < k"
proof
  assume r: "0 \<le> r" "r < h" and "t * h + r < k * h"
  show "t < k"
  proof (rule ccontr)
    assume "\<not> t < k"
    then have "k * h \<le> t * h" using r by (simp add: mult_right_mono)
    then show False using r \<open>t * h + r < k * h\<close> by linarith
  qed
next
  assume r: "0 \<le> r" "r < h" and "t < k"
  then have "(t + 1) * h \<le> k * h" by (intro mult_right_mono) auto
  then show "t * h + r < k * h" using r by (simp add: distrib_right)
qed

lemma digit_above: "(0 :: int) \<le> r \<Longrightarrow> r < h \<Longrightarrow> k * h \<le> t * h + r \<longleftrightarrow> k \<le> t"
  using digit_below [of r h t k] by auto

lemma int_be_value_Cons: "int (be_value (x # r)) = int (unat x) * 256 ^ length r + int (be_value r)"
  by (simp add: be_value_Cons)

lemma int_be_value_less: "int (be_value r) < 256 ^ length r"
  using be_value_less [of r] by (metis of_nat_less_iff of_nat_numeral of_nat_power)

lemma top_half: "p \<noteq> [] \<Longrightarrow> 128 \<le> unat (hd p) \<longleftrightarrow> half (length p) \<le> int (be_value p)"
proof (cases p)
  case (Cons x r)
  have "half (length p) \<le> int (be_value p) \<longleftrightarrow> 128 \<le> int (unat x)"
    using digit_above [OF _ int_be_value_less, of r 128 "int (unat x)"]
    unfolding Cons int_be_value_Cons by simp
  also have "\<dots> \<longleftrightarrow> 128 \<le> unat x" by (metis of_nat_le_iff of_nat_numeral)
  finally show ?thesis by (simp add: Cons)
qed simp

lemma whole_half: "p \<noteq> [] \<Longrightarrow> (256 :: int) ^ length p = 2 * half (length p)"
  by (cases p) simp_all

lemma content_value_iff:
  assumes "p \<noteq> []"
  shows "content_value p = x \<longleftrightarrow>
    - half (length p) \<le> x \<and> x < half (length p) \<and> (x = int (be_value p) \<or> x = int (be_value p) - 256 ^ length p)"
  using top_half [OF assms] whole_half [OF assms] int_be_value_less [of p]
  unfolding content_value_def by auto

lemma minimal_range:
  assumes "2 \<le> length p"
  shows "minimal p \<longleftrightarrow> \<not> (- half (length p - 1) \<le> content_value p \<and> content_value p < half (length p - 1))"
proof -
  obtain x y r where p: "p = x # y # r" using assms by (cases p; cases "tl p") auto
  define h :: int where "h = 256 ^ length r"
  define s :: int where "s = 256 * (int (unat x) - (if 128 \<le> unat x then 256 else 0)) + int (unat y)"
  have "content_value p = s * h + int (be_value r)"
    by (simp add: p content_value_def int_be_value_Cons h_def s_def algebra_simps)
  moreover have "- 128 \<le> s \<and> s < 128 \<longleftrightarrow> x = 0 \<and> unat y < 128 \<or> x = 0xFF \<and> 128 \<le> unat y"
  proof -
    define a b where ab: "a = unat x" "b = unat y"
    have "a < 256" "b < 256" "x = 0 \<longleftrightarrow> a = 0" "x = 0xFF \<longleftrightarrow> a = 255"
      using byte_less [of x] byte_less [of y] by (simp_all add: ab word_unat_eq_iff)
    then show ?thesis unfolding s_def ab [symmetric] by auto
  qed
  moreover have "half (length p - 1) = 128 * h" by (simp add: p h_def)
  ultimately show ?thesis
    using digit_below [of "int (be_value r)" h s 128] digit_above [of "int (be_value r)" h "- 128" s] int_be_value_less [of r]
    by (simp add: minimal_def p h_def)
qed

lemma minimal_unique:
  assumes "minimal p" "minimal q" "content_value p = content_value q"
  shows "p = q"
proof -
  have shorter: False if "length p < length q" "minimal p" "minimal q" "content_value p = content_value q" for p q
  proof -
    have ne: "p \<noteq> []" "2 \<le> length q" using that(1,2) by (simp_all add: minimal_def) (cases p; simp)
    have "half (length p) \<le> half (length q - 1)" using that(1) ne by simp
    moreover have "- half (length p) \<le> content_value p" "content_value p < half (length p)"
      using content_value_iff [OF ne(1), of "content_value p"] by blast+
    ultimately show False using minimal_range [OF ne(2)] that(3,4) by linarith
  qed
  have l: "length p = length q" using shorter [of p q] shorter [of q p] assms by fastforce
  have ne: "p \<noteq> []" "q \<noteq> []" using assms by (auto simp: minimal_def)
  have c: "content_value p = int (be_value p) \<or> content_value p = int (be_value p) - 256 ^ length q"
    "content_value p = int (be_value q) \<or> content_value p = int (be_value q) - 256 ^ length q"
    using content_value_iff [OF ne(1), of "content_value p"] content_value_iff [OF ne(2), of "content_value q"]
      assms(3) l by simp_all
  have "int (be_value p) = int (be_value q)"
    using c int_be_value_less [of p] int_be_value_less [of q] unfolding l by (elim disjE) linarith+
  then show ?thesis using be_value_inject [OF l] by simp
qed

subsection \<open>What is written\<close>

lemma be_value_zero: "be_value b = 0 \<longleftrightarrow> (\<forall>c \<in> set b. c = 0)"
  by (induction b rule: rev_induct) (auto simp: unat_eq_zero)

lemma twos_complement_int:
  "be_value b \<noteq> 0 \<Longrightarrow> int (be_value (twos_complement b 0xFF)) = 256 ^ length b - int (be_value b)"
  using be_value_less [of b] by (simp add: twos_complement_value' of_nat_diff)

lemma i2c_ibuf_eq:
  "i2c_ibuf b neg =
     (if b = [] then [0]
      else if \<not> neg then (if 128 \<le> unat (hd b) then 0 # b else b)
      else if int (be_value b) \<le> half (length b) then twos_complement b 0xFF
      else 0xFF # twos_complement b 0xFF)"
proof (cases b)
  case (Cons x r)
  have zero: "foldl (\<lambda>pad c. pad OR c) 0 r = 0 \<longleftrightarrow> be_value r = 0"
    by (simp add: foldl_or_zero be_value_zero)
  have v: "int (be_value b) = int (unat x) * 256 ^ length r + int (be_value r)"
    by (simp only: Cons int_be_value_Cons)
  have le: "int (be_value b) \<le> half (length b) \<longleftrightarrow> unat x < 128 \<or> unat x = 128 \<and> be_value r = 0"
  proof -
    have "int (unat x) * 256 ^ length r + int (be_value r) < 128 * 256 ^ length r \<longleftrightarrow> int (unat x) < 128"
      by (rule digit_below) (simp, rule int_be_value_less)
    moreover have "int (unat x) * 256 ^ length r + int (be_value r) < 129 * 256 ^ length r \<longleftrightarrow> int (unat x) < 129"
      by (rule digit_below) (simp, rule int_be_value_less)
    moreover have "int (unat x) < 128 \<longleftrightarrow> unat x < 128" "int (unat x) < 129 \<longleftrightarrow> unat x < 129" by linarith+
    ultimately show ?thesis unfolding v using int_be_value_less [of r] by (cases "unat x = 128") (auto simp: Cons)
  qed
  have same: "twos_complement b 0xFF = b" if "unat x = 128" "be_value r = 0"
  proof -
    have "int (be_value b) = half (length b)" unfolding v using that by (simp add: Cons)
    moreover from this have "0 < int (be_value b)" by simp
    then have "be_value b \<noteq> 0" by simp
    ultimately have "int (be_value (twos_complement b 0xFF)) = int (be_value b)"
      using twos_complement_int [of b] whole_half [of b] by (simp add: Cons)
    then show ?thesis using be_value_inject [of "twos_complement b 0xFF" b] by simp
  qed
  show ?thesis
  proof (cases "neg")
    case False
    then show ?thesis by (auto simp: i2c_ibuf_def i2c_pad_def Cons)
  next
    case True
    consider "unat x < 128" | "unat x = 128" "be_value r = 0" | "unat x = 128" "be_value r \<noteq> 0" | "unat x > 128"
      by linarith
    then show ?thesis
    proof cases
      case 2
      then have "i2c_ibuf b neg = b" using True by (simp add: i2c_ibuf_def i2c_pad_def Cons zero)
      then show ?thesis using True 2 le same by (simp add: Cons)
    qed (use True le in \<open>simp_all add: i2c_ibuf_def i2c_pad_def Cons zero\<close>)
  qed
qed (simp add: i2c_ibuf_def i2c_pad_def)

text \<open>The octets written have the value of the number, whatever its sign and however long its bytes.\<close>

theorem i2c_ibuf_value: "content_value (i2c_ibuf b neg) = signed_value neg b"
proof (cases "b = []")
  case True
  then show ?thesis by (simp add: i2c_ibuf_eq content_value_def signed_value_def be_value_def)
next
  case ne: False
  note h = top_half [OF ne] whole_half [OF ne] int_be_value_less [of b]
  let ?t = "twos_complement b 0xFF"
  consider "\<not> neg" | "neg" "be_value b = 0"
    | "neg" "be_value b \<noteq> 0" "int (be_value b) \<le> half (length b)"
    | "neg" "be_value b \<noteq> 0" "\<not> int (be_value b) \<le> half (length b)" by blast
  then show ?thesis
  proof cases
    case 1
    then show ?thesis using ne by (simp add: i2c_ibuf_eq content_value_def signed_value_def be_value_Cons)
  next
    case 2
    then have "be_value ?t = 0" by (simp add: twos_complement_value)
    then have "hd ?t = 0" using ne by (simp add: be_value_zero) (metis length_0_conv list.set_sel(1) twos_complement_length)
    then show ?thesis using 2 ne \<open>be_value ?t = 0\<close> by (simp add: i2c_ibuf_eq content_value_def signed_value_def)
  next
    case 3
    have t: "?t \<noteq> []" using ne by (metis length_0_conv twos_complement_length)
    have "128 \<le> unat (hd ?t)"
      using top_half [OF t] twos_complement_int [OF 3(2)] 3(3) h(2) by simp
    then show ?thesis using 3 ne twos_complement_int [OF 3(2)]
      by (simp add: i2c_ibuf_eq content_value_def signed_value_def)
  next
    case 4
    then show ?thesis using ne twos_complement_int [OF 4(2)]
      by (simp add: i2c_ibuf_eq content_value_def signed_value_def int_be_value_Cons del: of_nat_add)
  qed
qed

text \<open>The bytes of an absolute value without leading zeros; zero is one zero byte and not negative.\<close>

definition canonical :: "bool \<Rightarrow> byte list \<Rightarrow> bool" where
  "canonical neg b \<longleftrightarrow> b = [0] \<and> \<not> neg \<or> b \<noteq> [] \<and> hd b \<noteq> 0"

lemma top_and_eq: "(x :: byte) AND 0x80 = y AND 0x80 \<longleftrightarrow> (128 \<le> unat x \<longleftrightarrow> 128 \<le> unat y)"
proof -
  define m :: byte where "m = 0x80"
  have m: "bit m n \<longleftrightarrow> n = 7" for n
    using bit_exp_iff [of 7 n, where 'a = byte] by (auto simp: m_def)
  have "z AND m = (if 128 \<le> unat z then m else 0)" for z
  proof -
    have "128 \<le> unat z \<longleftrightarrow> bit z 7"
      using top_bit_byte [of z] and_exp_eq_0_iff_not_bit [of z 7] by simp
    then show ?thesis by (intro bit_word_eqI) (auto simp: bit_and_iff m)
  qed
  moreover have "m \<noteq> 0" by (simp add: m_def)
  ultimately show ?thesis unfolding m_def [symmetric] by simp
qed

lemma hd_nonzero: "p \<noteq> [] \<Longrightarrow> hd p \<noteq> 0 \<longleftrightarrow> 256 ^ (length p - 1) \<le> int (be_value p)"
proof (cases p)
  case (Cons x r)
  have "256 ^ (length p - 1) \<le> int (be_value p) \<longleftrightarrow> 1 \<le> int (unat x)"
    using digit_above [OF _ int_be_value_less, of r 1 "int (unat x)"] unfolding Cons int_be_value_Cons by simp
  also have "\<dots> \<longleftrightarrow> 1 \<le> unat x" by linarith
  finally show ?thesis by (simp add: Cons Suc_le_eq unat_gt_0)
qed simp

lemma c2i_ibuf_one: "c2i_ibuf [x] = Some (128 \<le> unat x, [if 128 \<le> unat x then (x XOR 0xFF) + 1 else x])"
  using top_bit_byte [of x] by (simp add: c2i_ibuf_def)

lemma c2i_ibuf_more:
  "c2i_ibuf (x # y # r) =
     (if x = 0 then if unat y < 128 then None else Some (False, y # r)
      else if x = 0xFF \<and> be_value (y # r) \<noteq> 0
        then if 128 \<le> unat y then None else Some (True, twos_complement (y # r) 0xFF)
      else Some (128 \<le> unat x, if 128 \<le> unat x then twos_complement (x # y # r) 0xFF else x # y # r))"
proof -
  have "foldl (\<lambda>pad c. pad OR c) 0 (y # r) \<noteq> 0 \<longleftrightarrow> be_value (y # r) \<noteq> 0"
    by (simp only: foldl_or_zero be_value_zero) simp
  then show ?thesis
    by (simp only: c2i_ibuf_def Let_def top_bit_byte top_and_eq list.sel) (auto simp: not_le)
qed

lemma minimal_more:
  "minimal (x # y # r) \<longleftrightarrow> \<not> (x = 0 \<and> unat y < 128) \<and> \<not> (x = 0xFF \<and> 128 \<le> unat y)"
  by (simp add: minimal_def)

text \<open>
  Decoding accepts exactly the shortest octets; what it gives has their value and no
  superfluous zero byte.
\<close>

lemma c2i_ibuf_None: "c2i_ibuf p = None \<longleftrightarrow> \<not> minimal p"
proof (cases p)
  case (Cons x q)
  then show ?thesis
  proof (cases q)
    case q: (Cons y r)
    have "be_value (y # r) \<noteq> 0" if "128 \<le> unat y" using that by (auto simp: be_value_zero)
    then show ?thesis unfolding Cons q c2i_ibuf_more minimal_more by auto
  qed (simp add: c2i_ibuf_one minimal_def)
qed (simp add: c2i_ibuf_def minimal_def)

lemma negated:
  assumes "b \<noteq> []" and "128 \<le> unat (hd b)"
  shows "signed_value True (twos_complement b 0xFF) = content_value b"
proof -
  have "be_value b \<noteq> 0" using assms by (auto simp: be_value_zero intro!: bexI [of _ "hd b"])
  then show ?thesis using assms by (simp add: signed_value_def content_value_def twos_complement_int)
qed

lemma twos_complement_leads:
  assumes "b \<noteq> []" "be_value b \<noteq> 0" "int (be_value b) \<le> 255 * 256 ^ (length b - 1)"
  shows "twos_complement b 0xFF \<noteq> [] \<and> hd (twos_complement b 0xFF) \<noteq> 0"
proof -
  have t: "twos_complement b 0xFF \<noteq> []" using assms(1) by (metis length_0_conv twos_complement_length)
  have "256 ^ (length b - 1) \<le> int (be_value (twos_complement b 0xFF))"
    using twos_complement_int [OF assms(2)] assms(3) whole_half [OF assms(1)] by simp
  then show ?thesis using hd_nonzero [OF t] t by simp
qed

lemma c2i_ibuf_value:
  assumes "c2i_ibuf p = Some (neg, b)"
  shows "signed_value neg b = content_value p \<and> canonical neg b"
proof (cases p)
  case Nil
  then show ?thesis using assms by (simp add: c2i_ibuf_def)
next
  case p: (Cons x q)
  show ?thesis
  proof (cases q)
    case Nil
    show ?thesis
    proof (cases "128 \<le> unat x")
      case True
      have "unat ((x XOR 0xFF) + 1) = 256 - unat x"
        using True byte_less [of x] by (simp add: unat_word_ariths xor_ones)
      then show ?thesis using assms True byte_less [of x]
        by (auto simp: p Nil c2i_ibuf_one signed_value_def content_value_def be_value_def canonical_def unat_eq_zero [symmetric])
    next
      case False
      then show ?thesis using assms
        by (auto simp: p Nil c2i_ibuf_one signed_value_def content_value_def be_value_def canonical_def)
    qed
  next
    case q: (Cons y r)
    note res = assms [unfolded p q c2i_ibuf_more]
    consider "x = 0" | "x = 0xFF" "be_value (y # r) \<noteq> 0"
      | "x \<noteq> 0" "\<not> (x = 0xFF \<and> be_value (y # r) \<noteq> 0)" "128 \<le> unat x" | "x \<noteq> 0" "\<not> 128 \<le> unat x"
      by blast
    then show ?thesis
    proof cases
      case 1
      then have "128 \<le> unat y" "neg = False" "b = y # r" using res by (auto split: if_splits)
      then show ?thesis unfolding p q
        by (auto simp: 1 signed_value_def content_value_def be_value_Cons canonical_def)
    next
      case 2
      then have b: "unat y < 128" "neg = True" "b = twos_complement (y # r) 0xFF" using res by (auto split: if_splits)
      have "int (be_value (y # r)) < half (length (y # r))" using top_half [of "y # r"] b(1) by simp
      then have "int (be_value (y # r)) \<le> 255 * 256 ^ (length (y # r) - 1)" by simp
      then have "canonical neg b" using twos_complement_leads [of "y # r"] 2(2) by (simp add: canonical_def b)
      moreover have "content_value p = int (be_value (y # r)) - 256 ^ length (y # r)"
        unfolding p q by (simp only: content_value_def int_be_value_Cons [of x]) (simp add: 2(1))
      ultimately show ?thesis unfolding b using twos_complement_int [OF 2(2)] by (simp add: signed_value_def)
    next
      case 3
      then have b: "neg = True" "b = twos_complement p 0xFF" using res by (auto simp: p q split: if_splits)
      have v: "int (be_value p) = int (unat x) * 256 ^ length (y # r) + int (be_value (y # r))"
        by (simp only: p q int_be_value_Cons [of x])
      have "int (be_value p) \<le> 255 * 256 ^ (length p - 1)"
      proof (cases "x = 0xFF")
        case True
        then show ?thesis using 3(2) v by (simp add: p q)
      next
        case False
        then have "unat x < 255" using byte_less [of x] by (simp add: word_unat_eq_iff)
        then have "int (unat x) < 255" by linarith
        then show ?thesis
          using digit_below [OF _ int_be_value_less, of "y # r" "int (unat x)" 255] unfolding v by (simp add: p q)
      qed
      moreover have "be_value p \<noteq> 0" using 3(1) by (simp add: p be_value_zero)
      ultimately have "canonical neg b" using twos_complement_leads [of p] by (simp add: canonical_def b p)
      then show ?thesis using negated [of p] 3(3) by (simp add: b p)
    next
      case 4
      then have "neg = False" "b = p" using res by (auto simp: p q split: if_splits)
      then show ?thesis using 4 by (simp add: signed_value_def content_value_def canonical_def p q)
    qed
  qed
qed

lemma canonical_unique:
  assumes "canonical neg b" "canonical neg' b'" "signed_value neg b = signed_value neg' b'"
  shows "neg = neg' \<and> b = b'"
proof -
  have pos: "0 < int (be_value b)" if "b \<noteq> []" "hd b \<noteq> 0" for b
  proof -
    have "0 < (256 :: int) ^ (length b - 1)" by simp
    then show ?thesis using hd_nonzero [OF that(1)] that(2) by linarith
  qed
  have zero: "b = [0] \<and> \<not> neg \<longleftrightarrow> signed_value neg b = 0" if "canonical neg b" for neg b
  proof (cases "b = [0]")
    case True
    then show ?thesis using that by (auto simp: canonical_def signed_value_def be_value_def)
  next
    case False
    then show ?thesis using that pos [of b] by (auto simp: canonical_def signed_value_def split: if_splits)
  qed
  show ?thesis
  proof (cases "signed_value neg b = 0")
    case True
    then show ?thesis using zero [OF assms(1)] zero [OF assms(2)] assms(3) by simp
  next
    case False
    then have ne: "b \<noteq> []" "hd b \<noteq> 0" "b' \<noteq> []" "hd b' \<noteq> 0"
      using zero [OF assms(1)] zero [OF assms(2)] assms by (auto simp: canonical_def)
    have n: "neg = neg'" and v: "int (be_value b) = int (be_value b')"
      using assms(3) pos [OF ne(1,2)] pos [OF ne(3,4)] by (auto simp: signed_value_def split: if_splits)
    have shorter: False if "length a < length c" "c \<noteq> []" "hd c \<noteq> 0" "int (be_value a) = int (be_value c)" for a c
    proof -
      have "(256 :: int) ^ length a \<le> 256 ^ (length c - 1)" using that(1) by simp
      then show False using int_be_value_less [of a] hd_nonzero [OF that(2)] that(3,4) by linarith
    qed
    have "length b = length b'" using shorter [of b b'] shorter [of b' b] ne v by fastforce
    then show ?thesis using n v be_value_inject by simp
  qed
qed

lemma i2c_ibuf_minimal:
  assumes "canonical neg b"
  shows "minimal (i2c_ibuf b neg)"
proof -
  have ne: "b \<noteq> []" using assms by (auto simp: canonical_def)
  consider "b = [0]" "\<not> neg" | "b \<noteq> []" "hd b \<noteq> 0" "\<not> neg" | "b \<noteq> []" "hd b \<noteq> 0" "neg"
    using assms by (auto simp: canonical_def)
  then show ?thesis
  proof cases
    case 1
    then show ?thesis by (simp add: i2c_ibuf_eq minimal_def)
  next
    case 2
    then obtain x r where "b = x # r" by (cases b) auto
    then show ?thesis using 2 by (cases r) (auto simp: i2c_ibuf_eq minimal_def word_unat_eq_iff)
  next
    case 3
    let ?q = "i2c_ibuf b neg"
    have c: "content_value ?q = - int (be_value b)" using 3 by (simp add: i2c_ibuf_value signed_value_def)
    have h: "256 ^ (length b - 1) \<le> int (be_value b)" using hd_nonzero [OF ne] 3(2) by simp
    have l: "length ?q = (if int (be_value b) \<le> half (length b) then length b else length b + 1)"
      using 3 by (simp add: i2c_ibuf_eq)
    show ?thesis
    proof (cases "2 \<le> length ?q")
      case True
      have "\<not> - half (length ?q - 1) \<le> content_value ?q"
      proof (cases "int (be_value b) \<le> half (length b)")
        case le: True
        then have "2 \<le> length b" using True l by simp
        then have "(256 :: int) ^ (length b - 1) = 256 * 256 ^ (length b - 1 - 1)"
          by (cases "length b - 1") simp_all
        moreover have "0 < (256 :: int) ^ (length b - 1 - 1)" by simp
        moreover have q: "length ?q - 1 = length b - 1" using l le by simp
        ultimately show ?thesis using h unfolding c q by linarith
      next
        case False
        then show ?thesis using l c by simp
      qed
      then show ?thesis using minimal_range [OF True] by simp
    next
      case False
      moreover have "0 < length b" using ne by simp
      moreover have "length b \<le> length ?q" using l by simp
      ultimately have "length ?q = 1" by linarith
      then show ?thesis by (auto simp: minimal_def)
    qed
  qed
qed

lemma decode_encode: "canonical neg b \<Longrightarrow> c2i_ibuf (i2c_ibuf b neg) = Some (neg, b)"
proof -
  assume c: "canonical neg b"
  then obtain neg' b' where d: "c2i_ibuf (i2c_ibuf b neg) = Some (neg', b')"
    using c2i_ibuf_None i2c_ibuf_minimal by (metis not_None_eq surj_pair)
  then show ?thesis
    using c2i_ibuf_value [OF d] canonical_unique [OF c, of neg' b'] by (simp add: i2c_ibuf_value)
qed

lemma encode_decode: "c2i_ibuf p = Some (neg, b) \<Longrightarrow> i2c_ibuf b neg = p"
  using c2i_ibuf_value [of p neg b] c2i_ibuf_None [of p] i2c_ibuf_minimal [of neg b] i2c_ibuf_value [of b neg]
    minimal_unique [of "i2c_ibuf b neg" p] by auto

text \<open>
  C15: The octets of an INTEGER decode to a sign and bytes exactly when they are what these are
  encoded to and the bytes are in canonical form, that is without leading zero bytes: no
  number has two encodings, and no encoding two numbers.
\<close>

theorem integer_round_trip:
  "c2i_ibuf p = Some (neg, b) \<longleftrightarrow> canonical neg b \<and> p = i2c_ibuf b neg"
  using decode_encode encode_decode c2i_ibuf_value by blast

subsection \<open>64-bit integers\<close>

fun uint64_loop :: "u64 \<Rightarrow> byte list \<Rightarrow> u64" where
  "uint64_loop r [] = r"
| "uint64_loop r (c # b) = uint64_loop (push_bit 8 r OR ucast c) b"

definition asn1_get_uint64 :: "byte list \<Rightarrow> u64 option" where
  "asn1_get_uint64 b = (if length b > 8 then None else Some (uint64_loop 0 b))"

text \<open>The bytes of \<open>b\<close> from the returned offset on; one at least is written.\<close>

function asn1_put_uint64_loop :: "u64 \<Rightarrow> byte list \<Rightarrow> byte list" where
  "asn1_put_uint64_loop r out =
     (let out = ucast r # out; r = drop_bit 8 r
      in if r \<noteq> 0 then asn1_put_uint64_loop r out else out)"
  by auto

termination
proof (relation "measure (\<lambda>(r, out). unat r)")
  fix r :: u64 and out x xa
  assume "x = ucast r # (out :: byte list)" "xa = drop_bit 8 r" "xa \<noteq> 0"
  moreover from this have "0 < unat r" by (cases "r = 0") (auto simp: unat_gt_0)
  moreover have "unat (drop_bit 8 r) = unat r div 256" unfolding unat_drop_bit_eq by (simp add: drop_bit_eq_div)
  ultimately show "((xa, x), (r, out)) \<in> measure (\<lambda>(r, out). unat r)" by simp
qed simp

declare asn1_put_uint64_loop.simps [simp del]

definition asn1_put_uint64 :: "u64 \<Rightarrow> byte list" where
  "asn1_put_uint64 r = asn1_put_uint64_loop r []"

definition ABS_INT64_MIN :: u64 where "ABS_INT64_MIN = 0x7FFFFFFFFFFFFFFF + 1"

definition asn1_get_int64 :: "byte list \<Rightarrow> bool \<Rightarrow> (64 word) option" where
  "asn1_get_int64 b neg =
     (case asn1_get_uint64 b of
        None \<Rightarrow> None
      | Some r \<Rightarrow>
          if neg then
            if r \<le> 0x7FFFFFFFFFFFFFFF then Some (- r)
            else if r = ABS_INT64_MIN then Some (0 - r) else None
          else if r \<le> 0x7FFFFFFFFFFFFFFF then Some r else None)"

text \<open>What \<open>asn1_string_set_int64\<close> stores: the sign and the bytes.\<close>

definition int64_sign_bytes :: "64 word \<Rightarrow> bool \<times> byte list" where
  "int64_sign_bytes r =
     (if sint r < 0 then (True, asn1_put_uint64 (0 - r)) else (False, asn1_put_uint64 r))"

lemma uint64_loop_value:
  "length b + k \<le> 8 \<Longrightarrow> unat r < 256 ^ k \<Longrightarrow> unat (uint64_loop r b) = unat r * 256 ^ length b + be_value b"
proof (induction b arbitrary: r k)
  case (Cons c b)
  have k: "k + 1 \<le> 8" using Cons.prems(1) by simp
  have lt: "unat r * 256 + unat c < 256 ^ (k + 1)"
    using Cons.prems(2) byte_less [of c] mult_le_mono1 [of "unat r + 1" "256 ^ k" 256] by simp
  also have "(256 :: nat) ^ (k + 1) \<le> 256 ^ 8" by (rule power_increasing [OF k]) simp
  finally have lt64: "unat r * 256 + unat c < 2 ^ 64" by simp
  have "push_bit 8 r OR ucast c = push_bit 8 r + (ucast c :: u64)"
  proof (rule disjunctive_add_eq_or [symmetric])
    show "push_bit 8 r AND ucast c = (0 :: u64)" by (rule bit_word_eqI) (auto simp: bit_simps dest: bit_imp_le_length)
  qed
  then have u: "unat (push_bit 8 r OR ucast c) = unat r * 256 + unat c"
    using lt64 by (simp add: unat_word_ariths push_bit_eq_mult unsigned_ucast_eq take_bit_nat_eq_self take_bit_eq_mod mult.commute)
  show ?case
    using Cons.IH [of "k + 1" "push_bit 8 r OR ucast c"] Cons.prems(1) lt
    by (simp add: u be_value_Cons algebra_simps)
qed simp

lemma put_uint64_loop_value:
  "be_value (asn1_put_uint64_loop r out) = unat r * 256 ^ length out + be_value out \<and>
   length out < length (asn1_put_uint64_loop r out)"
proof (induction r out rule: asn1_put_uint64_loop.induct)
  case (1 r out)
  have b: "unat (ucast r :: byte) = unat r mod 256" by (simp add: unsigned_ucast_eq take_bit_eq_mod)
  have d: "unat (drop_bit 8 r) = unat r div 256" unfolding unat_drop_bit_eq by (simp add: drop_bit_eq_div)
  show ?case
  proof (cases "drop_bit 8 r = 0")
    case True
    then have "unat r < 256" using d by (simp add: div_eq_0_iff)
    then show ?thesis using True b by (subst (1 2) asn1_put_uint64_loop.simps) (simp add: Let_def be_value_Cons)
  next
    case False
    have "unat r = unat r div 256 * 256 + unat r mod 256" by simp
    then have "unat r * 256 ^ length out =
        (unat r div 256) * (256 * 256 ^ length out) + (unat r mod 256) * 256 ^ length out"
      by (metis (no_types) distrib_right mult.assoc)
    then show ?thesis
      using 1 [OF refl refl False] False b d
      by (subst (1 2) asn1_put_uint64_loop.simps) (simp add: Let_def be_value_Cons)
  qed
qed

lemma put_uint64_length: "length (asn1_put_uint64 r) \<le> 8"
proof -
  have "unat r < 256 ^ k \<Longrightarrow> 1 \<le> k \<Longrightarrow> length (asn1_put_uint64_loop r out) \<le> length out + k" for k out
  proof (induction k arbitrary: r out)
    case (Suc k)
    have d: "unat (drop_bit 8 r) = unat r div 256" unfolding unat_drop_bit_eq by (simp add: drop_bit_eq_div)
    show ?case
    proof (cases "k = 0")
      case True
      then have "unat (drop_bit 8 r) = 0" using Suc.prems d by simp
      then have "drop_bit 8 r = 0" by (simp only: unat_eq_zero)
      then show ?thesis by (subst asn1_put_uint64_loop.simps) (simp add: Let_def)
    next
      case False
      moreover have "unat (drop_bit 8 r) < 256 ^ k" using Suc.prems d by (simp add: less_mult_imp_div_less mult.commute)
      ultimately show ?thesis
        using Suc.IH [of "drop_bit 8 r" "ucast r # out"]
        by (subst asn1_put_uint64_loop.simps) (simp add: Let_def)
    qed
  qed simp
  from this [of 8 "[]"] show ?thesis using unsigned_less [of r, where 'a = nat] by (simp add: asn1_put_uint64_def)
qed

lemma uint64_round_trip: "asn1_get_uint64 (asn1_put_uint64 r) = Some r"
proof -
  have "unat (uint64_loop 0 (asn1_put_uint64 r)) = be_value (asn1_put_uint64 r)"
    using uint64_loop_value [of "asn1_put_uint64 r" 0 0] put_uint64_length [of r] by simp
  then have "unat (uint64_loop 0 (asn1_put_uint64 r)) = unat r"
    using put_uint64_loop_value [of r "[]"] by (simp add: asn1_put_uint64_def)
  then show ?thesis using put_uint64_length [of r]
    by (simp add: asn1_get_uint64_def unsigned_word_eqI not_less)
qed

text \<open>The signed value that is read, or the failure for what does not fit into 64 bits.\<close>

theorem asn1_get_int64_value:
  "asn1_get_int64 b neg =
     (if length b \<le> 8 \<and> - (2 ^ 63) \<le> signed_value neg b \<and> signed_value neg b < 2 ^ 63
      then Some (word_of_int (signed_value neg b)) else None)"
proof (cases "length b \<le> 8")
  case True
  define r where "r = uint64_loop 0 b"
  have u: "unat r = be_value b" using uint64_loop_value [of b 0 0] True by (simp add: r_def)
  then have r: "r = word_of_nat (be_value b)" by (simp flip: u)
  have le: "r \<le> 0x7FFFFFFFFFFFFFFF \<longleftrightarrow> int (be_value b) < 2 ^ 63" unfolding word_le_nat_alt u by auto
  have eq: "r = ABS_INT64_MIN \<longleftrightarrow> int (be_value b) = 2 ^ 63"
    unfolding word_unat_eq_iff u ABS_INT64_MIN_def by simp
  show ?thesis
  proof (cases "neg")
    case True
    then show ?thesis using \<open>length b \<le> 8\<close> le eq
      by (auto simp: asn1_get_int64_def asn1_get_uint64_def r_def [symmetric] signed_value_def r)
  next
    case False
    then show ?thesis using \<open>length b \<le> 8\<close> le
      by (auto simp: asn1_get_int64_def asn1_get_uint64_def r_def [symmetric] signed_value_def r)
  qed
qed (simp add: asn1_get_int64_def asn1_get_uint64_def)

lemma sint_u64: "sint (r :: u64) = (if uint r < 2 ^ 63 then uint r else uint r - 2 ^ 64)"
proof -
  have "sint r = (uint r + 2 ^ 63) mod 2 ^ 64 - 2 ^ 63"
    by (simp add: sint_uint signed_take_bit_eq_take_bit_shift take_bit_eq_mod)
  moreover have "(x + 2 ^ 63) mod 2 ^ 64 = (if x < 2 ^ 63 then x + 2 ^ 63 else x - 2 ^ 63)"
    if "0 \<le> x" "x < 2 ^ 64" for x :: int
    using that mod_add_self2 [of "x - 2 ^ 63" "2 ^ 64"] by (auto simp: mod_pos_pos_trivial add.commute)
  ultimately show ?thesis using uint_lt2p [of r] uint_ge_0 [of r] by simp
qed

lemma put_uint64_value: "be_value (asn1_put_uint64 r) = unat r"
  using put_uint64_loop_value [of r "[]"] by (simp add: asn1_put_uint64_def)

lemma set_int64_value:
  "signed_value (fst (int64_sign_bytes r)) (snd (int64_sign_bytes r)) = sint r"
proof (cases "sint r < 0")
  case True
  have "uint (0 - r) = 2 ^ 64 - uint r"
    using True sint_u64 [of r] uint_lt2p [of r] uint_ge_0 [of r] 
    by (simp add: uint_word_ariths zmod_zminus1_eq_if mod_pos_pos_trivial split: if_splits)
  then show ?thesis
    using True sint_u64 [of r] by (simp add: int64_sign_bytes_def signed_value_def put_uint64_value split: if_splits)
next
  case False
  then show ?thesis using sint_u64 [of r] uint_lt2p [of r]
    by (auto simp: int64_sign_bytes_def signed_value_def put_uint64_value split: if_splits)
qed

text \<open>Every 64-bit integer, the least one included, is read back from what is stored for it.\<close>

lemma int64_round_trip:
  "asn1_get_int64 (snd (int64_sign_bytes r)) (fst (int64_sign_bytes r)) = Some r"
proof -
  have "length (snd (int64_sign_bytes r)) \<le> 8"
    using put_uint64_length by (simp add: int64_sign_bytes_def)
  moreover have "- (2 ^ 63) \<le> sint r" "sint r < 2 ^ 63"
    using sint_ge [of r] sint_lt [of r] by simp_all
  ultimately show ?thesis by (simp add: asn1_get_int64_value set_int64_value)
qed

subsection \<open>ASN1_INTEGER\<close>

text \<open>
  An \<open>ASN1_STRING\<close> that is used as an INTEGER: the sign is the bit V_ASN1_NEG of its type.
  \<open>c2i_ASN1_INTEGER\<close> fills a given object or a new one; \<open>malloc_ok\<close> is the outcome of the
  allocations.
\<close>

record ASN1_INTEGER =
  base :: int
  neg :: bool
  integer_data :: "byte list"

definition V_ASN1_INTEGER :: int where "V_ASN1_INTEGER = 2"
definition V_ASN1_NEG :: int where "V_ASN1_NEG = 0x100"

definition string_type :: "ASN1_INTEGER \<Rightarrow> int" where
  "string_type a = base a + (if neg a then V_ASN1_NEG else 0)"

definition i2c_ASN1_INTEGER :: "ASN1_INTEGER \<Rightarrow> byte list" where
  "i2c_ASN1_INTEGER a = i2c_ibuf (integer_data a) (neg a)"

definition c2i_ASN1_INTEGER :: "bool \<Rightarrow> ASN1_INTEGER option \<Rightarrow> byte list \<Rightarrow> ASN1_INTEGER option" where
  "c2i_ASN1_INTEGER malloc_ok a p =
     (case c2i_ibuf p of
        None \<Rightarrow> None
      | Some (n, b) \<Rightarrow>
          if \<not> malloc_ok then None
          else let ret = (case a of None \<Rightarrow> \<lparr>base = V_ASN1_INTEGER, neg = False, integer_data = []\<rparr> | Some ret \<Rightarrow> ret);
                   ret = ret\<lparr>integer_data := b\<rparr>
               in Some (if n then ret\<lparr>neg := True\<rparr> else ret))"

definition integer_value :: "ASN1_INTEGER \<Rightarrow> int" where
  "integer_value a = signed_value (neg a) (integer_data a)"

text \<open>
  C22: Decoding into a new object, or into one that is not negative, gives the value of the
  octets. Into a negative one, a value that is not negative is decoded as its opposite: the
  sign is set but never cleared.
\<close>

theorem c2i_ASN1_INTEGER_value:
  "c2i_ASN1_INTEGER True a p = Some r \<Longrightarrow>
     minimal p \<and>
     integer_value r =
       (if (case a of None \<Rightarrow> False | Some a \<Rightarrow> neg a) then - \<bar>content_value p\<bar> else content_value p)"
proof -
  assume "c2i_ASN1_INTEGER True a p = Some r"
  then obtain n b where d: "c2i_ibuf p = Some (n, b)" and "integer_data r = b"
    "neg r = (n \<or> (case a of None \<Rightarrow> False | Some a \<Rightarrow> neg a))"
    by (auto simp: c2i_ASN1_INTEGER_def Let_def split: option.splits if_splits)
  then show ?thesis
    using c2i_ibuf_value [OF d] c2i_ibuf_None [of p]
    by (cases n) (auto simp: integer_value_def signed_value_def)
qed

lemma c2i_ASN1_INTEGER_value_witness:
  "\<exists>r. c2i_ASN1_INTEGER True (Some \<lparr>base = 2, neg = True, integer_data = [5]\<rparr>) [7] = Some r \<and> integer_value r = - 7"
proof -
  have c: "c2i_ASN1_INTEGER True (Some \<lparr>base = 2, neg = True, integer_data = [5]\<rparr>) [7] = Some \<lparr>base = 2, neg = True, integer_data = [7]\<rparr>"
    by (simp add: c2i_ASN1_INTEGER_def c2i_ibuf_one)
  from c2i_ASN1_INTEGER_value [OF c] show ?thesis
    using c by (simp add: content_value_def be_value_def)
qed

text \<open>\<open>ASN1_STRING_cmp\<close> on equal types: the shorter is the smaller, then as by \<open>memcmp\<close>.\<close>

definition ASN1_STRING_cmp :: "ASN1_INTEGER \<Rightarrow> ASN1_INTEGER \<Rightarrow> int" where
  "ASN1_STRING_cmp a b =
     (let i = int (length (integer_data a)) - int (length (integer_data b)) in
      if i = 0 then
        let i = memcmp (integer_data a) (integer_data b) in
        if i = 0 then string_type a - string_type b else i
      else i)"

definition ASN1_INTEGER_cmp :: "ASN1_INTEGER \<Rightarrow> ASN1_INTEGER \<Rightarrow> int" where
  "ASN1_INTEGER_cmp x y =
     (if neg x \<noteq> neg y then if neg x then - 1 else 1
      else let ret = ASN1_STRING_cmp x y in
        if neg x then - ret else ret)"

lemma shorter_smaller: "length a < length b \<Longrightarrow> b \<noteq> [] \<Longrightarrow> hd b \<noteq> 0 \<Longrightarrow> int (be_value a) < int (be_value b)"
proof -
  assume h: "length a < length b" "b \<noteq> []" "hd b \<noteq> 0"
  then have "(256 :: int) ^ length a \<le> 256 ^ (length b - 1)" by simp
  then show ?thesis using int_be_value_less [of a] hd_nonzero [OF h(2)] h(3) by linarith
qed

text \<open>The comparison of numbers of one type orders them by value.\<close>

theorem ASN1_INTEGER_cmp_sgn:
  "\<lbrakk>canonical (neg x) (integer_data x); canonical (neg y) (integer_data y); base x = base y\<rbrakk> \<Longrightarrow>
   sgn (ASN1_INTEGER_cmp x y) = sgn (integer_value x - integer_value y)"
proof -
  assume c: "canonical (neg x) (integer_data x)" "canonical (neg y) (integer_data y)" and k: "base x = base y"
  let ?a = "integer_data x" and ?b = "integer_data y"
  have pos: "0 < int (be_value b)" if "canonical True b" for b
    using that shorter_smaller [of "[]" b] by (auto simp: canonical_def)
  have s: "sgn (ASN1_STRING_cmp x y) = sgn (int (be_value ?a) - int (be_value ?b))" if n: "neg x = neg y"
  proof -
    have one: "1 \<le> length b \<and> (hd b \<noteq> 0 \<or> length b = 1)" if "canonical n b" for n b
      using that by (auto simp: canonical_def Suc_le_eq)
    have short: "int (be_value a) < int (be_value b)" if "length a < length b" "canonical n b" "canonical n a" for n a b
      using that one [OF that(2)] one [OF that(3)] by (intro shorter_smaller) auto
    consider "length ?a = length ?b" | "length ?a < length ?b" | "length ?b < length ?a" by linarith
    then show ?thesis
    proof cases
      case 1
      then show ?thesis using memcmp_sgn [OF 1] k n
        by (auto simp: ASN1_STRING_cmp_def Let_def string_type_def)
    next
      case 2
      then show ?thesis using short [OF 2, of "neg x"] c n by (simp add: ASN1_STRING_cmp_def Let_def sgn_if)
    next
      case 3
      then show ?thesis using short [OF 3, of "neg x"] c n by (simp add: ASN1_STRING_cmp_def Let_def sgn_if)
    qed
  qed
  show ?thesis
  proof (cases "neg x = neg y")
    case True
    have "integer_value x - integer_value y =
        (if neg x then - (int (be_value ?a) - int (be_value ?b)) else int (be_value ?a) - int (be_value ?b))"
      using True by (simp add: integer_value_def signed_value_def)
    moreover have "ASN1_INTEGER_cmp x y = (if neg x then - ASN1_STRING_cmp x y else ASN1_STRING_cmp x y)"
      using True by (simp add: ASN1_INTEGER_cmp_def)
    ultimately show ?thesis using s [OF True] by (simp only: sgn_minus if_distrib [of sgn])
  next
    case False
    then show ?thesis using c pos [of ?a] pos [of ?b]
      by (auto simp: ASN1_INTEGER_cmp_def integer_value_def signed_value_def sgn_if)
  qed
qed

lemma ASN1_INTEGER_cmp_sgn_witness:
  "sgn (ASN1_INTEGER_cmp \<lparr>base = 2, neg = True, integer_data = [1, 0]\<rparr> \<lparr>base = 2, neg = True, integer_data = [255]\<rparr>) = - 1"
  using ASN1_INTEGER_cmp_sgn [of "\<lparr>base = 2, neg = True, integer_data = [1, 0]\<rparr>" "\<lparr>base = 2, neg = True, integer_data = [255]\<rparr>"]
  by (simp add: canonical_def integer_value_def signed_value_def be_value_def)

subsection \<open>Access by 64-bit value\<close>

definition asn1_string_get_int64 :: "ASN1_INTEGER option \<Rightarrow> int \<Rightarrow> (64 word) option" where
  "asn1_string_get_int64 a itype =
     (case a of None \<Rightarrow> None
      | Some a \<Rightarrow> if base a \<noteq> itype then None else asn1_get_int64 (integer_data a) (neg a))"

definition asn1_string_set_int64 :: "ASN1_INTEGER \<Rightarrow> 64 word \<Rightarrow> int \<Rightarrow> ASN1_INTEGER" where
  "asn1_string_set_int64 a r itype =
     a\<lparr>base := itype, neg := fst (int64_sign_bytes r), integer_data := snd (int64_sign_bytes r)\<rparr>"

definition asn1_string_get_uint64 :: "ASN1_INTEGER option \<Rightarrow> int \<Rightarrow> u64 option" where
  "asn1_string_get_uint64 a itype =
     (case a of None \<Rightarrow> None
      | Some a \<Rightarrow> if base a \<noteq> itype then None else if neg a then None else asn1_get_uint64 (integer_data a))"

definition asn1_string_set_uint64 :: "ASN1_INTEGER \<Rightarrow> u64 \<Rightarrow> int \<Rightarrow> ASN1_INTEGER" where
  "asn1_string_set_uint64 a r itype = a\<lparr>base := itype, neg := False, integer_data := asn1_put_uint64 r\<rparr>"

lemma string_int64_round_trip:
  "asn1_string_get_int64 (Some (asn1_string_set_int64 a r k)) k = Some r \<and>
   asn1_string_get_uint64 (Some (asn1_string_set_uint64 a u k)) k = Some u"
  by (simp add: asn1_string_get_int64_def asn1_string_set_int64_def int64_round_trip
      asn1_string_get_uint64_def asn1_string_set_uint64_def uint64_round_trip)

subsection \<open>Content octets of 64-bit integers\<close>

definition c2i_uint64_int :: "byte list \<Rightarrow> (u64 \<times> bool) option" where
  "c2i_uint64_int p =
     (case c2i_ibuf p of
        None \<Rightarrow> None
      | Some (n, buf) \<Rightarrow>
          if length buf > 8 then None
          else (case asn1_get_uint64 buf of None \<Rightarrow> None | Some r \<Rightarrow> Some (r, n)))"

definition i2c_uint64_int :: "u64 \<Rightarrow> bool \<Rightarrow> byte list" where
  "i2c_uint64_int r n = i2c_ibuf (asn1_put_uint64 r) n"

lemma put_uint64_loop_leads: "r \<noteq> 0 \<Longrightarrow> hd (asn1_put_uint64_loop r out) \<noteq> 0"
proof (induction r out rule: asn1_put_uint64_loop.induct)
  case (1 r out)
  show ?case
  proof (cases "drop_bit 8 r = 0")
    case True
    have "unat (drop_bit 8 r) = unat r div 256" unfolding unat_drop_bit_eq by (simp add: drop_bit_eq_div)
    then have "unat r < 256" using True by (simp add: div_eq_0_iff)
    moreover have "unat r \<noteq> 0" using 1(2) by (simp add: unat_eq_zero)
    ultimately have "unat (ucast r :: byte) \<noteq> 0" by (simp add: unsigned_ucast_eq take_bit_eq_mod)
    then have "(ucast r :: byte) \<noteq> 0" by (simp only: unat_eq_zero not_False_eq_True)
    then show ?thesis using True by (subst asn1_put_uint64_loop.simps) (simp add: Let_def)
  next
    case False
    then show ?thesis using 1(1) [OF refl refl False] by (subst asn1_put_uint64_loop.simps) (simp add: Let_def)
  qed
qed

lemma put_uint64_canonical: "r \<noteq> 0 \<or> \<not> n \<Longrightarrow> canonical n (asn1_put_uint64 r)"
proof (cases "r = 0")
  case True
  then have "asn1_put_uint64 r = [0]" unfolding asn1_put_uint64_def by (subst asn1_put_uint64_loop.simps) (simp add: Let_def)
  then show "r \<noteq> 0 \<or> \<not> n \<Longrightarrow> ?thesis" using True by (simp add: canonical_def)
next
  case False
  have "asn1_put_uint64 r \<noteq> []" using put_uint64_loop_value [of r "[]"] by (auto simp: asn1_put_uint64_def)
  then show ?thesis using put_uint64_loop_leads [OF False, of "[]"] by (simp add: canonical_def asn1_put_uint64_def)
qed

text \<open>A 64-bit magnitude with a sign is read back from its content octets, unless it is a negative zero.\<close>

lemma uint64_content_round_trip:
  "r \<noteq> 0 \<or> \<not> n \<Longrightarrow> c2i_uint64_int (i2c_uint64_int r n) = Some (r, n) \<and> minimal (i2c_uint64_int r n)"
proof -
  assume "r \<noteq> 0 \<or> \<not> n"
  then have c: "canonical n (asn1_put_uint64 r)" by (rule put_uint64_canonical)
  have "c2i_ibuf (i2c_ibuf (asn1_put_uint64 r) n) = Some (n, asn1_put_uint64 r)" by (rule decode_encode [OF c])
  then show ?thesis using put_uint64_length [of r] i2c_ibuf_minimal [OF c]
    by (simp add: c2i_uint64_int_def i2c_uint64_int_def uint64_round_trip)
qed

end
