(* ===== verification/Asn1_Header.thy ===== *)
theory Asn1_Header
  imports Asn1_Integer
begin

text \<open>
  The identifier and length octets of ASN.1 (crypto/asn1/asn1_lib.c): parsing by
  \<open>ASN1_get_object\<close>, writing by \<open>ASN1_put_object\<close> and the size by \<open>ASN1_object_size\<close>.
  The input \<open>p\<close> is a list that has at least the \<open>max\<close> bytes the caller allows to read.
\<close>

definition V_ASN1_CONSTRUCTED :: byte where "V_ASN1_CONSTRUCTED = 0x20"
definition V_ASN1_PRIVATE :: byte where "V_ASN1_PRIVATE = 0xc0"
definition V_ASN1_PRIMITIVE_TAG :: byte where "V_ASN1_PRIMITIVE_TAG = 0x1f"
definition INT_MAX :: int where "INT_MAX = 2 ^ 31 - 1"
definition LONG_MAX :: u64 where "LONG_MAX = 0x7FFFFFFFFFFFFFFF"

subsection \<open>End of contents\<close>

text \<open>Whether the end is reached, and what is left of the input.\<close>

definition asn1_check_infinite_end :: "byte list \<Rightarrow> int \<Rightarrow> bool \<times> byte list" where
  "asn1_check_infinite_end p len =
     (if len \<le> 0 then (True, p)
      else if len \<ge> 2 \<and> p ! 0 = 0 \<and> p ! 1 = 0 then (True, drop 2 p)
      else (False, p))"

definition ASN1_put_eoc :: "byte list" where "ASN1_put_eoc = [0, 0]"

subsection \<open>Parsing\<close>

text \<open>Skipping zero bytes of a long length: the input and the count \<open>i\<close>.\<close>

fun skip_zeroes :: "byte list \<Rightarrow> nat \<Rightarrow> byte list \<times> nat" where
  "skip_zeroes p 0 = (p, 0)"
| "skip_zeroes p (Suc i) = (if hd p = 0 then skip_zeroes (tl p) i else (p, Suc i))"

fun length_octets :: "byte list \<Rightarrow> nat \<Rightarrow> u64 \<Rightarrow> u64 \<times> byte list" where
  "length_octets p 0 ret = (ret, p)"
| "length_octets p (Suc i) ret = length_octets (tl p) i (push_bit 8 ret OR ucast (hd p))"

text \<open>\<open>asn1_get_length\<close>: the input after the length, \<open>inf\<close> and the length.\<close>

definition asn1_get_length :: "byte list \<Rightarrow> nat \<Rightarrow> (byte list \<times> bool \<times> nat) option" where
  "asn1_get_length p left =
     (if left < 1 then None
      else let left = left - 1 in
        if hd p = 0x80 then Some (tl p, True, 0)
        else let i = unat (hd p AND 0x7f) in
          if hd p AND 0x80 \<noteq> 0 then
            if left < i + 1 then None
            else let (p, i) = skip_zeroes (tl p) i in
              if i > 8 then None
              else let (ret, p) = length_octets p i 0 in
                if ret > LONG_MAX then None else Some (p, False, unat ret)
          else Some (tl p, False, i))"

text \<open>
  The tag in base 128: the input at the last byte of the tag, how many bytes are left and
  \<open>l\<close>. The loop is entered with at least one byte left, and left when there is none.
\<close>

fun high_tag :: "byte list \<Rightarrow> nat \<Rightarrow> nat \<Rightarrow> (byte list \<times> nat \<times> nat) option" where
  "high_tag p 0 l = None"
| "high_tag p (Suc left) l =
     (if hd p AND 0x80 \<noteq> 0 then
        let l = l * 128 + unat (hd p AND 0x7f) in
        if left = 0 then None
        else if int l > INT_MAX div 128 then None
        else high_tag (tl p) left l
      else Some (p, Suc left, l))"

definition get_tag :: "byte list \<Rightarrow> nat \<Rightarrow> (byte list \<times> nat \<times> nat) option" where
  "get_tag p left =
     (let i = hd p AND V_ASN1_PRIMITIVE_TAG in
      if i = V_ASN1_PRIMITIVE_TAG then
        let p = tl p; left = left - 1 in
        if left = 0 then None
        else case high_tag p left 0 of
            None \<Rightarrow> None
          | Some (p, left, l) \<Rightarrow>
              let l = l * 128 + unat (hd p AND 0x7f); p = tl p; left = left - 1 in
              if left = 0 then None else Some (p, left, l)
      else let p = tl p; left = left - 1 in
        if left = 0 then None else Some (p, left, unat i))"

text \<open>
  The outcome: the input after the header, whether the type is constructed (0x20 of the
  return value), of indefinite length (1), too long for the input (0x80), the length of the
  contents, the tag and the class.
\<close>

datatype object_header =
    HEADER_TOO_LONG
  | Header (contents: "byte list") (is_constructed: bool) (is_indefinite: bool) (is_too_long: bool)
      (content_length: nat) (object_tag: nat) (object_class: byte)

definition ASN1_get_object :: "byte list \<Rightarrow> nat \<Rightarrow> object_header" where
  "ASN1_get_object pp omax =
     (if omax = 0 then HEADER_TOO_LONG
      else
        let ret = hd pp AND V_ASN1_CONSTRUCTED;
            c = hd pp AND V_ASN1_PRIVATE
        in case get_tag pp omax of
            None \<Rightarrow> HEADER_TOO_LONG
          | Some (p, left, t) \<Rightarrow>
              (case asn1_get_length p left of
                 None \<Rightarrow> HEADER_TOO_LONG
               | Some (p, indef, plength) \<Rightarrow>
                   if indef \<and> ret = 0 then HEADER_TOO_LONG
                   else Header p (ret \<noteq> 0) indef
                     (int plength > int omax - (int (length pp) - int (length p))) plength t c))"

subsection \<open>Writing\<close>

text \<open>How often a value is shifted right until it is zero: the loops that count octets.\<close>

function shifts :: "nat \<Rightarrow> nat \<Rightarrow> nat" where
  "shifts w v = (if v = 0 \<or> w = 0 then 0 else Suc (shifts w (drop_bit w v)))"
  by auto

termination
proof (relation "measure snd")
  fix w v :: nat
  assume "\<not> (v = 0 \<or> w = 0)"
  then have "v div 2 ^ w < v" using one_less_power [of "2 :: nat" w] by (intro div_less_dividend) auto
  then show "((w, drop_bit w v), (w, v)) \<in> measure snd" by (simp add: drop_bit_eq_div)
qed simp

declare shifts.simps [simp del]

text \<open>The octets from the last on: how many are left, the index of the last, the value.\<close>

fun tag_octets :: "nat \<Rightarrow> nat \<Rightarrow> nat \<Rightarrow> byte list \<Rightarrow> byte list" where
  "tag_octets 0 ttag tag out = out"
| "tag_octets (Suc i) ttag tag out =
     tag_octets i ttag (drop_bit 7 tag)
       (((word_of_nat tag AND 0x7f) OR (if i \<noteq> ttag - 1 then 0x80 else 0)) # out)"

fun size_octets :: "nat \<Rightarrow> nat \<Rightarrow> byte list \<Rightarrow> byte list" where
  "size_octets 0 v out = out"
| "size_octets (Suc i) v out = size_octets i (drop_bit 8 v) ((word_of_nat v AND 0xff) # out)"

definition asn1_put_length :: "int \<Rightarrow> byte list" where
  "asn1_put_length len =
     (if len \<le> 127 then [word_of_int len]
      else let i = shifts 8 (nat len) in (word_of_nat i OR 0x80) # size_octets i (nat len) [])"

definition ASN1_put_object :: "nat \<Rightarrow> int \<Rightarrow> nat \<Rightarrow> byte \<Rightarrow> byte list" where
  "ASN1_put_object constr len tag xclass =
     (let i = (if constr \<noteq> 0 then V_ASN1_CONSTRUCTED else 0) OR (xclass AND V_ASN1_PRIVATE) in
      (if tag < 31 then [i OR (word_of_nat tag AND V_ASN1_PRIMITIVE_TAG)]
       else (i OR V_ASN1_PRIMITIVE_TAG) # (let ttag = shifts 7 tag in tag_octets ttag ttag tag []))
      @ (if constr = 2 then [0x80] else asn1_put_length len))"

definition ASN1_object_size :: "nat \<Rightarrow> int \<Rightarrow> nat \<Rightarrow> int" where
  "ASN1_object_size constr len tag =
     (if len < 0 then - 1
      else let ret = 1 + (if tag \<ge> 31 then int (shifts 7 tag) else 0);
               ret = (if constr = 2 then ret + 3
                      else ret + 1 + (if len > 127 then int (shifts 8 (nat len)) else 0))
           in if ret \<ge> INT_MAX - len then - 1 else ret + len)"

subsection \<open>Bounds of the parser\<close>

text \<open>Header parsing reads no byte past those it was allowed, whatever follows them.\<close>

fun followed_by :: "object_header \<Rightarrow> byte list \<Rightarrow> object_header" where
  "followed_by HEADER_TOO_LONG q = HEADER_TOO_LONG"
| "followed_by (Header p c i t n k x) q = Header (p @ q) c i t n k x"

lemma hd_tl_append: "p \<noteq> [] \<Longrightarrow> hd (p @ q) = hd p \<and> tl (p @ q) = tl p @ q"
  by (cases p) simp_all

lemma hd_tl_append': "\<not> length p \<le> Suc 0 \<Longrightarrow> hd (p @ q) = hd p" "\<not> length p \<le> Suc 0 \<Longrightarrow> tl (p @ q) = tl p @ q"
  by (cases p; simp)+

lemma high_tag_append:
  "length p = left \<Longrightarrow> high_tag (p @ q) left l = map_option (\<lambda>(r, n, l). (r @ q, n, l)) (high_tag p left l)"
proof (induction p left l rule: high_tag.induct)
  case (2 p left l)
  then show ?case by (cases p) (auto simp: Let_def)
qed simp

lemma high_tag_length: "length p = left \<Longrightarrow> high_tag p left l = Some (r, n, l') \<Longrightarrow> length r = n \<and> 0 < n"
proof (induction p left l rule: high_tag.induct)
  case (2 p left l)
  then show ?case by (cases p) (auto simp: Let_def split: if_splits)
qed simp

lemma skip_zeroes_append:
  "i \<le> length p \<Longrightarrow> skip_zeroes (p @ q) i = (fst (skip_zeroes p i) @ q, snd (skip_zeroes p i)) \<and>
     snd (skip_zeroes p i) \<le> length (fst (skip_zeroes p i)) \<and>
     length p - i = length (fst (skip_zeroes p i)) - snd (skip_zeroes p i)"
proof (induction p i rule: skip_zeroes.induct)
  case (2 p i)
  then show ?case by (cases p) auto
qed simp

lemma length_octets_append:
  "i \<le> length p \<Longrightarrow> length_octets (p @ q) i r = (fst (length_octets p i r), snd (length_octets p i r) @ q) \<and>
     length (snd (length_octets p i r)) = length p - i"
proof (induction p i r rule: length_octets.induct)
  case (2 p i r)
  then show ?case by (cases p) auto
qed simp

lemma get_length_append:
  assumes "length p = left"
  shows "asn1_get_length (p @ q) left = map_option (\<lambda>(r, x). (r @ q, x)) (asn1_get_length p left)"
proof (cases p)
  case (Cons b t)
  define n where "n = unat (b AND 0x7f)"
  show ?thesis
  proof (cases "n \<le> length t")
    case True
    obtain r i where s: "skip_zeroes t n = (r, i)" by force
    with skip_zeroes_append [OF True, of q] have a: "skip_zeroes (t @ q) n = (r @ q, i)" "i \<le> length r" by auto
    obtain v u where l: "length_octets r i 0 = (v, u)" by force
    with length_octets_append [OF a(2), of q 0] have "length_octets (r @ q) i 0 = (v, u @ q)" by simp
    then show ?thesis using assms s a l
      by (auto simp: asn1_get_length_def Cons Let_def n_def [symmetric])
  next
    case False
    then show ?thesis using assms by (auto simp: asn1_get_length_def Cons Let_def n_def [symmetric])
  qed
qed (use assms in \<open>simp add: asn1_get_length_def\<close>)

lemma get_tag_append:
  assumes "length p = left" and "left \<noteq> 0"
  shows "get_tag (p @ q) left = map_option (\<lambda>(r, n, l). (r @ q, n, l)) (get_tag p left)"
    and "get_tag p left = Some (r, n, l) \<Longrightarrow> length r = n \<and> 0 < n"
proof -
  obtain b t where p: "p = b # t" using assms by (cases p) auto
  then have t: "length t = left - 1" using assms by simp
  show "get_tag (p @ q) left = map_option (\<lambda>(r, n, l). (r @ q, n, l)) (get_tag p left)"
    using high_tag_append [OF t, of q 0] high_tag_length [OF t, of 0]
    by (auto simp: get_tag_def p Let_def hd_tl_append' split: option.splits)
  show "get_tag p left = Some (r, n, l) \<Longrightarrow> length r = n \<and> 0 < n"
    using t high_tag_length [OF t, of 0] by (fastforce simp: get_tag_def p Let_def split: option.splits if_splits)
qed

text \<open>
  C17: The header is found within the bytes that the caller allows: what follows them in memory
  has no effect on the result.
\<close>

theorem get_object_in_bounds:
  "length p = omax \<Longrightarrow> ASN1_get_object (p @ q) omax = followed_by (ASN1_get_object p omax) q"
proof (cases "omax = 0")
  case False
  assume l: "length p = omax"
  then have ne: "p \<noteq> []" using False by auto
  show ?thesis
  proof (cases "get_tag p omax")
    case None
    then show ?thesis using get_tag_append(1) [OF l False, of q] False
      by (simp add: ASN1_get_object_def Let_def)
  next
    case (Some a)
    obtain r n t where a: "a = (r, n, t)" by (cases a)
    have "length r = n" using get_tag_append(2) [OF l False] Some a by simp
    from get_length_append [OF this, of q] show ?thesis
      using get_tag_append(1) [OF l False, of q] Some a False hd_tl_append [OF ne, of q]
      by (cases "asn1_get_length r n") (auto simp: ASN1_get_object_def Let_def)
  qed
qed (simp add: ASN1_get_object_def)

lemma get_object_in_bounds_witness:
  "ASN1_get_object [0x30, 0x82, 0x01] 3 = HEADER_TOO_LONG \<and> ASN1_get_object [0x30, 0x82, 0x01, 0x02, 0x03] 3 = HEADER_TOO_LONG"
  using get_object_in_bounds [of "[0x30, 0x82, 0x01]" 3 "[0x02, 0x03]"]
  by (simp add: ASN1_get_object_def get_tag_def asn1_get_length_def V_ASN1_PRIMITIVE_TAG_def Let_def)

subsection \<open>Octets\<close>

lemma shifts_value: "0 < w \<Longrightarrow> v < (2 ^ w) ^ shifts w v \<and> (v \<noteq> 0 \<longrightarrow> (2 ^ w) ^ (shifts w v - 1) \<le> v)"
proof (induction w v rule: shifts.induct)
  case (1 w v)
  show ?case
  proof (cases "v = 0")
    case False
    define u m where "u = v div 2 ^ w" "m = (2 :: nat) ^ w"
    have IH: "u < m ^ shifts w u" "u \<noteq> 0 \<longrightarrow> m ^ (shifts w u - 1) \<le> u"
      using 1 False by (simp_all add: u_m_def drop_bit_eq_div)
    have s: "shifts w v = Suc (shifts w u)"
      using False 1(2) by (subst shifts.simps) (simp add: u_m_def drop_bit_eq_div)
    have m: "0 < m" by (simp add: u_m_def)
    have "v = u * m + v mod m" unfolding u_m_def by (rule div_mult_mod_eq [symmetric])
    moreover have "v mod m < m" using m by simp
    moreover have "(u + 1) * m \<le> m ^ shifts w u * m" using IH(1) by (intro mult_right_mono) auto
    ultimately have lt: "v < m ^ Suc (shifts w u)" by (simp add: algebra_simps)
    have "m ^ shifts w u \<le> v"
    proof (cases "u = 0")
      case True
      then show ?thesis using False by (subst shifts.simps) simp
    next
      case u: False
      then have "shifts w u \<noteq> 0" using 1(2) by (subst shifts.simps) simp
      then obtain k where k: "shifts w u = Suc k" using not0_implies_Suc by blast
      then have "m ^ shifts w u \<le> u * m" using IH(2) u by simp
      also have "\<dots> \<le> v" by (simp add: u_m_def)
      finally show ?thesis .
    qed
    with lt s show ?thesis by (simp add: u_m_def)
  qed (simp add: shifts.simps)
qed

lemma shifts_le: "0 < w \<Longrightarrow> v < (2 ^ w) ^ n \<Longrightarrow> shifts w v \<le> n"
proof (rule ccontr)
  assume h: "0 < w" "v < (2 ^ w) ^ n" "\<not> shifts w v \<le> n"
  have "v \<noteq> 0" using h(3) by (cases "v = 0") (simp_all add: shifts.simps [of w 0])
  then have "(2 ^ w) ^ (shifts w v - 1) \<le> v" using shifts_value [OF h(1)] by simp
  moreover have "(2 ^ w :: nat) ^ n \<le> (2 ^ w) ^ (shifts w v - 1)" using h by (intro power_increasing) auto
  ultimately show False using h(2) by simp
qed

lemma size_octets_length: "length (size_octets i v out) = i + length out"
  by (induction i v out rule: size_octets.induct) simp_all

lemma size_octets_value:
  "v < 256 ^ i \<Longrightarrow> be_value (size_octets i v out) = v * 256 ^ length out + be_value out"
proof (induction i v out rule: size_octets.induct)
  case (2 i v out)
  have "v div 256 < 256 ^ i" using 2(2) by (simp add: less_mult_imp_div_less mult.commute)
  moreover have "v * 256 ^ length out = (v div 256) * (256 * 256 ^ length out) + (v mod 256) * 256 ^ length out"
    by (metis (no_types) distrib_right mult.assoc div_mult_mod_eq)
  ultimately show ?case
    using 2(1) by (simp add: drop_bit_eq_div be_value_Cons and_mask_byte unat_byte_of_nat)
qed simp

lemma length_octets_eq: "length_octets (bs @ q) (length bs) r = (uint64_loop r bs, q)"
  by (induction bs arbitrary: r) simp_all

lemma skip_zeroes_eq: "p \<noteq> [] \<Longrightarrow> hd p \<noteq> 0 \<Longrightarrow> skip_zeroes p i = (p, i)"
  by (cases i) simp_all

text \<open>Reading back a length that was written, when at least one byte follows a long one.\<close>

lemma get_put_length:
  assumes "0 \<le> len" "len < 2 ^ 31" "127 < len \<Longrightarrow> q \<noteq> []"
  shows "asn1_get_length (asn1_put_length len @ q) (length (asn1_put_length len @ q)) = Some (q, False, nat len)"
proof (cases "len \<le> 127")
  case True
  then obtain n where n: "len = int n" "n \<le> 127" using assms(1) by (metis nat_0_le nat_le_iff of_nat_numeral)
  then have "unat (word_of_int len :: byte) = n" by (simp add: unat_byte_of_nat)
  then show ?thesis
    using True n top_bit_byte [of "word_of_int len"] and_mask_byte(1) [of "word_of_int len"]
    by (auto simp: asn1_get_length_def asn1_put_length_def Let_def word_unat_eq_iff)
next
  case False
  define v n bs where "v = nat len" "n = shifts 8 v" "bs = size_octets n v []"
  have n4: "n \<le> 4" using shifts_le [of 8 v 4] assms by (simp add: v_n_bs_def)
  have sv: "v < 256 ^ n" "256 ^ (n - 1) \<le> v" using shifts_value [of 8 v] False by (simp_all add: v_n_bs_def)
  have n0: "n \<noteq> 0" using False by (simp add: v_n_bs_def shifts.simps [of 8 "nat len"])
  have b: "be_value bs = v" "length bs = n"
    using size_octets_value [OF sv(1), of "[]"] by (simp_all add: v_n_bs_def size_octets_length)
  have ne: "bs \<noteq> []" using b(2) n0 by auto
  have "hd bs \<noteq> 0" using hd_nonzero [OF ne] sv(2) b by (metis of_nat_le_iff of_nat_numeral of_nat_power)
  then have skip: "skip_zeroes (bs @ q) n = (bs @ q, n)" using ne by (intro skip_zeroes_eq) simp_all
  have lo: "length_octets (bs @ q) n 0 = (uint64_loop 0 bs, q)" using length_octets_eq [of bs q] b(2) by simp
  have u: "unat (uint64_loop 0 bs) = v" using uint64_loop_value [of bs 0 0] b n4 by simp
  have "v < 2 ^ 31" using assms by (simp add: v_n_bs_def)
  then have le: "uint64_loop 0 bs \<le> LONG_MAX" by (simp add: word_le_nat_alt u LONG_MAX_def)
  define h :: byte where "h = word_of_nat n OR 0x80"
  have h: "unat h = n + 128" using or_top_byte [of "word_of_nat n"] n4 by (simp add: h_def unat_byte_of_nat)
  then have "h \<noteq> 0x80" "h AND 0x80 \<noteq> 0" "unat (h AND 0x7f) = n"
    using n0 n4 top_bit_byte [of h] and_mask_byte(1) [of h] by (auto simp: word_unat_eq_iff)
  moreover have "asn1_put_length len = h # bs"
    using False by (simp add: asn1_put_length_def v_n_bs_def h_def Let_def)
  moreover have "length q \<noteq> 0" using assms(3) False by simp
  ultimately show ?thesis
    using skip lo u le n4 b(2) by (auto simp: asn1_get_length_def Let_def not_less v_n_bs_def(1))
qed

text \<open>Digits in base 128, the most significant first.\<close>

fun digits :: "nat \<Rightarrow> nat \<Rightarrow> nat list" where
  "digits 0 t = []"
| "digits (Suc i) t = digits i (t div 128) @ [t mod 128]"

lemma digits_bound: "d \<in> set (digits i t) \<Longrightarrow> d < 128"
  by (induction i arbitrary: t) auto

lemma digits_length [simp]: "length (digits i t) = i"
  by (induction i arbitrary: t) simp_all

lemma digits_value: "t < 128 ^ i \<Longrightarrow> foldl (\<lambda>l d. l * 128 + d) 0 (digits i t) = t"
  by (induction i arbitrary: t) (simp_all add: less_mult_imp_div_less mult.commute)

abbreviation continued :: "nat \<Rightarrow> byte" where
  "continued d \<equiv> word_of_nat d OR 0x80"

lemma septet: "((word_of_nat t :: byte) AND 0x7f) = word_of_nat (t mod 128)"
  by (rule unsigned_word_eqI [where 'a = nat])
    (simp add: and_mask_byte unat_byte_of_nat mod_mod_cancel)

lemma tag_octets_continued:
  "i < ttag \<Longrightarrow> tag_octets i ttag t out = map continued (digits i t) @ out"
  by (induction i arbitrary: t out) (simp_all add: septet drop_bit_eq_div)

lemma tag_octets_eq:
  "0 < n \<Longrightarrow> tag_octets n n t [] = map continued (digits (n - 1) (t div 128)) @ [word_of_nat (t mod 128)]"
  by (cases n) (simp_all add: tag_octets_continued septet drop_bit_eq_div)

lemma continued_byte:
  assumes "d < 128"
  shows "continued d AND 0x80 \<noteq> 0" "unat (continued d AND 0x7f) = d"
  using or_top_byte [of "word_of_nat d"] assms top_bit_byte [of "continued d"] and_mask_byte(1) [of "continued d"]
  by (simp_all add: unat_byte_of_nat)

lemma fold_digits_le: "l \<le> foldl (\<lambda>l d. l * 128 + d) l ds" for l :: nat
proof (induction ds arbitrary: l)
  case (Cons d ds)
  have "l \<le> l * 128 + d" by simp
  also have "\<dots> \<le> foldl (\<lambda>l d. l * 128 + d) l (d # ds)" using Cons [of "l * 128 + d"] by simp
  finally show ?case .
qed simp

lemma high_tag_digits:
  "\<lbrakk>\<forall>d \<in> set ds. d < 128; b AND 0x80 = 0; int (foldl (\<lambda>l d. l * 128 + d) l ds) \<le> INT_MAX div 128; length ds < left\<rbrakk> \<Longrightarrow>
   high_tag (map continued ds @ b # q) left l = Some (b # q, left - length ds, foldl (\<lambda>l d. l * 128 + d) l ds)"
proof (induction ds arbitrary: l left)
  case Nil
  then show ?case by (cases left) simp_all
next
  case (Cons d ds)
  then obtain m where m: "left = Suc m" "0 < m" "length ds < m" by (cases left) auto
  have "int (l * 128 + d) \<le> int (foldl (\<lambda>l d. l * 128 + d) (l * 128 + d) ds)"
    using fold_digits_le [of "l * 128 + d" ds] by (simp only: of_nat_le_iff)
  then have "int (l * 128 + d) \<le> INT_MAX div 128" using Cons.prems(3) by simp
  then show ?case
    using Cons.IH [of "l * 128 + d" m] Cons.prems m continued_byte [of d] by (simp add: Let_def not_le)
qed

subsection \<open>Writing and reading back\<close>

text \<open>The three parts of the first octet do not disturb each other.\<close>

definition first_octet :: "bool \<Rightarrow> byte \<Rightarrow> byte \<Rightarrow> byte" where
  "first_octet c k x = (if c then V_ASN1_CONSTRUCTED else 0) OR (k AND V_ASN1_PRIVATE) OR (x AND V_ASN1_PRIMITIVE_TAG)"

lemma mask_bits:
  "bit V_ASN1_PRIMITIVE_TAG n \<longleftrightarrow> n < 5" "bit V_ASN1_CONSTRUCTED n \<longleftrightarrow> n = 5" "bit V_ASN1_PRIVATE n \<longleftrightarrow> n = 6 \<or> n = 7"
proof -
  have m: "V_ASN1_PRIMITIVE_TAG = mask 5" by (simp add: V_ASN1_PRIMITIVE_TAG_def mask_eq_exp_minus_1)
  show "bit V_ASN1_PRIMITIVE_TAG n \<longleftrightarrow> n < 5" unfolding m bit_mask_iff by auto
  have "V_ASN1_CONSTRUCTED = 2 ^ 5" by (simp add: V_ASN1_CONSTRUCTED_def)
  moreover have "bit (2 ^ 5 :: byte) n \<longleftrightarrow> n = 5" by (subst bit_exp_iff) auto
  ultimately show "bit V_ASN1_CONSTRUCTED n \<longleftrightarrow> n = 5" by (simp only:)
  have m: "V_ASN1_PRIVATE = push_bit 6 (mask 2)" by (simp add: V_ASN1_PRIVATE_def mask_eq_exp_minus_1 push_bit_eq_mult)
  show "bit V_ASN1_PRIVATE n \<longleftrightarrow> n = 6 \<or> n = 7" unfolding m bit_push_bit_iff bit_mask_iff by auto
qed

lemma first_octet_parts:
  "first_octet c k x AND V_ASN1_PRIMITIVE_TAG = x AND V_ASN1_PRIMITIVE_TAG"
  "first_octet c k x AND V_ASN1_PRIVATE = k AND V_ASN1_PRIVATE"
  "first_octet c k x AND V_ASN1_CONSTRUCTED \<noteq> 0 \<longleftrightarrow> c"
proof -
  show "first_octet c k x AND V_ASN1_PRIMITIVE_TAG = x AND V_ASN1_PRIMITIVE_TAG"
    by (rule bit_word_eqI) (auto simp: first_octet_def bit_and_iff bit_or_iff mask_bits)
  show "first_octet c k x AND V_ASN1_PRIVATE = k AND V_ASN1_PRIVATE"
    by (rule bit_word_eqI) (auto simp: first_octet_def bit_and_iff bit_or_iff mask_bits)
  have "first_octet c k x AND V_ASN1_CONSTRUCTED = (if c then V_ASN1_CONSTRUCTED else 0)"
    by (rule bit_word_eqI) (auto simp: first_octet_def bit_and_iff bit_or_iff mask_bits)
  then show "first_octet c k x AND V_ASN1_CONSTRUCTED \<noteq> 0 \<longleftrightarrow> c" by (simp add: V_ASN1_CONSTRUCTED_def)
qed

lemma get_put_tag:
  assumes "tag < 2 ^ 31" and "q \<noteq> []"
    and octets: "octets = (if tag < 31 then [first_octet c k (word_of_nat tag)]
      else first_octet c k V_ASN1_PRIMITIVE_TAG # tag_octets (shifts 7 tag) (shifts 7 tag) tag [])"
  shows "get_tag (octets @ q) (length (octets @ q)) = Some (q, length q, tag)"
proof (cases "tag < 31")
  case True
  have u: "unat (word_of_nat tag AND V_ASN1_PRIMITIVE_TAG) = tag"
    using True and_mask_byte(2) [of "word_of_nat tag"] by (simp add: V_ASN1_PRIMITIVE_TAG_def unat_byte_of_nat)
  then have "word_of_nat tag AND V_ASN1_PRIMITIVE_TAG \<noteq> V_ASN1_PRIMITIVE_TAG"
    using True by (auto simp: V_ASN1_PRIMITIVE_TAG_def)
  then show ?thesis
    using True assms(2) u by (simp add: get_tag_def Let_def octets first_octet_parts)
next
  case False
  define n where "n = shifts 7 tag"
  have t: "tag < 128 ^ n" using shifts_value [of 7 tag] by (simp add: n_def)
  have n: "0 < n" using False by (simp add: n_def shifts.simps [of 7 tag])
  then have "tag div 128 < 128 ^ (n - 1)" using t by (cases n) (simp_all add: less_mult_imp_div_less mult.commute)
  then have v: "foldl (\<lambda>l d. l * 128 + d) 0 (digits (n - 1) (tag div 128)) = tag div 128" by (rule digits_value)
  define b where "b = (word_of_nat (tag mod 128) :: byte)"
  have b: "unat b = tag mod 128" by (simp add: b_def unat_byte_of_nat)
  then have b': "b AND 0x80 = 0" "unat (b AND 0x7f) = tag mod 128"
    using top_bit_byte [of b] and_mask_byte(1) [of b] by auto
  let ?p = "map continued (digits (n - 1) (tag div 128)) @ b # q"
  have "int (tag div 128) \<le> INT_MAX div 128" using assms(1) by (simp add: INT_MAX_def)
  then have h: "high_tag ?p (length ?p) 0 = Some (b # q, Suc (length q), tag div 128)"
    using high_tag_digits [of "digits (n - 1) (tag div 128)" b 0 "length ?p" q] v b' digits_bound by auto
  have o: "octets @ q = first_octet c k V_ASN1_PRIMITIVE_TAG # ?p"
    using False tag_octets_eq [OF n, of tag] by (simp add: octets n_def [symmetric] b_def)
  have l: "length ?p \<noteq> 0" by simp
  show ?thesis
    unfolding o get_tag_def Let_def using h assms(2) b' l
    by (simp add: first_octet_parts)
qed

text \<open>
  C16: A header that is written is read back: tag, class, form, length and where the contents
  begin; also the mark that the length is more than what follows.
\<close>

theorem get_put_object:
  assumes "tag < 2 ^ 31" "0 \<le> len" "len < 2 ^ 31" "127 < len \<Longrightarrow> constr \<noteq> 2 \<Longrightarrow> q \<noteq> []"
  shows "ASN1_get_object (ASN1_put_object constr len tag k @ q) (length (ASN1_put_object constr len tag k @ q)) =
    Header q (constr \<noteq> 0) (constr = 2) (constr \<noteq> 2 \<and> int (length q) < len)
      (if constr = 2 then 0 else nat len) tag (k AND V_ASN1_PRIVATE)"
proof -
  define octets where "octets = (if tag < 31 then [first_octet (constr \<noteq> 0) k (word_of_nat tag)]
      else first_octet (constr \<noteq> 0) k V_ASN1_PRIMITIVE_TAG # tag_octets (shifts 7 tag) (shifts 7 tag) tag [])"
  define r where "r = (if constr = 2 then [0x80] else asn1_put_length len) @ q"
  have o: "ASN1_put_object constr len tag k @ q = octets @ r"
    by (simp add: ASN1_put_object_def octets_def r_def first_octet_def Let_def or.assoc)
  have r: "r \<noteq> []" by (auto simp: r_def asn1_put_length_def Let_def)
  have t: "get_tag (octets @ r) (length (octets @ r)) = Some (r, length r, tag)"
    by (rule get_put_tag [OF assms(1) r octets_def])
  have l: "asn1_get_length r (length r) = Some (q, constr = 2, if constr = 2 then 0 else nat len)"
  proof (cases "constr = 2")
    case True
    then show ?thesis by (simp add: r_def asn1_get_length_def Let_def)
  next
    case False
    then show ?thesis using get_put_length [OF assms(2,3), of q] assms(4) by (simp add: r_def)
  qed
  have "octets \<noteq> []" "hd (octets @ r) = first_octet (constr \<noteq> 0) k (if tag < 31 then word_of_nat tag else V_ASN1_PRIMITIVE_TAG)"
    by (auto simp: octets_def)
  then show ?thesis
    unfolding o ASN1_get_object_def Let_def using t l assms(2)
    by (auto simp: first_octet_parts nat_less_iff)
qed

lemma get_put_object_witness:
  "ASN1_get_object [0x30, 3, 1, 2, 3] (length [0x30, 3, 1, 2, 3 :: byte]) = Header [1, 2, 3] True False False 3 16 0"
proof -
  have "ASN1_put_object 1 3 16 0 @ [1, 2, 3] = [0x30, 3, 1, 2, 3]"
    by (simp add: ASN1_put_object_def asn1_put_length_def V_ASN1_CONSTRUCTED_def V_ASN1_PRIMITIVE_TAG_def Let_def)
  with get_put_object [of 16 3 1 "[1, 2, 3]" 0] show ?thesis by simp
qed

text \<open>
  The size computed for an object is what its header, its contents and, of indefinite
  length, the end of the contents take; or it is refused.
\<close>

theorem object_size_eq:
  "\<lbrakk>0 \<le> len; ASN1_object_size constr len tag \<noteq> - 1\<rbrakk> \<Longrightarrow>
   ASN1_object_size constr len tag =
     int (length (ASN1_put_object constr len tag k)) + len + (if constr = 2 then int (length ASN1_put_eoc) else 0)"
proof -
  have "length (tag_octets i n t out) = i + length out" for i n t out
    by (induction i n t out rule: tag_octets.induct) simp_all
  moreover have "length (asn1_put_length len) = 1 + (if 127 < len then shifts 8 (nat len) else 0)"
    by (simp add: asn1_put_length_def size_octets_length Let_def)
  moreover assume "0 \<le> len" "ASN1_object_size constr len tag \<noteq> - 1"
  ultimately show ?thesis
    by (simp add: ASN1_object_size_def ASN1_put_object_def ASN1_put_eoc_def Let_def split: if_splits)
qed

lemma object_size_eq_witness: "ASN1_object_size 1 3 16 = int (length (ASN1_put_object 1 3 16 0)) + 3"
  using object_size_eq [of 3 1 16 0] by (simp add: ASN1_object_size_def INT_MAX_def)

lemma object_size_refused:
  "ASN1_object_size constr len tag = - 1 \<longleftrightarrow>
     len < 0 \<or> INT_MAX \<le> int (length (ASN1_put_object constr len tag k)) + (if constr = 2 then 2 else 0) + len"
proof -
  have "length (tag_octets i n t out) = i + length out" for i n t out
    by (induction i n t out rule: tag_octets.induct) simp_all
  moreover have "length (asn1_put_length len) = 1 + (if 127 < len then shifts 8 (nat len) else 0)"
    by (simp add: asn1_put_length_def size_octets_length Let_def)
  ultimately show ?thesis
    by (auto simp: ASN1_object_size_def ASN1_put_object_def Let_def)
qed

end
