(* ===== verification/Asn1_Utf8.thy ===== *)
theory Asn1_Utf8
  imports Byte_Words
begin

text \<open>
  UTF-8 of libcrypto (crypto/asn1/a_utf8.c): one character is read by \<open>UTF8_getc\<close> and
  written by \<open>UTF8_putc\<close>. An \<open>unsigned long\<close> has 64 bits; the old forms of five and six
  bytes are read and written too.
\<close>

subsection \<open>The code\<close>

text \<open>The value read and the number of bytes, or the negative return value; 0 for no input.\<close>

datatype utf8_result = Utf8_Error int | Utf8_Char u64 nat

abbreviation trail :: "byte \<Rightarrow> bool" where
  "trail b \<equiv> b AND 0xc0 = 0x80"

definition six :: "byte \<Rightarrow> u64" where
  "six b = ucast (b AND 0x3f)"

definition UTF8_getc :: "byte list \<Rightarrow> int \<Rightarrow> utf8_result" where
  "UTF8_getc p len =
     (if len \<le> 0 then Utf8_Error 0
      else if p ! 0 AND 0x80 = 0 then Utf8_Char (ucast (p ! 0 AND 0x7f)) 1
      else if p ! 0 AND 0xe0 = 0xc0 then
        if len < 2 then Utf8_Error (- 1)
        else if \<not> trail (p ! 1) then Utf8_Error (- 3)
        else let value = push_bit 6 (ucast (p ! 0 AND 0x1f)) OR six (p ! 1) in
          if value < 0x80 then Utf8_Error (- 4) else Utf8_Char value 2
      else if p ! 0 AND 0xf0 = 0xe0 then
        if len < 3 then Utf8_Error (- 1)
        else if \<not> trail (p ! 1) \<or> \<not> trail (p ! 2) then Utf8_Error (- 3)
        else let value = push_bit 12 (ucast (p ! 0 AND 0xf)) OR push_bit 6 (six (p ! 1)) OR six (p ! 2) in
          if value < 0x800 then Utf8_Error (- 4) else Utf8_Char value 3
      else if p ! 0 AND 0xf8 = 0xf0 then
        if len < 4 then Utf8_Error (- 1)
        else if \<not> trail (p ! 1) \<or> \<not> trail (p ! 2) \<or> \<not> trail (p ! 3) then Utf8_Error (- 3)
        else let value = push_bit 18 (ucast (p ! 0 AND 0x7)) OR push_bit 12 (six (p ! 1))
               OR push_bit 6 (six (p ! 2)) OR six (p ! 3) in
          if value < 0x10000 then Utf8_Error (- 4) else Utf8_Char value 4
      else if p ! 0 AND 0xfc = 0xf8 then
        if len < 5 then Utf8_Error (- 1)
        else if \<not> trail (p ! 1) \<or> \<not> trail (p ! 2) \<or> \<not> trail (p ! 3) \<or> \<not> trail (p ! 4) then Utf8_Error (- 3)
        else let value = push_bit 24 (ucast (p ! 0 AND 0x3)) OR push_bit 18 (six (p ! 1))
               OR push_bit 12 (six (p ! 2)) OR push_bit 6 (six (p ! 3)) OR six (p ! 4) in
          if value < 0x200000 then Utf8_Error (- 4) else Utf8_Char value 5
      else if p ! 0 AND 0xfe = 0xfc then
        if len < 6 then Utf8_Error (- 1)
        else if \<not> trail (p ! 1) \<or> \<not> trail (p ! 2) \<or> \<not> trail (p ! 3) \<or> \<not> trail (p ! 4) \<or> \<not> trail (p ! 5)
        then Utf8_Error (- 3)
        else let value = push_bit 30 (ucast (p ! 0 AND 0x1)) OR push_bit 24 (six (p ! 1))
               OR push_bit 18 (six (p ! 2)) OR push_bit 12 (six (p ! 3)) OR push_bit 6 (six (p ! 4)) OR six (p ! 5) in
          if value < 0x4000000 then Utf8_Error (- 4) else Utf8_Char value 6
      else Utf8_Error (- 2))"

text \<open>
  \<open>UTF8_putc\<close> into a buffer of \<open>len\<close> bytes, or without one (\<open>str\<close> false) to count: the return
  value and the bytes written.
\<close>

definition octet :: "nat \<Rightarrow> u64 \<Rightarrow> u64 \<Rightarrow> u64 \<Rightarrow> byte" where
  "octet n m t value = ucast (drop_bit n value AND m OR t)"

definition UTF8_putc :: "bool \<Rightarrow> int \<Rightarrow> u64 \<Rightarrow> int \<times> byte list" where
  "UTF8_putc str len value =
     (if str \<and> len \<le> 0 then (- 1, [])
      else
        let len = (if str then len else 6);
            out = (\<lambda>n bs. if len < n then (- 1, []) else (n, if str then bs else []))
        in if value < 0x80 then (1, if str then [ucast value] else [])
        else if value < 0x800 then out 2 [octet 6 0x1f 0xc0 value, octet 0 0x3f 0x80 value]
        else if value < 0x10000 then
          out 3 [octet 12 0xf 0xe0 value, octet 6 0x3f 0x80 value, octet 0 0x3f 0x80 value]
        else if value < 0x200000 then
          out 4 [octet 18 0x7 0xf0 value, octet 12 0x3f 0x80 value, octet 6 0x3f 0x80 value, octet 0 0x3f 0x80 value]
        else if value < 0x4000000 then
          out 5 [octet 24 0x3 0xf8 value, octet 18 0x3f 0x80 value, octet 12 0x3f 0x80 value,
                 octet 6 0x3f 0x80 value, octet 0 0x3f 0x80 value]
        else
          out 6 [octet 30 0x1 0xfc value, octet 24 0x3f 0x80 value, octet 18 0x3f 0x80 value,
                 octet 12 0x3f 0x80 value, octet 6 0x3f 0x80 value, octet 0 0x3f 0x80 value])"

subsection \<open>Bytes and pieces\<close>

lemma high_masks:
  "(0x80 :: byte) = NOT (mask 7)" "(0xc0 :: byte) = NOT (mask 6)" "(0xe0 :: byte) = NOT (mask 5)"
  "(0xf0 :: byte) = NOT (mask 4)" "(0xf8 :: byte) = NOT (mask 3)" "(0xfc :: byte) = NOT (mask 2)"
  "(0xfe :: byte) = NOT (mask 1)"
  by (simp_all add: mask_eq_exp_minus_1)

lemma prefix_bits:
  "m = NOT (mask k) \<Longrightarrow> unat c = q * 2 ^ k \<Longrightarrow> (b :: byte) AND m = c \<longleftrightarrow> q * 2 ^ k \<le> unat b \<and> unat b < (q + 1) * 2 ^ k"
  unfolding word_unat_eq_iff by (simp add: high_bits div_is flip: word_unat_eq_iff)

lemma lead_ranges:
  fixes b :: byte
  shows "b AND 0x80 = 0 \<longleftrightarrow> unat b < 128"
    "b AND 0xc0 = 0x80 \<longleftrightarrow> 128 \<le> unat b \<and> unat b < 192"
    "b AND 0xe0 = 0xc0 \<longleftrightarrow> 192 \<le> unat b \<and> unat b < 224"
    "b AND 0xf0 = 0xe0 \<longleftrightarrow> 224 \<le> unat b \<and> unat b < 240"
    "b AND 0xf8 = 0xf0 \<longleftrightarrow> 240 \<le> unat b \<and> unat b < 248"
    "b AND 0xfc = 0xf8 \<longleftrightarrow> 248 \<le> unat b \<and> unat b < 252"
    "b AND 0xfe = 0xfc \<longleftrightarrow> 252 \<le> unat b \<and> unat b < 254"
  using prefix_bits [OF high_masks(1), of 0 0 b] prefix_bits [OF high_masks(2), of "0x80" 2 b]
    prefix_bits [OF high_masks(3), of "0xc0" 6 b] prefix_bits [OF high_masks(4), of "0xe0" 14 b]
    prefix_bits [OF high_masks(5), of "0xf0" 30 b] prefix_bits [OF high_masks(6), of "0xf8" 62 b]
    prefix_bits [OF high_masks(7), of "0xfc" 126 b]
  by simp_all

lemma low_masks:
  "(0x7f :: byte) = mask 7" "(0x3f :: byte) = mask 6" "(0x1f :: byte) = mask 5" "(0xf :: byte) = mask 4"
  "(0x7 :: byte) = mask 3" "(0x3 :: byte) = mask 2" "(0x1 :: byte) = mask 1"
  by (simp_all add: mask_eq_exp_minus_1)

text \<open>The encoding as arithmetic: how long, the first byte and the bytes that follow.\<close>

definition utf8_len :: "nat \<Rightarrow> nat" where
  "utf8_len v = (if v < 0x80 then 1 else if v < 0x800 then 2 else if v < 0x10000 then 3
     else if v < 0x200000 then 4 else if v < 0x4000000 then 5 else 6)"

definition utf8_lead :: "nat \<Rightarrow> nat" where
  "utf8_lead n = (if n = 1 then 0 else if n = 2 then 192 else if n = 3 then 224 else if n = 4 then 240
     else if n = 5 then 248 else 252)"

fun utf8_trail :: "nat \<Rightarrow> nat \<Rightarrow> byte list" where
  "utf8_trail 0 v = []"
| "utf8_trail (Suc k) v = utf8_trail k (v div 64) @ [word_of_nat (128 + v mod 64)]"

definition utf8_encode :: "nat \<Rightarrow> byte list" where
  "utf8_encode v =
     (let n = utf8_len v in word_of_nat (utf8_lead n + v div 64 ^ (n - 1)) # utf8_trail (n - 1) v)"

text \<open>The length that a first byte announces, 0 if it cannot start a character.\<close>

definition seq_len :: "nat \<Rightarrow> nat" where
  "seq_len b = (if b < 128 then 1 else if b < 192 then 0 else if b < 224 then 2 else if b < 240 then 3
     else if b < 248 then 4 else if b < 252 then 5 else if b < 254 then 6 else 0)"

fun join :: "nat \<Rightarrow> byte list \<Rightarrow> nat" where
  "join l [] = l"
| "join l (b # bs) = join (64 * l + unat b mod 64) bs"

lemma join_snoc [simp]: "join l (bs @ [b]) = 64 * join l bs + unat b mod 64"
  by (induction l bs rule: join.induct) simp_all

lemma utf8_trail_length [simp]: "length (utf8_trail k v) = k"
  by (induction k v rule: utf8_trail.induct) simp_all

lemma byte_of_trail: "unat (word_of_nat (128 + v mod 64) :: byte) = 128 + v mod 64"
  by (simp add: unat_of_nat take_bit_eq_mod del: of_nat_add)

lemma mod_six: "(128 + x) mod 64 = x mod (64 :: nat)"
  using mod_mult_self2 [of x 64 2] by (simp add: add.commute)

lemma join_utf8_trail: "join (v div 64 ^ k) (utf8_trail k v) = v"
proof (induction k v rule: utf8_trail.induct)
  case (2 k v)
  have "join (v div 64 ^ Suc k) (utf8_trail k (v div 64)) = v div 64"
    using 2 by (simp add: div_mult2_eq)
  then show ?case by (simp add: byte_of_trail mod_six del: of_nat_add)
qed simp

lemma utf8_trail_join:
  "\<forall>b \<in> set bs. 128 \<le> unat b \<and> unat b < 192 \<Longrightarrow> utf8_trail (length bs) (join l bs) = bs \<and> join l bs div 64 ^ length bs = l"
proof (induction bs rule: rev_induct)
  case (snoc b bs)
  obtain c where c: "unat b = 128 + c" "c < 64"
    using snoc.prems le_Suc_ex [of 128 "unat b"] by auto
  then have "unat b = 128 + unat b mod 64" by (simp add: mod_six)
  then have "word_of_nat (128 + unat b mod 64) = (word_of_nat (unat b) :: byte)" by (simp only:)
  then have "word_of_nat (128 + unat b mod 64) = b" by simp
  then show ?case using snoc by (simp add: div_mult2_eq)
qed simp

lemma utf8_trail_bytes: "b \<in> set (utf8_trail k v) \<Longrightarrow> 128 \<le> unat b \<and> unat b < 192"
  by (induction k v rule: utf8_trail.induct) (auto simp: byte_of_trail simp del: of_nat_add)

subsection \<open>Reading is the inverse of the encoding\<close>

lemma unat_six: "unat (six b) = unat b mod 64"
proof -
  have "unat (b AND 0x3f) = unat b mod 64" unfolding low_masks low_bits by simp
  then show ?thesis by (simp add: six_def unsigned_ucast_eq take_bit_nat_eq_self)
qed

lemma unat_ucast_low: "unat (ucast ((b :: byte) AND mask k) :: u64) = unat b mod 2 ^ k"
proof -
  have "unat b mod 2 ^ k < 256" by (rule le_less_trans [OF mod_less_eq_dividend byte_less])
  then have "unat b mod 2 ^ k < 2 ^ 64" by simp
  then show ?thesis by (simp add: unsigned_ucast_eq take_bit_nat_eq_self low_bits del: mask_numeral)
qed

text \<open>The five forms with trailing bytes are one function of the first byte and the bytes that follow.\<close>

definition utf8_min :: "nat \<Rightarrow> nat" where
  "utf8_min n = (if n = 2 then 0x80 else if n = 3 then 0x800 else if n = 4 then 0x10000
     else if n = 5 then 0x200000 else 0x4000000)"

lemma six_less: "unat (six b) < 2 ^ 6"
  by (simp add: unat_six)

lemma joins:
  assumes "unat a < 2 ^ 6"
  shows "unat (push_bit 6 a OR six b) = join (unat a) [b] \<and> join (unat a) [b] < 2 ^ 12"
    "unat (push_bit 12 a OR push_bit 6 (six b) OR six c) = join (unat a) [b, c] \<and> join (unat a) [b, c] < 2 ^ 18"
    "unat (push_bit 18 a OR push_bit 12 (six b) OR push_bit 6 (six c) OR six d) = join (unat a) [b, c, d] \<and>
       join (unat a) [b, c, d] < 2 ^ 24"
    "unat (push_bit 24 a OR push_bit 18 (six b) OR push_bit 12 (six c) OR push_bit 6 (six d) OR six e) =
       join (unat a) [b, c, d, e] \<and> join (unat a) [b, c, d, e] < 2 ^ 30"
    "unat (push_bit 30 a OR push_bit 24 (six b) OR push_bit 18 (six c) OR push_bit 12 (six d) OR push_bit 6 (six e) OR six f) =
       join (unat a) [b, c, d, e, f] \<and> join (unat a) [b, c, d, e, f] < 2 ^ 36"
proof -
  have 1: "unat (push_bit 6 a OR six b) = join (unat a) [b] \<and> join (unat a) [b] < 2 ^ 12" if "unat a < 2 ^ 6" for a b
    using or_value [OF that six_less, of b] by (simp add: unat_six mult.commute)
  have 2: "unat (push_bit 12 a OR push_bit 6 (six b) OR six c) = join (unat a) [b, c] \<and> join (unat a) [b, c] < 2 ^ 18"
    if "unat a < 2 ^ 6" for a b c
    using or_value [OF that, of "push_bit 6 (six b) OR six c" 12] 1 [OF six_less, of b c] by (simp add: unat_six mult.commute)
  have 3: "unat (push_bit 18 a OR push_bit 12 (six b) OR push_bit 6 (six c) OR six d) = join (unat a) [b, c, d] \<and>
       join (unat a) [b, c, d] < 2 ^ 24" if "unat a < 2 ^ 6" for a b c d
    using or_value [OF that, of "push_bit 12 (six b) OR push_bit 6 (six c) OR six d" 18] 2 [OF six_less, of b c d]
    by (simp add: unat_six mult.commute)
  have 4: "unat (push_bit 24 a OR push_bit 18 (six b) OR push_bit 12 (six c) OR push_bit 6 (six d) OR six e) =
       join (unat a) [b, c, d, e] \<and> join (unat a) [b, c, d, e] < 2 ^ 30" if "unat a < 2 ^ 6" for a b c d e
    using or_value [OF that, of "push_bit 18 (six b) OR push_bit 12 (six c) OR push_bit 6 (six d) OR six e" 24]
      3 [OF six_less, of b c d e] by (simp add: unat_six mult.commute)
  have 5: "unat (push_bit 30 a OR push_bit 24 (six b) OR push_bit 18 (six c) OR push_bit 12 (six d) OR push_bit 6 (six e) OR six f) =
       join (unat a) [b, c, d, e, f] \<and> join (unat a) [b, c, d, e, f] < 2 ^ 36" if "unat a < 2 ^ 6" for a b c d e f
    using or_value [OF that, of "push_bit 24 (six b) OR push_bit 18 (six c) OR push_bit 12 (six d) OR push_bit 6 (six e) OR six f" 30]
      4 [OF six_less, of b c d e f] by (simp add: unat_six mult.commute)
  show "unat (push_bit 6 a OR six b) = join (unat a) [b] \<and> join (unat a) [b] < 2 ^ 12" by (rule 1 [OF assms])
  show "unat (push_bit 12 a OR push_bit 6 (six b) OR six c) = join (unat a) [b, c] \<and> join (unat a) [b, c] < 2 ^ 18"
    by (rule 2 [OF assms])
  show "unat (push_bit 18 a OR push_bit 12 (six b) OR push_bit 6 (six c) OR six d) = join (unat a) [b, c, d] \<and>
       join (unat a) [b, c, d] < 2 ^ 24" by (rule 3 [OF assms])
  show "unat (push_bit 24 a OR push_bit 18 (six b) OR push_bit 12 (six c) OR push_bit 6 (six d) OR six e) =
       join (unat a) [b, c, d, e] \<and> join (unat a) [b, c, d, e] < 2 ^ 30" by (rule 4 [OF assms])
  show "unat (push_bit 30 a OR push_bit 24 (six b) OR push_bit 18 (six c) OR push_bit 12 (six d) OR push_bit 6 (six e) OR six f) =
       join (unat a) [b, c, d, e, f] \<and> join (unat a) [b, c, d, e, f] < 2 ^ 36" by (rule 5 [OF assms])
qed

lemma joined:
  assumes "unat (w :: u64) = j \<and> k"
  shows "word_of_nat j = w" and "j < m' \<longleftrightarrow> unat w < m'"
  using assms by auto

lemma UTF8_getc_eq:
  assumes "0 < len"
  shows "UTF8_getc p len =
    (let n = seq_len (unat (p ! 0)); bs = map (\<lambda>i. p ! i) [1..<n]; v = join (unat (p ! 0) - utf8_lead n) bs in
     if n = 0 then Utf8_Error (- 2)
     else if n = 1 then Utf8_Char (ucast (p ! 0)) 1
     else if len < int n then Utf8_Error (- 1)
     else if \<not> (\<forall>b \<in> set bs. 128 \<le> unat b \<and> unat b < 192) then Utf8_Error (- 3)
     else if v < utf8_min n then Utf8_Error (- 4) else Utf8_Char (word_of_nat v) n)"
proof -
  define u where "u = unat (p ! 0)"
  have u: "u < 256" using byte_less by (simp add: u_def)
  have lead: "unat (ucast (p ! 0 AND m) :: u64) = u - c * 2 ^ k \<and> u - c * 2 ^ k < 2 ^ 6"
    if "c * 2 ^ k \<le> u" "u < (c + 1) * 2 ^ k" "m = mask k" "k \<le> 6" for m k c
  proof -
    define r where "r = u - c * 2 ^ k"
    have r: "u = r + c * 2 ^ k" using that(1) by (simp add: r_def)
    then have "r < 2 ^ k" using that(2) by simp
    moreover have "(2 :: nat) ^ k \<le> 2 ^ 6" by (rule power_increasing [OF that(4)]) simp
    ultimately show ?thesis
      unfolding that(3) unat_ucast_low u_def [symmetric] by (simp add: r)
  qed
  have upt: "[Suc 0..<2] = [1]" "[Suc 0..<3] = [1, 2]" "[Suc 0..<4] = [1, 2, 3]" "[Suc 0..<5] = [1, 2, 3, 4]"
    "[Suc 0..<6] = [1, 2, 3, 4, 5]"
    by (simp_all add: upt_rec)
  consider "u < 128" | "128 \<le> u" "u < 192" | "192 \<le> u" "u < 224" | "224 \<le> u" "u < 240" | "240 \<le> u" "u < 248"
    | "248 \<le> u" "u < 252" | "252 \<le> u" "u < 254" | "254 \<le> u" by linarith
  then show ?thesis
  proof cases
    case 1
    have "p ! 0 AND 0x7f = p ! 0"
      by (rule unsigned_word_eqI [where 'a = nat]) (use 1 in \<open>simp add: low_masks low_bits u_def del: mask_numeral\<close>)
    then show ?thesis using 1 assms by (simp add: UTF8_getc_def lead_ranges seq_len_def u_def)
  next
    case 2
    then show ?thesis using assms by (simp add: UTF8_getc_def lead_ranges seq_len_def u_def)
  next
    case 3
    then have l: "unat (ucast (p ! 0 AND 0x1f) :: u64) = u - 192" "unat (ucast (p ! 0 AND 0x1f) :: u64) < 2 ^ 6"
      using lead [of 6 5 "0x1f"] low_masks(3) by auto
    have n: "seq_len u = 2" "utf8_lead 2 = 192" "utf8_min 2 = 0x80" using 3 by (simp_all add: seq_len_def utf8_lead_def utf8_min_def)
    have "\<not> p ! 0 AND 0x80 = 0" and "p ! 0 AND 0xe0 = 0xc0"
      using 3 by (simp_all add: lead_ranges u_def)
    then show ?thesis
      unfolding u_def [symmetric] n Let_def UTF8_getc_def using assms
      joined(1) [OF joins(1) [OF l(2)], unfolded l(1)]
        joined(2) [where m' = "0x80", OF joins(1) [OF l(2)], unfolded l(1)]
      by (simp add: lead_ranges upt word_less_nat_alt del: join.simps)
  next
    case 4
    then have l: "unat (ucast (p ! 0 AND 0xf) :: u64) = u - 224" "unat (ucast (p ! 0 AND 0xf) :: u64) < 2 ^ 6"
      using lead [of 14 4 "0xf"] low_masks(4) by auto
    have n: "seq_len u = 3" "utf8_lead 3 = 224" "utf8_min 3 = 0x800" using 4 by (simp_all add: seq_len_def utf8_lead_def utf8_min_def)
    have "\<not> p ! 0 AND 0x80 = 0" and "\<not> p ! 0 AND 0xe0 = 0xc0" and "p ! 0 AND 0xf0 = 0xe0"
      using 4 by (simp_all add: lead_ranges u_def)
    then show ?thesis
      unfolding u_def [symmetric] n Let_def UTF8_getc_def using assms
      joined(1) [OF joins(2) [OF l(2)], unfolded l(1)]
        joined(2) [where m' = "0x800", OF joins(2) [OF l(2)], unfolded l(1)]
      by (simp add: lead_ranges upt word_less_nat_alt del: join.simps)
  next
    case 5
    then have l: "unat (ucast (p ! 0 AND 0x7) :: u64) = u - 240" "unat (ucast (p ! 0 AND 0x7) :: u64) < 2 ^ 6"
      using lead [of 30 3 "0x7"] low_masks(5) by auto
    have n: "seq_len u = 4" "utf8_lead 4 = 240" "utf8_min 4 = 0x10000" using 5 by (simp_all add: seq_len_def utf8_lead_def utf8_min_def)
    have "\<not> p ! 0 AND 0x80 = 0" and "\<not> p ! 0 AND 0xe0 = 0xc0" and "\<not> p ! 0 AND 0xf0 = 0xe0" and "p ! 0 AND 0xf8 = 0xf0"
      using 5 by (simp_all add: lead_ranges u_def)
    then show ?thesis
      unfolding u_def [symmetric] n Let_def UTF8_getc_def using assms
      joined(1) [OF joins(3) [OF l(2)], unfolded l(1)]
        joined(2) [where m' = "0x10000", OF joins(3) [OF l(2)], unfolded l(1)]
      by (simp add: lead_ranges upt word_less_nat_alt del: join.simps)
  next
    case 6
    then have l: "unat (ucast (p ! 0 AND 0x3) :: u64) = u - 248" "unat (ucast (p ! 0 AND 0x3) :: u64) < 2 ^ 6"
      using lead [of 62 2 "0x3"] low_masks(6) by auto
    have n: "seq_len u = 5" "utf8_lead 5 = 248" "utf8_min 5 = 0x200000" using 6 by (simp_all add: seq_len_def utf8_lead_def utf8_min_def)
    have "\<not> p ! 0 AND 0x80 = 0" and "\<not> p ! 0 AND 0xe0 = 0xc0" and "\<not> p ! 0 AND 0xf0 = 0xe0" and "\<not> p ! 0 AND 0xf8 = 0xf0" and "p ! 0 AND 0xfc = 0xf8"
      using 6 by (simp_all add: lead_ranges u_def)
    then show ?thesis
      unfolding u_def [symmetric] n Let_def UTF8_getc_def using assms
      joined(1) [OF joins(4) [OF l(2)], unfolded l(1)]
        joined(2) [where m' = "0x200000", OF joins(4) [OF l(2)], unfolded l(1)]
      by (simp add: lead_ranges upt word_less_nat_alt del: join.simps)
  next
    case 7
    then have l: "unat (ucast (p ! 0 AND 0x1) :: u64) = u - 252" "unat (ucast (p ! 0 AND 0x1) :: u64) < 2 ^ 6"
      using lead [of 126 1 "0x1"] low_masks(7) by auto
    have n: "seq_len u = 6" "utf8_lead 6 = 252" "utf8_min 6 = 0x4000000" using 7 by (simp_all add: seq_len_def utf8_lead_def utf8_min_def)
    have "\<not> p ! 0 AND 0x80 = 0" and "\<not> p ! 0 AND 0xe0 = 0xc0" and "\<not> p ! 0 AND 0xf0 = 0xe0" and "\<not> p ! 0 AND 0xf8 = 0xf0" and "\<not> p ! 0 AND 0xfc = 0xf8" and "p ! 0 AND 0xfe = 0xfc"
      using 7 by (simp_all add: lead_ranges u_def)
    then show ?thesis
      unfolding u_def [symmetric] n Let_def UTF8_getc_def using assms
      joined(1) [OF joins(5) [OF l(2)], unfolded l(1)]
        joined(2) [where m' = "0x4000000", OF joins(5) [OF l(2)], unfolded l(1)]
      by (simp add: lead_ranges upt word_less_nat_alt del: join.simps)
  next
    case 8
    then show ?thesis using assms by (simp add: UTF8_getc_def lead_ranges seq_len_def u_def)
  qed
qed

lemma two_to_six: "2 \<le> n \<Longrightarrow> n \<le> 6 \<Longrightarrow> n = 2 \<or> n = 3 \<or> n = 4 \<or> n = 5 \<or> n = (6 :: nat)"
  by linarith

lemma seq_len_lead: "2 \<le> n \<Longrightarrow> n \<le> 6 \<Longrightarrow> q < 2 ^ (7 - n) \<Longrightarrow> seq_len (utf8_lead n + q) = n \<and> utf8_lead n + q < 256"
  by (drule (1) two_to_six) (auto simp: seq_len_def utf8_lead_def)

lemma seq_len_inv: "seq_len u = n \<Longrightarrow> 2 \<le> n \<Longrightarrow> n \<le> 6 \<and> utf8_lead n \<le> u \<and> u - utf8_lead n < 2 ^ (7 - n)"
  by (auto simp: seq_len_def utf8_lead_def split: if_splits)

lemma utf8_len_iff:
  "2 \<le> n \<Longrightarrow> n \<le> 6 \<Longrightarrow> utf8_len v = n \<and> v < 2 ^ 31 \<longleftrightarrow> utf8_min n \<le> v \<and> v div 64 ^ (n - 1) < 2 ^ (7 - n)"
  by (drule (1) two_to_six) (auto simp: utf8_len_def utf8_min_def div_less_iff_less_mult)

lemma utf8_len_range: "1 \<le> utf8_len v \<and> utf8_len v \<le> 6"
  by (simp add: utf8_len_def)

lemma take_first: "1 \<le> n \<Longrightarrow> n \<le> length p \<Longrightarrow> take n p = p ! 0 # map (\<lambda>i. p ! i) [1..<n]"
  by (rule nth_equalityI) (auto simp: nth_Cons')

lemma getc_char_iff:
  "\<lbrakk>0 < len; len \<le> int (length p)\<rbrakk> \<Longrightarrow>
   UTF8_getc p len = Utf8_Char w n \<longleftrightarrow>
     unat w < 2 ^ 31 \<and> n = utf8_len (unat w) \<and> int n \<le> len \<and> take n p = utf8_encode (unat w)"
proof -
  assume len: "0 < len" "len \<le> int (length p)"
  define u N bs where "u = unat (p ! 0)" "N = seq_len u" "bs = map (\<lambda>i. p ! i) [1..<N]"
  define v where "v = join (u - utf8_lead N) bs"
  note defs = u_N_bs_def v_def
  have g: "UTF8_getc p len = (if N = 0 then Utf8_Error (- 2) else if N = 1 then Utf8_Char (ucast (p ! 0)) 1
     else if len < int N then Utf8_Error (- 1)
     else if \<not> (\<forall>b \<in> set bs. 128 \<le> unat b \<and> unat b < 192) then Utf8_Error (- 3)
     else if v < utf8_min N then Utf8_Error (- 4) else Utf8_Char (word_of_nat v) N)"
    unfolding UTF8_getc_eq [OF len(1)] defs Let_def ..
  have p0: "p ! 0 = word_of_nat u" by (simp add: u_N_bs_def)
  have u1: "N = 1 \<longleftrightarrow> u < 128" by (simp add: u_N_bs_def seq_len_def)
  have w1: "unat (ucast (p ! 0) :: u64) = u"
    using byte_less [of "p ! 0"] by (simp add: u_N_bs_def unsigned_ucast_eq take_bit_nat_eq_self)
  show ?thesis
  proof
    assume r: "UTF8_getc p len = Utf8_Char w n"
    show "unat w < 2 ^ 31 \<and> n = utf8_len (unat w) \<and> int n \<le> len \<and> take n p = utf8_encode (unat w)"
    proof (cases "N = 1")
      case True
      then have "w = ucast (p ! 0)" "n = 1" "u < 128" using r g u1 by auto
      then show ?thesis using len w1 take_first [of 1 p] by (simp add: utf8_len_def utf8_encode_def utf8_lead_def p0)
    next
      case False
      then have h: "2 \<le> N" "int N \<le> len" "\<forall>b \<in> set bs. 128 \<le> unat b \<and> unat b < 192" "utf8_min N \<le> v"
        "w = word_of_nat v" "n = N"
        using r g by (auto split: if_splits)
      have s: "N \<le> 6" "utf8_lead N \<le> u" "u - utf8_lead N < 2 ^ (7 - N)"
        using seq_len_inv [of u N] h(1) by (simp_all add: u_N_bs_def)
      have lb: "length bs = N - 1" by (simp add: u_N_bs_def)
      have j: "utf8_trail (N - 1) v = bs" "v div 64 ^ (N - 1) = u - utf8_lead N"
        using utf8_trail_join [OF h(3), of "u - utf8_lead N"] lb by (simp_all add: v_def)
      have l: "utf8_len v = N" "v < 2 ^ 31" using utf8_len_iff [OF h(1) s(1), of v] h(4) j(2) s(3) by auto
      then have vw: "unat w = v" by (simp add: h(5) unat_of_nat take_bit_nat_eq_self)
      have "take N p = p ! 0 # bs" using take_first [of N p] h(1,2) len by (simp add: u_N_bs_def)
      then show ?thesis using l j s(2) h(2,6) by (simp add: vw utf8_encode_def Let_def p0)
    qed
  next
    assume r: "unat w < 2 ^ 31 \<and> n = utf8_len (unat w) \<and> int n \<le> len \<and> take n p = utf8_encode (unat w)"
    define x where "x = unat w"
    have n: "1 \<le> n" "n \<le> 6" "n \<le> length p" "n = utf8_len x" using r utf8_len_range [of x] len by (auto simp: x_def)
    have t: "p ! 0 = word_of_nat (utf8_lead n + x div 64 ^ (n - 1))" "map (\<lambda>i. p ! i) [1..<n] = utf8_trail (n - 1) x"
      using r take_first [OF n(1,3)] by (auto simp: utf8_encode_def Let_def x_def)
    show "UTF8_getc p len = Utf8_Char w n"
    proof (cases "n = 1")
      case True
      then have "utf8_len x = 1" using n(4) by simp
      then have "x < 128" by (simp add: utf8_len_def split: if_splits)
      then have "u = x" using t(1) True by (simp add: u_N_bs_def utf8_lead_def unat_of_nat take_bit_nat_eq_self)
      then have "N = 1" "ucast (p ! 0) = w" using u1 \<open>x < 128\<close> w1 by (auto simp: x_def intro: unsigned_word_eqI)
      then show ?thesis using g True by simp
    next
      case False
      then have n2: "2 \<le> n" using n(1) by simp
      have q: "utf8_min n \<le> x" "x div 64 ^ (n - 1) < 2 ^ (7 - n)"
        using utf8_len_iff [OF n2 n(2), of x] r n(4) by (auto simp: x_def)
      have s: "seq_len (utf8_lead n + x div 64 ^ (n - 1)) = n" "utf8_lead n + x div 64 ^ (n - 1) < 256"
        using seq_len_lead [OF n2 n(2) q(2)] by auto
      have u: "u = utf8_lead n + x div 64 ^ (n - 1)"
        using s(2) t(1) by (simp add: u_N_bs_def unat_of_nat take_bit_nat_eq_self del: of_nat_add)
      have N: "N = n" "bs = utf8_trail (n - 1) x" unfolding u_N_bs_def(2,3) u s(1) t(2) by (rule refl)+
      have v: "v = x" using join_utf8_trail [of x "n - 1"] by (simp add: v_def u N)
      have "\<forall>b \<in> set (utf8_trail (n - 1) x). 128 \<le> unat b \<and> unat b < 192" using utf8_trail_bytes by blast
      moreover have "n \<noteq> 0" "n \<noteq> 1" "\<not> len < int n" "\<not> x < utf8_min n" "word_of_nat x = w"
        using n2 r q(1) by (simp_all add: x_def)
      ultimately show ?thesis unfolding g N v by simp
    qed
  qed
qed

lemma utf8_trail_numeral [simp]:
  "utf8_trail (numeral k) v = utf8_trail (pred_numeral k) (v div 64) @ [word_of_nat (128 + v mod 64)]"
  by (simp only: numeral_eq_Suc [of k] utf8_trail.simps)

text \<open>
  C18: A character is read exactly when the input starts with the shortest encoding of a value
  below 2^31, and then with its length: no byte sequence encodes two values, no value has
  two encodings.
\<close>

theorem UTF8_getc_iff:
  "\<lbrakk>0 < len; len \<le> int (length p)\<rbrakk> \<Longrightarrow>
   UTF8_getc p len = Utf8_Char w n \<longleftrightarrow>
     unat w < 2 ^ 31 \<and> n = utf8_len (unat w) \<and> int n \<le> len \<and> take n p = utf8_encode (unat w)"
  by (rule getc_char_iff)

lemma UTF8_getc_iff_witness: "UTF8_getc [0xE2, 0x82, 0xAC] 3 = Utf8_Char 0x20AC 3"
proof -
  have e: "utf8_encode 0x20AC = [0xE2, 0x82, 0xAC]" by (simp add: utf8_encode_def utf8_len_def utf8_lead_def)
  have u: "unat (0x20AC :: u64) = 0x20AC" by simp
  have l: "utf8_len 0x20AC = 3" by (simp add: utf8_len_def)
  show ?thesis by (rule UTF8_getc_iff [THEN iffD2]) (simp_all only: u e l, simp_all)
qed

subsection \<open>Writing is the encoding\<close>

lemma octet_value:
  assumes "m = mask k" "unat t = T" "T mod 2 ^ k = 0" "T + 2 ^ k \<le> 256"
  shows "octet n m t v = word_of_nat (T + unat v div 2 ^ n mod 2 ^ k)"
proof -
  have a: "unat (drop_bit n v AND m) = unat v div 2 ^ n mod 2 ^ k"
    unfolding assms(1) take_bit_eq_mask [symmetric] unsigned_take_bit_eq unat_drop_bit_eq
    by (simp add: take_bit_eq_mod drop_bit_eq_div)
  have "unat (take_bit k t) = 0" unfolding unsigned_take_bit_eq using assms(2,3) by (simp add: take_bit_eq_mod)
  then have z: "take_bit k t = 0" by (simp only: unat_eq_zero)
  have "drop_bit n v AND m AND t = take_bit k (drop_bit n v) AND take_bit k t"
    unfolding assms(1) take_bit_eq_mask by (rule bit_word_eqI) (auto simp: bit_simps)
  then have "drop_bit n v AND m AND t = 0" using z by simp
  then have "drop_bit n v AND m OR t = (drop_bit n v AND m) + t"
    by (intro disjunctive_add_eq_or [symmetric]) (simp add: and.assoc)
  moreover have un: "unat ((drop_bit n v AND m) + t) = T + unat v div 2 ^ n mod 2 ^ k"
  proof -
    have "unat v div 2 ^ n mod 2 ^ k < 2 ^ k" by simp
    then have "unat v div 2 ^ n mod 2 ^ k + T < 256" using assms(4) by linarith
    then have "unat v div 2 ^ n mod 2 ^ k + T < 2 ^ 64" by simp
    then show ?thesis by (simp add: unat_word_ariths a assms(2))
  qed
  from arg_cong [OF un, of "word_of_nat :: nat \<Rightarrow> u64"]
  have "(drop_bit n v AND m) + t = word_of_nat (T + unat v div 2 ^ n mod 2 ^ k)" by simp
  ultimately have "octet n m t v = ucast (word_of_nat (T + unat v div 2 ^ n mod 2 ^ k) :: u64)"
    by (simp only: octet_def)
  moreover have "ucast (word_of_nat x :: u64) = (word_of_nat x :: byte)" for x
    by (rule unsigned_word_eqI [where 'a = nat]) (simp add: unsigned_ucast_eq unsigned_of_nat)
  ultimately show ?thesis by (simp only:)
qed

lemma mask_words:
  "(0x3f :: u64) = mask 6" "(0x1f :: u64) = mask 5" "(0xf :: u64) = mask 4" "(0x7 :: u64) = mask 3"
  "(0x3 :: u64) = mask 2" "(0x1 :: u64) = mask 1"
  by (simp_all add: mask_eq_exp_minus_1)

lemma octets:
  "octet n 0x3f 0x80 v = word_of_nat (128 + unat v div 2 ^ n mod 64)"
  "octet n 0x1f 0xc0 v = word_of_nat (192 + unat v div 2 ^ n mod 32)"
  "octet n 0xf 0xe0 v = word_of_nat (224 + unat v div 2 ^ n mod 16)"
  "octet n 0x7 0xf0 v = word_of_nat (240 + unat v div 2 ^ n mod 8)"
  "octet n 0x3 0xf8 v = word_of_nat (248 + unat v div 2 ^ n mod 4)"
  "octet n 0x1 0xfc v = word_of_nat (252 + unat v div 2 ^ n mod 2)"
  using octet_value [OF mask_words(1), of "0x80" 128] octet_value [OF mask_words(2), of "0xc0" 192]
    octet_value [OF mask_words(3), of "0xe0" 224] octet_value [OF mask_words(4), of "0xf0" 240]
    octet_value [OF mask_words(5), of "0xf8" 248] octet_value [OF mask_words(6), of "0xfc" 252]
  by simp_all

text \<open>Writing gives the encoding when it fits into the buffer, and its length without one.\<close>

theorem UTF8_putc_eq:
  "unat v < 2 ^ 31 \<Longrightarrow>
   UTF8_putc str len v =
     (if str \<and> len < int (utf8_len (unat v)) then (- 1, [])
      else (int (utf8_len (unat v)), if str then utf8_encode (unat v) else []))"
proof -
  define x where "x = unat v"
  assume "unat v < 2 ^ 31"
  then have x31: "x < 2147483648" by (simp add: x_def)
  have one: "(ucast v :: byte) = word_of_nat x"
    by (rule unsigned_word_eqI [where 'a = nat]) (simp add: unsigned_ucast_eq unsigned_of_nat x_def)
  have dd: "x div 64 div 64 = x div 4096" "x div 4096 div 64 = x div 262144" "x div 262144 div 64 = x div 16777216"
    by (simp_all flip: div_mult2_eq)
  note oc = octets [of _ v, folded x_def]
  consider "x < 0x80" | "0x80 \<le> x" "x < 0x800" | "0x800 \<le> x" "x < 0x10000" | "0x10000 \<le> x" "x < 0x200000"
    | "0x200000 \<le> x" "x < 0x4000000" | "0x4000000 \<le> x" by linarith
  then show ?thesis
  proof cases
    case 1
    then show ?thesis by (simp add: UTF8_putc_def word_less_nat_alt x_def [symmetric] utf8_len_def utf8_encode_def utf8_lead_def one)
  next
    case 2
    then have "x div 64 mod 32 = x div 64" by simp
    then show ?thesis using 2
      by (simp add: UTF8_putc_def word_less_nat_alt x_def [symmetric] oc dd utf8_len_def utf8_encode_def utf8_lead_def Let_def del: of_nat_add)
  next
    case 3
    then have "x div 4096 mod 16 = x div 4096" by simp
    then show ?thesis using 3
      by (simp add: UTF8_putc_def word_less_nat_alt x_def [symmetric] oc dd utf8_len_def utf8_encode_def utf8_lead_def Let_def del: of_nat_add)
  next
    case 4
    then have "x div 262144 mod 8 = x div 262144" by simp
    then show ?thesis using 4
      by (simp add: UTF8_putc_def word_less_nat_alt x_def [symmetric] oc dd utf8_len_def utf8_encode_def utf8_lead_def Let_def del: of_nat_add)
  next
    case 5
    then have "x div 16777216 mod 4 = x div 16777216" by simp
    then show ?thesis using 5
      by (simp add: UTF8_putc_def word_less_nat_alt x_def [symmetric] oc dd utf8_len_def utf8_encode_def utf8_lead_def Let_def del: of_nat_add)
  next
    case 6
    then have "x div 1073741824 mod 2 = x div 1073741824" using x31 by simp
    then show ?thesis using 6
      by (simp add: UTF8_putc_def word_less_nat_alt x_def [symmetric] oc dd utf8_len_def utf8_encode_def utf8_lead_def Let_def del: of_nat_add)
  qed
qed

lemma UTF8_putc_eq_witness: "snd (UTF8_putc True 6 0x20AC) = utf8_encode 0x20AC"
  using UTF8_putc_eq [of "0x20AC" True 6] by (simp add: utf8_len_def)

text \<open>What is written is read back exactly when the value is below 2^31; above, bits are lost.\<close>

lemma putc_length: "UTF8_putc True len v = (n, bs) \<Longrightarrow> 0 < n \<Longrightarrow> n \<le> len \<and> length bs = nat n"
  by (auto simp: UTF8_putc_def Let_def split: if_splits)

theorem UTF8_round_trip:
  "\<lbrakk>UTF8_putc True len v = (n, bs); 0 < n\<rbrakk> \<Longrightarrow>
   UTF8_getc (bs @ q) (int (length (bs @ q))) = Utf8_Char v (nat n) \<longleftrightarrow> unat v < 2 ^ 31"
proof -
  assume p: "UTF8_putc True len v = (n, bs)" "0 < n"
  note l = putc_length [OF p]
  have c: "UTF8_getc (bs @ q) (int (length (bs @ q))) = Utf8_Char v (nat n) \<longleftrightarrow>
      unat v < 2 ^ 31 \<and> nat n = utf8_len (unat v) \<and> int (nat n) \<le> int (length (bs @ q)) \<and>
      take (nat n) (bs @ q) = utf8_encode (unat v)"
    using l p(2) by (intro getc_char_iff) auto
  show ?thesis
  proof (cases "unat v < 2 ^ 31")
    case True
    then have "n = int (utf8_len (unat v))" "bs = utf8_encode (unat v)"
      using UTF8_putc_eq [of v True len] p by (auto split: if_splits)
    then show ?thesis unfolding c using l by simp
  next
    case False
    then show ?thesis unfolding c by simp
  qed
qed

lemma UTF8_round_trip_witness: "UTF8_getc [0x41, 0x42] 2 = Utf8_Char 0x41 1"
  using UTF8_round_trip [of 6 "0x41" 1 "[0x41]" "[0x42]"] by (simp add: UTF8_putc_def)

end
