(* ===== verification/Base64.thy ===== *)
theory Base64
  imports Byte_Words
begin

text \<open>
  Base64 (crypto/evp/encode.c): the block functions and the streaming encoder and decoder.
  Characters are bytes in ASCII; the '\<open>\0\<close>' that the encoder writes after its output is not
  part of it. What is written to \<open>out\<close> is returned.
\<close>

subsection \<open>The alphabet\<close>

definition data_bin2ascii :: "byte list" where
  "data_bin2ascii = map (\<lambda>c. word_of_nat (of_char c))
     ''ABCDEFGHIJKLMNOPQRSTUVWXYZabcdefghijklmnopqrstuvwxyz0123456789+/''"

definition conv_bin2ascii :: "u64 \<Rightarrow> byte" where
  "conv_bin2ascii a = data_bin2ascii ! unat (a AND 0x3f)"

definition B64_EOLN :: byte where "B64_EOLN = 0xF0"
definition B64_CR :: byte where "B64_CR = 0xF1"
definition B64_EOF :: byte where "B64_EOF = 0xF2"
definition B64_WS :: byte where "B64_WS = 0xE0"
definition B64_ERROR :: byte where "B64_ERROR = 0xFF"

definition B64_NOT_BASE64 :: "byte \<Rightarrow> bool" where
  "B64_NOT_BASE64 a \<longleftrightarrow> a OR 0x13 = 0xF3"

definition data_ascii2bin :: "byte list" where
  "data_ascii2bin = [
    0xFF, 0xFF, 0xFF, 0xFF, 0xFF, 0xFF, 0xFF, 0xFF,
    0xFF, 0xE0, 0xF0, 0xFF, 0xFF, 0xF1, 0xFF, 0xFF,
    0xFF, 0xFF, 0xFF, 0xFF, 0xFF, 0xFF, 0xFF, 0xFF,
    0xFF, 0xFF, 0xFF, 0xFF, 0xFF, 0xFF, 0xFF, 0xFF,
    0xE0, 0xFF, 0xFF, 0xFF, 0xFF, 0xFF, 0xFF, 0xFF,
    0xFF, 0xFF, 0xFF, 0x3E, 0xFF, 0xF2, 0xFF, 0x3F,
    0x34, 0x35, 0x36, 0x37, 0x38, 0x39, 0x3A, 0x3B,
    0x3C, 0x3D, 0xFF, 0xFF, 0xFF, 0x00, 0xFF, 0xFF,
    0xFF, 0x00, 0x01, 0x02, 0x03, 0x04, 0x05, 0x06,
    0x07, 0x08, 0x09, 0x0A, 0x0B, 0x0C, 0x0D, 0x0E,
    0x0F, 0x10, 0x11, 0x12, 0x13, 0x14, 0x15, 0x16,
    0x17, 0x18, 0x19, 0xFF, 0xFF, 0xFF, 0xFF, 0xFF,
    0xFF, 0x1A, 0x1B, 0x1C, 0x1D, 0x1E, 0x1F, 0x20,
    0x21, 0x22, 0x23, 0x24, 0x25, 0x26, 0x27, 0x28,
    0x29, 0x2A, 0x2B, 0x2C, 0x2D, 0x2E, 0x2F, 0x30,
    0x31, 0x32, 0x33, 0xFF, 0xFF, 0xFF, 0xFF, 0xFF]"

definition conv_ascii2bin :: "byte \<Rightarrow> byte" where
  "conv_ascii2bin a = (if a AND 0x80 \<noteq> 0 then B64_ERROR else data_ascii2bin ! unat a)"

definition EQUALS :: byte where "EQUALS = 0x3D"
definition NEWLINE :: byte where "NEWLINE = 0x0A"

subsection \<open>Blocks\<close>

fun EVP_EncodeBlock :: "byte list \<Rightarrow> byte list" where
  "EVP_EncodeBlock (x # y # z # f) =
     (let l = push_bit 16 (ucast x) OR push_bit 8 (ucast y) OR ucast z in
      [conv_bin2ascii (drop_bit 18 l), conv_bin2ascii (drop_bit 12 l),
       conv_bin2ascii (drop_bit 6 l), conv_bin2ascii l] @ EVP_EncodeBlock f)"
| "EVP_EncodeBlock [x, y] =
     (let l = push_bit 16 (ucast x) OR push_bit 8 (ucast y) in
      [conv_bin2ascii (drop_bit 18 l), conv_bin2ascii (drop_bit 12 l), conv_bin2ascii (drop_bit 6 l), EQUALS])"
| "EVP_EncodeBlock [x] =
     (let l = push_bit 16 (ucast x) in
      [conv_bin2ascii (drop_bit 18 l), conv_bin2ascii (drop_bit 12 l), EQUALS, EQUALS])"
| "EVP_EncodeBlock [] = []"

text \<open>Decoding: white space is trimmed in front, then characters of no value at the end.\<close>

fun trim_front :: "byte list \<Rightarrow> byte list" where
  "trim_front [] = []"
| "trim_front (c # f) = (if conv_ascii2bin c = B64_WS then trim_front f else c # f)"

function trim_end :: "byte list \<Rightarrow> byte list" where
  "trim_end f =
     (if length f > 3 \<and> B64_NOT_BASE64 (conv_ascii2bin (f ! (length f - 1)))
      then trim_end (take (length f - 1) f) else f)"
  by auto

termination by (relation "measure length") auto

declare trim_end.simps [simp del]

fun decode_groups :: "byte list \<Rightarrow> byte list option" where
  "decode_groups (w # x # y # z # f) =
     (let a = conv_ascii2bin w; b = conv_ascii2bin x; c = conv_ascii2bin y; d = conv_ascii2bin z in
      if a AND 0x80 \<noteq> 0 \<or> b AND 0x80 \<noteq> 0 \<or> c AND 0x80 \<noteq> 0 \<or> d AND 0x80 \<noteq> 0 then None
      else let l = push_bit 18 (ucast a) OR push_bit 12 (ucast b) OR push_bit 6 (ucast c) OR (ucast d :: u64) in
        case decode_groups f of
          None \<Rightarrow> None
        | Some t \<Rightarrow> Some ([ucast (drop_bit 16 l), ucast (drop_bit 8 l), ucast l] @ t))"
| "decode_groups _ = Some []"

definition EVP_DecodeBlock :: "byte list \<Rightarrow> byte list option" where
  "EVP_DecodeBlock f =
     (let f = trim_end (trim_front f) in
      if length f mod 4 \<noteq> 0 then None else decode_groups f)"

subsection \<open>The alphabet is a code\<close>

lemma data_bin2ascii_eq: "data_bin2ascii =
  [0x41, 0x42, 0x43, 0x44, 0x45, 0x46, 0x47, 0x48, 0x49, 0x4a, 0x4b, 0x4c, 0x4d, 0x4e, 0x4f, 0x50,
   0x51, 0x52, 0x53, 0x54, 0x55, 0x56, 0x57, 0x58, 0x59, 0x5a, 0x61, 0x62, 0x63, 0x64, 0x65, 0x66,
   0x67, 0x68, 0x69, 0x6a, 0x6b, 0x6c, 0x6d, 0x6e, 0x6f, 0x70, 0x71, 0x72, 0x73, 0x74, 0x75, 0x76,
   0x77, 0x78, 0x79, 0x7a, 0x30, 0x31, 0x32, 0x33, 0x34, 0x35, 0x36, 0x37, 0x38, 0x39, 0x2b, 0x2f]"
  by (simp add: data_bin2ascii_def)

lemma ascii_of_bin:
  "i < 64 \<Longrightarrow> data_bin2ascii ! i AND 0x80 = 0 \<and> data_ascii2bin ! unat (data_bin2ascii ! i) = word_of_nat i
   \<and> data_bin2ascii ! i \<noteq> EQUALS"
proof -
  have "list_all2 (\<lambda>c i. c AND 0x80 = 0 \<and> data_ascii2bin ! unat c = word_of_nat i \<and> c \<noteq> EQUALS) data_bin2ascii [0..<64]"
    unfolding data_bin2ascii_eq data_ascii2bin_def EQUALS_def by (simp add: upt_conv_Cons)
  from list_all2_nthD [OF this] show "i < 64 \<Longrightarrow> data_bin2ascii ! i AND 0x80 = 0 \<and> data_ascii2bin ! unat (data_bin2ascii ! i) = word_of_nat i
    \<and> data_bin2ascii ! i \<noteq> EQUALS"
    by (simp add: data_bin2ascii_eq)
qed

text \<open>A character that stands for six bits: those of the alphabet and the padding.\<close>

definition stands_for :: "byte \<Rightarrow> nat \<Rightarrow> bool" where
  "stands_for c v \<longleftrightarrow> v < 64 \<and> conv_ascii2bin c = word_of_nat v"

lemma stands_for_EQUALS: "stands_for EQUALS 0"
  by (simp add: stands_for_def conv_ascii2bin_def EQUALS_def data_ascii2bin_def)

lemma six_bits: "unat ((l :: u64) AND 0x3f) = unat l mod 64"
proof -
  have m: "(0x3f :: u64) = mask 6" by (simp add: mask_eq_exp_minus_1)
  show ?thesis unfolding m take_bit_eq_mask [symmetric] unsigned_take_bit_eq by (simp add: take_bit_eq_mod)
qed

lemma stands_for_bin: "stands_for (conv_bin2ascii l) (unat l mod 64) \<and> conv_bin2ascii l \<noteq> EQUALS"
  using ascii_of_bin [of "unat l mod 64"] by (simp add: stands_for_def conv_bin2ascii_def six_bits conv_ascii2bin_def)

lemma stands_for_small: "stands_for c v \<Longrightarrow> unat (conv_ascii2bin c) = v \<and> v < 64"
  by (auto simp: stands_for_def unat_of_nat take_bit_nat_eq_self)

lemma stands_for_base64:
  assumes "stands_for c v"
  shows "conv_ascii2bin c AND 0x80 = 0" "\<not> B64_NOT_BASE64 (conv_ascii2bin c)"
    "conv_ascii2bin c \<notin> {B64_WS, B64_EOF, B64_ERROR, B64_EOLN}"
proof -
  note u = stands_for_small [OF assms]
  show z: "conv_ascii2bin c AND 0x80 = 0" using top_bit_byte [of "conv_ascii2bin c"] u by auto
  then show "\<not> B64_NOT_BASE64 (conv_ascii2bin c)"
  proof -
    have "(conv_ascii2bin c OR 0x13) AND 0x80 = 0" using z by (simp add: bit.conj_disj_distrib2)
    then show ?thesis by (auto simp: B64_NOT_BASE64_def)
  qed
  show "conv_ascii2bin c \<notin> {B64_WS, B64_EOF, B64_ERROR, B64_EOLN}"
    using u by (auto simp: B64_WS_def B64_EOF_def B64_ERROR_def B64_EOLN_def)
qed

subsection \<open>Decoding a group\<close>

lemma unat_ucast64: "unat (ucast (b :: byte) :: u64) = unat b"
  using byte_less [of b] by (simp add: unsigned_ucast_eq take_bit_nat_eq_self)

lemma three_bytes:
  "unat (push_bit 16 (ucast (x :: byte)) OR push_bit 8 (ucast (y :: byte)) OR (ucast (z :: byte) :: u64)) =
     unat x * 65536 + unat y * 256 + unat z"
proof -
  have 1: "unat (push_bit 8 (ucast y) OR (ucast z :: u64)) = unat y * 256 + unat z \<and> unat y * 256 + unat z < 2 ^ 16"
    using or_value [of "ucast y" 8 "ucast z" 8] byte_less [of y] byte_less [of z] by (simp add: unat_ucast64)
  then show ?thesis
    using or_value [of "ucast x" 8 "push_bit 8 (ucast y) OR (ucast z :: u64)" 16] byte_less [of x]
    by (simp add: unat_ucast64)
qed

lemma four_sextets:
  assumes "unat (a :: byte) < 64" "unat (b :: byte) < 64" "unat (c :: byte) < 64" "unat (d :: byte) < 64"
  shows "unat (push_bit 18 (ucast a) OR push_bit 12 (ucast b) OR push_bit 6 (ucast c) OR (ucast d :: u64)) =
     unat a * 262144 + unat b * 4096 + unat c * 64 + unat d"
proof -
  have 1: "unat (push_bit 6 (ucast c) OR (ucast d :: u64)) = unat c * 64 + unat d \<and> unat c * 64 + unat d < 2 ^ 12"
    using or_value [of "ucast c" 6 "ucast d" 6] assms by (simp add: unat_ucast64)
  have 2: "unat (push_bit 12 (ucast b) OR push_bit 6 (ucast c) OR (ucast d :: u64)) = unat b * 4096 + (unat c * 64 + unat d) \<and>
      unat b * 4096 + (unat c * 64 + unat d) < 2 ^ 18"
    using or_value [of "ucast b" 6 "push_bit 6 (ucast c) OR (ucast d :: u64)" 12] assms 1 by (simp add: unat_ucast64)
  then show ?thesis
    using or_value [of "ucast a" 6 "push_bit 12 (ucast b) OR push_bit 6 (ucast c) OR (ucast d :: u64)" 18] assms
    by (simp add: unat_ucast64)
qed

lemma ucast_byte_of: "(ucast (l :: u64) :: byte) = word_of_nat (unat l)"
  by (rule unsigned_word_eqI [where 'a = nat]) (simp add: unsigned_ucast_eq unsigned_of_nat)

lemma decode_group:
  assumes "stands_for w a" "stands_for x b" "stands_for y c" "stands_for z d"
    and "v = a * 262144 + b * 4096 + c * 64 + d"
  shows "decode_groups (w # x # y # z # f) =
    map_option (\<lambda>t. [word_of_nat (v div 65536), word_of_nat (v div 256), word_of_nat v] @ t) (decode_groups f)"
proof -
  note s = stands_for_small [OF assms(1)] stands_for_small [OF assms(2)] stands_for_small [OF assms(3)]
    stands_for_small [OF assms(4)]
  define l :: u64 where "l = push_bit 18 (ucast (conv_ascii2bin w)) OR push_bit 12 (ucast (conv_ascii2bin x))
    OR push_bit 6 (ucast (conv_ascii2bin y)) OR ucast (conv_ascii2bin z)"
  have lv: "unat l = v" unfolding l_def assms(5) by (subst four_sextets) (use s in auto)
  have "(ucast (drop_bit 16 l) :: byte) = word_of_nat (v div 65536)" "(ucast (drop_bit 8 l) :: byte) = word_of_nat (v div 256)"
    "(ucast l :: byte) = word_of_nat v"
    unfolding ucast_byte_of unat_drop_bit_eq lv by (simp_all add: drop_bit_eq_div)
  note bytes = this
  have no: "\<not> (conv_ascii2bin w AND 0x80 \<noteq> 0 \<or> conv_ascii2bin x AND 0x80 \<noteq> 0 \<or>
      conv_ascii2bin y AND 0x80 \<noteq> 0 \<or> conv_ascii2bin z AND 0x80 \<noteq> 0)"
    using stands_for_base64(1) [OF assms(1)] stands_for_base64(1) [OF assms(2)] stands_for_base64(1) [OF assms(3)]
      stands_for_base64(1) [OF assms(4)] by simp
  show ?thesis
    unfolding decode_groups.simps Let_def l_def [symmetric] bytes
    by (subst if_not_P [OF no]) (cases "decode_groups f"; simp only: option.case option.map)
qed

text \<open>What a block encodes to, decoded again: its bytes, with zeros up to a multiple of three.\<close>

definition pad3 :: "nat \<Rightarrow> nat" where
  "pad3 n = (3 - n mod 3) mod 3"

lemma stands_for_drop:
  "stands_for (conv_bin2ascii (drop_bit 18 l)) (unat l div 262144 mod 64)"
  "stands_for (conv_bin2ascii (drop_bit 12 l)) (unat l div 4096 mod 64)"
  "stands_for (conv_bin2ascii (drop_bit 6 l)) (unat l div 64 mod 64)"
proof -
  have "unat (drop_bit k l) = unat l div 2 ^ k" for k unfolding unat_drop_bit_eq by (simp add: drop_bit_eq_div)
  from this [of 18] this [of 12] this [of 6]
  show "stands_for (conv_bin2ascii (drop_bit 18 l)) (unat l div 262144 mod 64)"
    "stands_for (conv_bin2ascii (drop_bit 12 l)) (unat l div 4096 mod 64)"
    "stands_for (conv_bin2ascii (drop_bit 6 l)) (unat l div 64 mod 64)"
    using stands_for_bin [of "drop_bit 18 l"] stands_for_bin [of "drop_bit 12 l"] stands_for_bin [of "drop_bit 6 l"]
    by simp_all
qed

lemma sextets_value:
  assumes "v < 2 ^ 24"
  shows "v = (v div 262144 mod 64) * 262144 + (v div 4096 mod 64) * 4096 + (v div 64 mod 64) * 64 + v mod (64 :: nat)"
proof -
  define p q r where "p = v div 64" "q = p div 64" "r = q div 64"
  have "v = p * 64 + v mod 64" "p = q * 64 + p mod 64" "q = r * 64 + q mod 64" by (simp_all add: p_q_r_def)
  then have "v = ((r * 64 + q mod 64) * 64 + p mod 64) * 64 + v mod 64" by metis
  moreover have "q = v div 4096" "r = v div 262144" unfolding p_q_r_def by (simp_all flip: div_mult2_eq)
  moreover have "r mod 64 = r" using assms \<open>r = v div 262144\<close> by simp
  ultimately show ?thesis unfolding p_q_r_def(1) by (simp add: distrib_right)
qed

lemma bytes_of_value:
  "word_of_nat ((unat (x :: byte) * 65536 + unat (y :: byte) * 256 + unat (z :: byte)) div 65536) = x"
  "word_of_nat ((unat x * 65536 + unat y * 256 + unat z) div 256) = y"
  "word_of_nat (unat x * 65536 + unat y * 256 + unat z) = z"
proof -
  note b = byte_less [of x] byte_less [of y] byte_less [of z]
  have "unat x * 65536 + unat y * 256 + unat z = (unat x * 256 + unat y) * 256 + unat z" by simp
  then have sum: "(unat x * 65536 + unat y * 256 + unat z) mod 256 = unat z"
    using b by (simp only: mod_mult_self3) simp
  have "(unat x * 65536 + unat y * 256 + unat z) div 65536 = unat x"
    using b by (subst div_is) auto
  then show "word_of_nat ((unat x * 65536 + unat y * 256 + unat z) div 65536) = x" by simp
  have "(unat x * 65536 + unat y * 256 + unat z) div 256 = unat x * 256 + unat y"
    using b by (subst div_is) auto
  then show "word_of_nat ((unat x * 65536 + unat y * 256 + unat z) div 256) = y"
    by (simp only:) (rule unsigned_word_eqI [where 'a = nat], use b in \<open>simp add: unsigned_of_nat take_bit_eq_mod del: of_nat_add\<close>)
  show "word_of_nat (unat x * 65536 + unat y * 256 + unat z) = z"
    by (rule unsigned_word_eqI [where 'a = nat]) (use b sum in \<open>simp add: unsigned_of_nat take_bit_eq_mod del: of_nat_add\<close>)
qed

lemma decode_encode_groups: "decode_groups (EVP_EncodeBlock f) = Some (f @ replicate (pad3 (length f)) 0)"
proof (induction f rule: EVP_EncodeBlock.induct)
  case (1 x y z f)
  define l where "l = push_bit 16 (ucast x) OR push_bit 8 (ucast y) OR (ucast z :: u64)"
  have l: "unat l = unat x * 65536 + unat y * 256 + unat z" by (simp only: l_def three_bytes)
  have "unat l < 2 ^ 24" using byte_less [of x] byte_less [of y] byte_less [of z] by (simp add: l)
  from decode_group [OF stands_for_drop conjunct1 [OF stands_for_bin] sextets_value [OF this]]
  have "decode_groups (EVP_EncodeBlock (x # y # z # f)) =
      map_option (\<lambda>t. [x, y, z] @ t) (decode_groups (EVP_EncodeBlock f))"
    using l bytes_of_value [of x y z] by (simp add: l_def [symmetric] Let_def)
  then show ?case using 1 by (simp add: pad3_def)
next
  case (2 x y)
  define l where "l = push_bit 16 (ucast x) OR push_bit 8 (ucast y :: u64)"
  have l: "unat l = unat x * 65536 + unat y * 256 + unat (0 :: byte)"
    using three_bytes [of x y 0] by (simp add: l_def)
  have m: "unat l < 2 ^ 24" "unat l mod 64 = 0"
    using byte_less [of x] byte_less [of y] by (auto simp: l mod_eq_0_iff_dvd)
  from decode_group [OF stands_for_drop stands_for_EQUALS sextets_value [OF m(1), unfolded m(2)], of "[]"]
  have "decode_groups (EVP_EncodeBlock [x, y]) = Some [x, y, 0]"
    using l bytes_of_value [of x y 0] by (simp add: l_def [symmetric] Let_def)
  then show ?case by (simp add: pad3_def)
next
  case (3 x)
  define l :: u64 where "l = push_bit 16 (ucast x)"
  have l: "unat l = unat x * 65536 + unat (0 :: byte) * 256 + unat (0 :: byte)"
    using three_bytes [of x 0 0] by (simp add: l_def)
  have m: "unat l < 2 ^ 24" "unat l mod 64 = 0" "unat l div 64 mod 64 = 0"
    using byte_less [of x] by (auto simp: l)
  from decode_group [OF stands_for_drop(1,2) stands_for_EQUALS stands_for_EQUALS sextets_value [OF m(1), unfolded m(2,3)], of "[]"]
  have "decode_groups (EVP_EncodeBlock [x]) = Some [x, 0, 0]"
    using l bytes_of_value [of x 0 0] by (simp add: l_def [symmetric] Let_def)
  then show ?case by (simp add: pad3_def numeral_2_eq_2)
qed (simp add: pad3_def)

text \<open>The characters of an encoded block: a multiple of four, none of them trimmed.\<close>

lemma encode_length: "length (EVP_EncodeBlock f) = 4 * ((length f + 2) div 3)"
proof (induction f rule: EVP_EncodeBlock.induct)
  case (1 x y z f)
  have "(length f + 2 + 3) div 3 = Suc ((length f + 2) div 3)" using div_add_self2 [of 3 "length f + 2"] by simp
  then show ?case using 1 by (simp add: Let_def)
qed (simp_all add: Let_def)

lemma not_equals [simp]: "conv_bin2ascii l \<noteq> EQUALS" "EQUALS \<noteq> conv_bin2ascii l"
  using stands_for_bin [of l] by auto

definition code_char :: "byte \<Rightarrow> bool" where
  "code_char c \<longleftrightarrow> (\<exists>v. stands_for c v)"

lemma encode_chars: "c \<in> set (EVP_EncodeBlock f) \<Longrightarrow> code_char c"
  using stands_for_bin stands_for_EQUALS
  by (induction f rule: EVP_EncodeBlock.induct) (auto simp: Let_def code_char_def)

lemma encode_no_padding: "length f mod 3 = 0 \<Longrightarrow> c \<in> set (EVP_EncodeBlock f) \<Longrightarrow> c \<noteq> EQUALS"
  by (induction f rule: EVP_EncodeBlock.induct) (auto simp: Let_def)

lemma trim_front_code: "\<forall>c \<in> set f. code_char c \<Longrightarrow> trim_front f = f"
  using stands_for_base64(3) by (cases f) (auto simp: code_char_def)

lemma trim_end_code: "\<forall>c \<in> set f. code_char c \<Longrightarrow> trim_end f = f"
proof -
  assume c: "\<forall>c \<in> set f. code_char c"
  have "\<not> B64_NOT_BASE64 (conv_ascii2bin (f ! (length f - 1)))" if "length f > 3"
  proof -
    have "f ! (length f - 1) \<in> set f" using that by (intro nth_mem) simp
    then show ?thesis using c stands_for_base64(2) by (auto simp: code_char_def)
  qed
  then show ?thesis by (subst trim_end.simps) auto
qed

theorem decode_encode_block:
  "EVP_DecodeBlock (EVP_EncodeBlock f) = Some (f @ replicate (pad3 (length f)) 0)"
proof -
  have c: "\<forall>c \<in> set (EVP_EncodeBlock f). code_char c" using encode_chars by blast
  then show ?thesis
    by (simp add: EVP_DecodeBlock_def trim_front_code trim_end_code encode_length decode_encode_groups Let_def)
qed

subsection \<open>Streaming: the encoder\<close>

text \<open>
  The context: \<open>length\<close>, and the first \<open>num\<close> bytes of \<open>enc_data\<close> as a list. The fields
  \<open>line_num\<close> and \<open>expect_nl\<close> are set and not used.
\<close>

record EVP_ENCODE_CTX =
  line_length :: nat
  enc_data :: "byte list"

definition EVP_EncodeInit :: EVP_ENCODE_CTX where
  "EVP_EncodeInit = \<lparr>line_length = 48, enc_data = []\<rparr>"

text \<open>INT_MAX, the bound on the output.\<close>

definition MAX_OUTPUT :: nat where "MAX_OUTPUT = 2 ^ 31 - 1"

text \<open>The loop over full lines: what is written, what is left of the input and \<open>total\<close>.\<close>

function encode_lines :: "nat \<Rightarrow> byte list \<Rightarrow> nat \<Rightarrow> byte list \<Rightarrow> byte list \<times> byte list \<times> nat" where
  "encode_lines len inp written out =
     (if length inp \<ge> len \<and> written \<le> MAX_OUTPUT \<and> len > 0 then
        let b = EVP_EncodeBlock (take len inp) in
        encode_lines len (drop len inp) (written + (length b + 1)) (out @ b @ [NEWLINE])
      else (out, inp, written))"
  by auto

termination by (relation "measure (\<lambda>(len, inp, written, out). length inp)") auto

declare encode_lines.simps [simp del]

text \<open>The return value, the context and what is written; \<open>*outl\<close> is the length of that.\<close>

definition EVP_EncodeUpdate :: "EVP_ENCODE_CTX \<Rightarrow> byte list \<Rightarrow> bool \<times> EVP_ENCODE_CTX \<times> byte list" where
  "EVP_EncodeUpdate ctx inp =
     (if inp = [] then (False, ctx, [])
      else if line_length ctx - length (enc_data ctx) > length inp
      then (True, ctx\<lparr>enc_data := enc_data ctx @ inp\<rparr>, [])
      else
        let (out, inp, written, ctx) =
              (if enc_data ctx \<noteq> [] then
                 let i = line_length ctx - length (enc_data ctx);
                     b = EVP_EncodeBlock (enc_data ctx @ take i inp)
                 in (b @ [NEWLINE], drop i inp, length b + 1, ctx\<lparr>enc_data := []\<rparr>)
               else ([], inp, 0, ctx));
            (out, inp, written) = encode_lines (line_length ctx) inp written out
        in if written > MAX_OUTPUT then (False, ctx, [])
           else (True, ctx\<lparr>enc_data := inp\<rparr>, out))"

definition EVP_EncodeFinal :: "EVP_ENCODE_CTX \<Rightarrow> EVP_ENCODE_CTX \<times> byte list" where
  "EVP_EncodeFinal ctx =
     (if enc_data ctx \<noteq> [] then
        (ctx\<lparr>enc_data := []\<rparr>, EVP_EncodeBlock (enc_data ctx) @ [NEWLINE])
      else (ctx, []))"

text \<open>The specification: lines of 48 bytes, each encoded and ended by a newline.\<close>

function full_lines :: "byte list \<Rightarrow> byte list" where
  "full_lines d = (if length d \<ge> 48 then EVP_EncodeBlock (take 48 d) @ [NEWLINE] @ full_lines (drop 48 d) else [])"
  by auto

termination by (relation "measure length") auto

declare full_lines.simps [simp del]

definition rest_line :: "byte list \<Rightarrow> byte list" where
  "rest_line d = drop (48 * (length d div 48)) d"

definition base64_lines :: "byte list \<Rightarrow> byte list" where
  "base64_lines d = full_lines d @ (if rest_line d \<noteq> [] then EVP_EncodeBlock (rest_line d) @ [NEWLINE] else [])"

lemma rest_line_step: "48 \<le> length d \<Longrightarrow> rest_line d = rest_line (drop 48 d)"
  by (simp add: rest_line_def le_div_geq add.commute)

lemma encode_lines_spec:
  "written + 65 * (length inp div 48) \<le> MAX_OUTPUT \<Longrightarrow>
   encode_lines 48 inp written out = (out @ full_lines inp, rest_line inp, written + 65 * (length inp div 48))"
proof (induction "length inp" arbitrary: inp written out rule: less_induct)
  case less
  show ?case
  proof (cases "48 \<le> length inp")
    case True
    then have d: "length inp div 48 = Suc ((length inp - 48) div 48)" by (simp add: le_div_geq)
    have "length (EVP_EncodeBlock (take 48 inp)) = 64" using True by (simp add: encode_length)
    then show ?thesis
      using True less.prems less.hyps [of "drop 48 inp" "65 + written"] d
      by (subst encode_lines.simps) (simp add: Let_def full_lines.simps [of inp] rest_line_step [OF True])
  next
    case False
    then show ?thesis by (simp add: encode_lines.simps [of 48 inp] full_lines.simps [of inp] rest_line_def)
  qed
qed

lemma full_lines_append: "length d mod 48 = 0 \<Longrightarrow> full_lines (d @ e) = full_lines d @ full_lines e"
proof (induction "length d" arbitrary: d rule: less_induct)
  case less
  show ?case
  proof (cases "d = []")
    case False
    then have "48 \<le> length d" using less.prems by (metis length_0_conv mod_less not_less)
    moreover from this have "length (drop 48 d) mod 48 = 0" using less.prems le_mod_geq [of 48 "length d"] by simp
    ultimately show ?thesis using less.hyps [of "drop 48 d"]
      by (simp add: full_lines.simps [of "d @ e"] full_lines.simps [of d])
  qed (simp add: full_lines.simps [of "[]"])
qed

lemma rest_line_short: "length (rest_line d) < 48"
  by (simp add: rest_line_def minus_mult_div_eq_mod)

lemma full_lines_rest: "full_lines d = full_lines (take (48 * (length d div 48)) d)" "full_lines (rest_line d) = []"
proof -
  have "length (take (48 * (length d div 48)) d) mod 48 = 0" by (simp add: min_absorb2 times_div_less_eq_dividend)
  moreover have r: "length (rest_line d) < 48" by (rule rest_line_short)
  then show e: "full_lines (rest_line d) = []" by (simp add: full_lines.simps [of "rest_line d"])
  ultimately show "full_lines d = full_lines (take (48 * (length d div 48)) d)"
    using full_lines_append [of "take (48 * (length d div 48)) d" "rest_line d"] e
    by (simp add: rest_line_def)
qed

text \<open>
  One update, from a context with less than a line: the full lines of what is pending and
  the input are written and the rest is kept.
\<close>

lemma EncodeUpdate_spec:
  assumes "line_length ctx = 48" "length (enc_data ctx) < 48" "inp \<noteq> []"
    and "65 * (length (enc_data ctx @ inp) div 48) \<le> MAX_OUTPUT"
  shows "EVP_EncodeUpdate ctx inp =
    (True, ctx\<lparr>enc_data := rest_line (enc_data ctx @ inp)\<rparr>, full_lines (enc_data ctx @ inp))"
proof -
  let ?d = "enc_data ctx @ inp"
  consider "length ?d < 48" | "48 \<le> length ?d" "enc_data ctx = []" | "48 \<le> length ?d" "enc_data ctx \<noteq> []" by linarith
  then show ?thesis
  proof cases
    case 1
    then have "line_length ctx - length (enc_data ctx) > length inp" using assms(1) by simp
    moreover have "full_lines ?d = []" "rest_line ?d = ?d" using 1 by (simp_all add: full_lines.simps [of ?d] rest_line_def)
    ultimately show ?thesis using assms(3) by (simp add: EVP_EncodeUpdate_def)
  next
    case 2
    have "encode_lines 48 inp 0 [] = (full_lines inp, rest_line inp, 65 * (length inp div 48))"
      using encode_lines_spec [of 0 inp "[]"] assms(4) 2 by simp
    then show ?thesis using 2 assms by (simp add: EVP_EncodeUpdate_def Let_def)
  next
    case 3
    define i where "i = 48 - length (enc_data ctx)"
    have i: "i \<le> length inp" "take 48 ?d = enc_data ctx @ take i inp" "drop 48 ?d = drop i inp"
      using 3 assms(2) by (simp_all add: i_def)
    have n: "length (EVP_EncodeBlock (enc_data ctx @ take i inp)) = 64"
      using i(1) assms(2) by (simp add: encode_length i_def)
    have d: "length ?d div 48 = Suc (length (drop i inp) div 48)"
      using 3(1) le_div_geq [of 48 "length ?d"] assms(2) i_def by simp
    have "encode_lines 48 (drop i inp) 65 (EVP_EncodeBlock (enc_data ctx @ take i inp) @ [NEWLINE]) =
      ((EVP_EncodeBlock (enc_data ctx @ take i inp) @ [NEWLINE]) @ full_lines (drop i inp), rest_line (drop i inp),
        65 + 65 * (length (drop i inp) div 48))"
      using encode_lines_spec [of 65 "drop i inp"] assms(4) d by simp
    moreover have "full_lines ?d = EVP_EncodeBlock (enc_data ctx @ take i inp) @ [NEWLINE] @ full_lines (drop i inp)"
      using 3(1) i by (simp add: full_lines.simps [of ?d])
    moreover have "rest_line ?d = rest_line (drop i inp)" using rest_line_step [OF 3(1)] i(3) by simp
    moreover have "\<not> 48 - length (enc_data ctx) > length inp" using i(1) i_def by simp
    ultimately show ?thesis using 3 assms d n
      by (simp add: EVP_EncodeUpdate_def Let_def i_def [symmetric])
  qed
qed

text \<open>All updates and the end, on a sequence of inputs.\<close>

fun encode_all :: "EVP_ENCODE_CTX \<Rightarrow> byte list list \<Rightarrow> byte list option" where
  "encode_all ctx [] = Some (snd (EVP_EncodeFinal ctx))"
| "encode_all ctx (inp # inps) =
     (case EVP_EncodeUpdate ctx inp of
        (ok, ctx, out) \<Rightarrow>
          if ok then (case encode_all ctx inps of None \<Rightarrow> None | Some out' \<Rightarrow> Some (out @ out')) else None)"

lemma rest_line_append: "length t mod 48 = 0 \<Longrightarrow> rest_line (t @ x) = rest_line x"
proof -
  assume "length t mod 48 = 0"
  then obtain k where k: "length t = 48 * k" by (metis dvd_def dvd_eq_mod_eq_0)
  then have "(length t + length x) div 48 = k + length x div 48" by simp
  then show ?thesis using k by (simp add: rest_line_def distrib_left)
qed

lemma base64_lines_append: "base64_lines (d @ r) = full_lines d @ base64_lines (rest_line d @ r)"
proof -
  define t where "t = take (48 * (length d div 48)) d"
  have t: "d = t @ rest_line d" by (simp add: t_def rest_line_def)
  have m: "length t mod 48 = 0" by (simp add: t_def min_absorb2 times_div_less_eq_dividend)
  have "full_lines d = full_lines t" using full_lines_rest(1) by (simp add: t_def)
  then have "full_lines (d @ r) = full_lines d @ full_lines (rest_line d @ r)"
    using full_lines_append [OF m, of "rest_line d @ r"] by (subst t) simp
  moreover have "rest_line (d @ r) = rest_line (rest_line d @ r)"
    using rest_line_append [OF m, of "rest_line d @ r"] by (subst t) simp
  ultimately show ?thesis by (simp add: base64_lines_def)
qed

lemma encode_all_from:
  "\<lbrakk>line_length ctx = 48; length (enc_data ctx) < 48; \<forall>inp \<in> set inps. inp \<noteq> [];
    65 * (length (enc_data ctx @ concat inps) div 48) \<le> MAX_OUTPUT\<rbrakk> \<Longrightarrow>
   encode_all ctx inps = Some (base64_lines (enc_data ctx @ concat inps))"
proof (induction inps arbitrary: ctx)
  case Nil
  then show ?case
    by (simp add: EVP_EncodeFinal_def base64_lines_def full_lines.simps [of "enc_data ctx"] rest_line_def)
next
  case (Cons inp inps)
  let ?d = "enc_data ctx @ inp" and ?ctx = "ctx\<lparr>enc_data := rest_line (enc_data ctx @ inp)\<rparr>"
  have le: "length ?d div 48 \<le> length (enc_data ctx @ concat (inp # inps)) div 48"
    "length (rest_line ?d @ concat inps) div 48 \<le> length (enc_data ctx @ concat (inp # inps)) div 48"
    by (intro div_le_mono; simp add: rest_line_def)+
  have "EVP_EncodeUpdate ctx inp = (True, ?ctx, full_lines ?d)"
    using Cons.prems le(1) by (intro EncodeUpdate_spec) auto
  moreover have "encode_all ?ctx inps = Some (base64_lines (rest_line ?d @ concat inps))"
    using Cons.prems le(2) rest_line_short Cons.IH [of ?ctx] by simp
  ultimately show ?case using base64_lines_append [of ?d "concat inps"] by simp
qed

text \<open>
  C20: However the data is cut into inputs, the encoder writes the same lines; it fails only for
  more output than an int can count.
\<close>

theorem encode_chunks:
  "\<lbrakk>\<forall>inp \<in> set inps. inp \<noteq> []; 65 * (length (concat inps) div 48) \<le> MAX_OUTPUT\<rbrakk> \<Longrightarrow>
   encode_all EVP_EncodeInit inps = Some (base64_lines (concat inps))"
  using encode_all_from [of EVP_EncodeInit inps] by (simp add: EVP_EncodeInit_def)

lemma encode_chunks_witness: "encode_all EVP_EncodeInit [[77, 97], [110]] = Some (base64_lines [77, 97, 110])"
  using encode_chunks [of "[[77, 97], [110]]"] by (simp add: MAX_OUTPUT_def)

subsection \<open>Streaming: the decoder\<close>

definition EVP_DecodeInit :: EVP_ENCODE_CTX where
  "EVP_DecodeInit = \<lparr>line_length = 0, enc_data = []\<rparr>"

text \<open>
  The loop over the input: how it ends (for \<open>goto end\<close> with an error, or at the label
  \<open>tail\<close>, with \<open>seof\<close>), and \<open>d\<close>, \<open>eof\<close> and what is written so far.
\<close>

datatype loop_end = Decode_Error | Decode_Tail bool

fun decode_loop :: "byte list \<Rightarrow> byte list \<Rightarrow> nat \<Rightarrow> byte list \<Rightarrow> loop_end \<times> byte list \<times> nat \<times> byte list" where
  "decode_loop [] d eof out = (Decode_Tail False, d, eof, out)"
| "decode_loop (tmp # inp) d eof out =
     (let v = conv_ascii2bin tmp in
      if v = B64_ERROR then (Decode_Error, d, eof, out)
      else if tmp \<noteq> EQUALS \<and> eof > 0 \<and> \<not> B64_NOT_BASE64 v then (Decode_Error, d, eof, out)
      else let eof = (if tmp = EQUALS then eof + 1 else eof) in
        if eof > 2 then (Decode_Error, d, eof, out)
        else if v = B64_EOF then (Decode_Tail True, d, eof, out)
        else if \<not> B64_NOT_BASE64 v \<and> length d \<ge> 64 then (Decode_Error, d, eof, out)
        else let d = (if \<not> B64_NOT_BASE64 v then d @ [tmp] else d) in
          if length d = 64 then
            (case EVP_DecodeBlock d of
               None \<Rightarrow> (Decode_Error, [], eof, out)
             | Some b \<Rightarrow>
                 if eof > length b then (Decode_Error, [], eof, out)
                 else decode_loop inp [] eof (out @ take (length b - eof) b))
          else decode_loop inp d eof out)"

text \<open>The return value -1, 0 or 1, the context and what is written.\<close>

definition EVP_DecodeUpdate :: "EVP_ENCODE_CTX \<Rightarrow> byte list \<Rightarrow> int \<times> EVP_ENCODE_CTX \<times> byte list" where
  "EVP_DecodeUpdate ctx inp =
     (let d = enc_data ctx; n = length d;
          eof = (if n > 0 \<and> d ! (n - 1) = EQUALS then if n > 1 \<and> d ! (n - 2) = EQUALS then 2 else 1 else 0)
      in if inp = [] then (0, ctx, [])
         else case decode_loop inp d eof [] of
             (Decode_Error, d, eof, out) \<Rightarrow> (- 1, ctx\<lparr>enc_data := d\<rparr>, out)
           | (Decode_Tail seof, d, eof, out) \<Rightarrow>
               if length d > 0 then
                 if length d mod 4 = 0 then
                   (case EVP_DecodeBlock d of
                      None \<Rightarrow> (- 1, ctx\<lparr>enc_data := []\<rparr>, out)
                    | Some b \<Rightarrow>
                        if eof > length b then (- 1, ctx\<lparr>enc_data := []\<rparr>, out)
                        else (if seof \<or> eof > 0 then 0 else 1, ctx\<lparr>enc_data := []\<rparr>, out @ take (length b - eof) b))
                 else if seof then (- 1, ctx\<lparr>enc_data := d\<rparr>, out)
                 else (1, ctx\<lparr>enc_data := d\<rparr>, out)
               else (if seof \<or> eof > 0 then 0 else 1, ctx\<lparr>enc_data := d\<rparr>, out))"

definition EVP_DecodeFinal :: "EVP_ENCODE_CTX \<Rightarrow> int \<times> EVP_ENCODE_CTX \<times> byte list" where
  "EVP_DecodeFinal ctx =
     (if enc_data ctx \<noteq> [] then
        (case EVP_DecodeBlock (enc_data ctx) of
           None \<Rightarrow> (- 1, ctx, [])
         | Some b \<Rightarrow> (1, ctx\<lparr>enc_data := []\<rparr>, b))
      else (1, ctx, []))"

declare decode_loop.simps(2) [simp del]

text \<open>Characters of the alphabet are collected; a line of 64 is decoded at once.\<close>

definition value_char :: "byte \<Rightarrow> bool" where
  "value_char c \<longleftrightarrow> code_char c \<and> c \<noteq> EQUALS"

lemma decode_loop_collect:
  "\<forall>c \<in> set xs. value_char c \<Longrightarrow> length d + length xs < 64 \<Longrightarrow>
   decode_loop (xs @ inp) d 0 out = decode_loop inp (d @ xs) 0 out"
proof (induction xs arbitrary: d)
  case (Cons c xs)
  then obtain v where "stands_for c v" "c \<noteq> EQUALS" by (auto simp: value_char_def code_char_def)
  then show ?case using Cons stands_for_base64(2,3) [of c v] by (simp add: decode_loop.simps(2) Let_def)
qed simp

lemma decode_loop_newline: "length d \<noteq> 64 \<Longrightarrow> decode_loop (NEWLINE # inp) d eof out =
  (if eof > 2 then (Decode_Error, d, eof, out) else decode_loop inp d eof out)"
proof -
  have "conv_ascii2bin NEWLINE = B64_EOLN" by (simp add: conv_ascii2bin_def NEWLINE_def data_ascii2bin_def B64_EOLN_def)
  moreover have "B64_NOT_BASE64 B64_EOLN" "B64_EOLN \<noteq> B64_ERROR" "B64_EOLN \<noteq> B64_EOF" "NEWLINE \<noteq> EQUALS"
    by (simp_all add: B64_NOT_BASE64_def B64_EOLN_def B64_ERROR_def B64_EOF_def NEWLINE_def EQUALS_def)
  ultimately show "length d \<noteq> 64 \<Longrightarrow> ?thesis" by (simp add: decode_loop.simps(2) Let_def)
qed

lemma decode_loop_line:
  assumes "\<forall>c \<in> set xs. value_char c" "length xs = 64" "EVP_DecodeBlock xs = Some b"
  shows "decode_loop (xs @ inp) [] 0 out = decode_loop inp [] 0 (out @ b)"
proof -
  obtain ys c where x: "xs = ys @ [c]" using assms(2) by (cases xs rule: rev_cases) auto
  then obtain v where v: "stands_for c v" "c \<noteq> EQUALS" using assms(1) by (auto simp: value_char_def code_char_def)
  have "decode_loop (ys @ c # inp) [] 0 out = decode_loop (c # inp) ys 0 out"
    using decode_loop_collect [of ys "[]" "c # inp" out] assms(1,2) x by simp
  then show ?thesis
    using x v assms(2,3) stands_for_base64(2,3) [OF v(1)] by (simp add: decode_loop.simps(2) Let_def)
qed

lemma encode_values: "length f mod 3 = 0 \<Longrightarrow> \<forall>c \<in> set (EVP_EncodeBlock f). value_char c"
  using encode_chars encode_no_padding by (auto simp: value_char_def)

lemma decode_full_lines:
  "decode_loop (full_lines d @ inp) [] 0 out = decode_loop inp [] 0 (out @ take (48 * (length d div 48)) d)"
proof (induction "length d" arbitrary: d out rule: less_induct)
  case less
  show ?case
  proof (cases "48 \<le> length d")
    case True
    let ?b = "EVP_EncodeBlock (take 48 d)"
    have l: "length (take 48 d) = 48" using True by simp
    have "length ?b = 64" "\<forall>c \<in> set ?b. value_char c" using l encode_values [of "take 48 d"] by (simp_all add: encode_length)
    moreover have "EVP_DecodeBlock ?b = Some (take 48 d)" using decode_encode_block [of "take 48 d"] l by (simp add: pad3_def)
    ultimately have "decode_loop (?b @ NEWLINE # full_lines (drop 48 d) @ inp) [] 0 out =
        decode_loop (full_lines (drop 48 d) @ inp) [] 0 (out @ take 48 d)"
      using decode_loop_line decode_loop_newline by simp
    moreover have "length d div 48 = Suc (length (drop 48 d) div 48)" using True by (simp add: le_div_geq)
    then have "take (48 * (length d div 48)) d = take 48 d @ take (48 * (length (drop 48 d) div 48)) (drop 48 d)"
      by (simp add: take_add)
    ultimately show ?thesis using True less.hyps [of "drop 48 d" "out @ take 48 d"] by (simp add: full_lines.simps [of d])
  next
    case False
    then show ?thesis by (simp add: full_lines.simps [of d])
  qed
qed

lemma encode_shape: "\<exists>xs. EVP_EncodeBlock f = xs @ replicate (pad3 (length f)) EQUALS \<and> (\<forall>c \<in> set xs. value_char c)"
proof (induction f rule: EVP_EncodeBlock.induct)
  case (1 x y z f)
  then obtain xs where xs: "EVP_EncodeBlock f = xs @ replicate (pad3 (length f)) EQUALS" "\<forall>c \<in> set xs. value_char c"
    by blast
  have v: "value_char (conv_bin2ascii l)" for l using stands_for_bin by (auto simp: value_char_def code_char_def)
  obtain a b c e where "EVP_EncodeBlock (x # y # z # f) = [a, b, c, e] @ EVP_EncodeBlock f"
    "value_char a" "value_char b" "value_char c" "value_char e"
    using v by (simp only: EVP_EncodeBlock.simps Let_def)
  moreover have "pad3 (length (x # y # z # f)) = pad3 (length f)" by (simp add: pad3_def)
  ultimately show ?case using xs by (intro exI [of _ "[a, b, c, e] @ xs"]) auto
next
  case (2 x y)
  have v: "value_char (conv_bin2ascii l)" for l using stands_for_bin by (auto simp: value_char_def code_char_def)
  obtain a b c where "EVP_EncodeBlock [x, y] = [a, b, c] @ [EQUALS]" "value_char a" "value_char b" "value_char c"
    using v by (simp only: EVP_EncodeBlock.simps Let_def append.simps)
  then show ?case by (intro exI [of _ "[a, b, c]"]) (simp add: pad3_def)
next
  case (3 x)
  have v: "value_char (conv_bin2ascii l)" for l using stands_for_bin by (auto simp: value_char_def code_char_def)
  obtain a b where "EVP_EncodeBlock [x] = [a, b] @ [EQUALS, EQUALS]" "value_char a" "value_char b"
    using v by (simp only: EVP_EncodeBlock.simps Let_def append.simps)
  then show ?case by (intro exI [of _ "[a, b]"]) (simp add: pad3_def numeral_2_eq_2)
qed (simp add: pad3_def)

lemma decode_loop_equals:
  "eof < 2 \<Longrightarrow> length d < 63 \<Longrightarrow> decode_loop (EQUALS # inp) d eof out = decode_loop inp (d @ [EQUALS]) (eof + 1) out"
  "\<lbrakk>eof < 2; length d = 63; EVP_DecodeBlock (d @ [EQUALS]) = Some b; eof < length b\<rbrakk> \<Longrightarrow>
   decode_loop (EQUALS # inp) d eof out = decode_loop inp [] (eof + 1) (out @ take (length b - (eof + 1)) b)"
  using stands_for_base64(2,3) [OF stands_for_EQUALS] by (simp_all add: decode_loop.simps(2) Let_def)

lemma decode_loop_last:
  assumes "r \<noteq> []" "length r < 48"
  shows "decode_loop (EVP_EncodeBlock r @ [NEWLINE]) [] 0 out =
    (if length (EVP_EncodeBlock r) < 64 then (Decode_Tail False, EVP_EncodeBlock r, pad3 (length r), out)
     else (Decode_Tail False, [], pad3 (length r), out @ r))"
proof -
  obtain xs where xs: "EVP_EncodeBlock r = xs @ replicate (pad3 (length r)) EQUALS" "\<forall>c \<in> set xs. value_char c"
    using encode_shape by blast
  let ?k = "pad3 (length r)"
  have k: "?k = 0 \<or> ?k = 1 \<or> ?k = 2" by (auto simp: pad3_def)
  have "(length r + 2) div 3 \<le> 49 div 3" using assms(2) by (intro div_le_mono) simp
  then have n64: "length (EVP_EncodeBlock r) \<le> 64" unfolding encode_length by simp
  have nx: "length xs + ?k = length (EVP_EncodeBlock r)" by (simp only: xs(1) length_append length_replicate)
  note n = nx n64
  have full: "?k \<noteq> 0" if "length (EVP_EncodeBlock r) = 64"
  proof -
    have "(length r + 2) div 3 = 16" using that unfolding encode_length by simp
    then have "length r = 46 \<or> length r = 47" using div_is [of 3 "length r + 2" 16] assms(2) by auto
    then show ?thesis by (auto simp: pad3_def)
  qed
  have b: "EVP_DecodeBlock (xs @ replicate ?k EQUALS) = Some (r @ replicate ?k 0)"
    using decode_encode_block [of r] by (simp add: xs)
  have start: "decode_loop (EVP_EncodeBlock r @ [NEWLINE]) [] 0 out =
      decode_loop (replicate ?k EQUALS @ [NEWLINE]) xs 0 out"
  proof -
    have "length xs < 64" using n full k by (cases "length (EVP_EncodeBlock r) = 64") auto
    then show ?thesis using decode_loop_collect [OF xs(2), of "[]"] by (simp add: xs(1))
  qed
  consider "length (EVP_EncodeBlock r) < 64" | "length (EVP_EncodeBlock r) = 64" using n(2) by linarith
  then show ?thesis
  proof cases
    case 1
    have newline: "decode_loop [NEWLINE] d e out = (Decode_Tail False, d, e, out)" if "e \<le> 2" "length d < 64" for d e
      using decode_loop_newline [of d "[]" e out] that by simp
    have "decode_loop (replicate ?k EQUALS @ [NEWLINE]) xs 0 out =
        (Decode_Tail False, xs @ replicate ?k EQUALS, ?k, out)"
      using k
    proof (elim disjE)
      assume "?k = 0"
      then show ?thesis using newline [of 0 xs] n(1) 1 by simp
    next
      assume k1: "?k = 1"
      then have "decode_loop (EQUALS # [NEWLINE]) xs 0 out = decode_loop [NEWLINE] (xs @ [EQUALS]) 1 out"
        using decode_loop_equals(1) [of 0 xs "[NEWLINE]" out] n(1) 1 by simp
      then show ?thesis using k1 newline [of 1 "xs @ [EQUALS]"] n(1) 1 by simp
    next
      assume k2: "?k = 2"
      then have "decode_loop (EQUALS # EQUALS # [NEWLINE]) xs 0 out = decode_loop (EQUALS # [NEWLINE]) (xs @ [EQUALS]) 1 out"
        using decode_loop_equals(1) [of 0 xs "EQUALS # [NEWLINE]" out] n(1) 1 by simp
      also have "\<dots> = decode_loop [NEWLINE] (xs @ [EQUALS, EQUALS]) 2 out"
        using decode_loop_equals(1) [of 1 "xs @ [EQUALS]" "[NEWLINE]" out] n(1) 1 k2 by (simp add: numeral_2_eq_2)
      finally show ?thesis using k2 newline [of 2 "xs @ [EQUALS, EQUALS]"] n(1) 1 by (simp add: numeral_2_eq_2)
    qed
    then show ?thesis using 1 by (simp only: start xs(1) [symmetric]) simp
  next
    case 2
    have newline: "decode_loop [NEWLINE] [] e out' = (Decode_Tail False, [], e, out')" if "e \<le> 2" for e out'
      using decode_loop_newline [of "[]" "[]" e out'] that by simp
    have "?k = 1 \<or> ?k = 2" using k full [OF 2] by blast
    then have "decode_loop (replicate ?k EQUALS @ [NEWLINE]) xs 0 out = (Decode_Tail False, [], ?k, out @ r)"
    proof
      assume k1: "?k = 1"
      then have "length xs = 63" using n(1) 2 by linarith
      then have "decode_loop (EQUALS # [NEWLINE]) xs 0 out = decode_loop [NEWLINE] [] 1 (out @ take (length (r @ [0]) - 1) (r @ [0]))"
        using decode_loop_equals(2) [of 0 xs "r @ [0]" "[NEWLINE]" out] b assms(1) k1 by simp
      then show ?thesis using k1 newline [of 1] by simp
    next
      assume k2: "?k = 2"
      then have l: "length xs = 62" using n(1) 2 by linarith
      have b2: "EVP_DecodeBlock ((xs @ [EQUALS]) @ [EQUALS]) = Some (r @ [0, 0])"
        using b unfolding k2 by (simp add: numeral_2_eq_2)
      have "decode_loop (EQUALS # EQUALS # [NEWLINE]) xs 0 out = decode_loop (EQUALS # [NEWLINE]) (xs @ [EQUALS]) 1 out"
        using decode_loop_equals(1) [of 0 xs "EQUALS # [NEWLINE]" out] l by simp
      also have "\<dots> = decode_loop [NEWLINE] [] 2 (out @ take (length (r @ [0, 0]) - 2) (r @ [0, 0]))"
        using decode_loop_equals(2) [OF _ _ b2, of 1 "[NEWLINE]" out] l by (simp add: numeral_2_eq_2)
      finally show ?thesis using k2 newline [of 2] by (simp add: numeral_2_eq_2)
    qed
    then show ?thesis using 2 by (simp only: start) simp
  qed
qed

text \<open>
  C19: Decoding in one update what the encoder wrote gives the data again, and says with 0 that
  padding was seen or with 1 that there was none.
\<close>

theorem base64_stream_round_trip:
  "d \<noteq> [] \<Longrightarrow> EVP_DecodeUpdate EVP_DecodeInit (base64_lines d) =
     (if length d mod 3 = 0 then 1 else 0, EVP_DecodeInit, d)"
proof -
  assume d: "d \<noteq> []"
  let ?r = "rest_line d" and ?t = "take (48 * (length d div 48)) d"
  have m: "pad3 (length ?r) = 0 \<longleftrightarrow> length d mod 3 = 0"
  proof -
    have "length ?r mod 3 = length d mod 3" by (simp add: rest_line_def minus_mult_div_eq_mod mod_mod_cancel)
    then show ?thesis by (simp add: pad3_def) presburger
  qed
  have td: "?t @ ?r = d" by (simp add: rest_line_def)
  have ne: "base64_lines d \<noteq> []"
  proof (cases "?r = []")
    case True
    then have "48 \<le> length d" using d td by (cases "48 \<le> length d") (auto simp: rest_line_def)
    then show ?thesis by (simp add: base64_lines_def full_lines.simps [of d])
  qed (simp add: base64_lines_def)
  show ?thesis
  proof (cases "?r = []")
    case True
    then have "decode_loop (base64_lines d) [] 0 [] = (Decode_Tail False, [], 0, d)"
      using decode_full_lines [of d "[]" "[]"] td by (simp add: base64_lines_def)
    then show ?thesis using ne True m by (simp add: EVP_DecodeUpdate_def EVP_DecodeInit_def pad3_def)
  next
    case False
    have l: "decode_loop (base64_lines d) [] 0 [] = decode_loop (EVP_EncodeBlock ?r @ [NEWLINE]) [] 0 ?t"
      using decode_full_lines [of d "EVP_EncodeBlock ?r @ [NEWLINE]" "[]"] False by (simp add: base64_lines_def)
    have e: "EVP_EncodeBlock ?r \<noteq> []" "length (EVP_EncodeBlock ?r) mod 4 = 0"
    proof -
      have "0 < (length ?r + 2) div 3" using False by (simp add: div_greater_zero_iff Suc_le_eq)
      then have "0 < length (EVP_EncodeBlock ?r)" unfolding encode_length by simp
      then show "EVP_EncodeBlock ?r \<noteq> []" by simp
      show "length (EVP_EncodeBlock ?r) mod 4 = 0" unfolding encode_length by simp
    qed
    have k: "pad3 (length ?r) \<le> 2" by (simp add: pad3_def)
    show ?thesis
      using ne e decode_loop_last [OF False rest_line_short] decode_encode_block [of ?r] m td k False
      by (auto simp: EVP_DecodeUpdate_def EVP_DecodeInit_def l)
  qed
qed

lemma base64_stream_round_trip_witness:
  "EVP_DecodeUpdate EVP_DecodeInit (base64_lines [77, 97]) = (0, EVP_DecodeInit, [77, 97])"
  using base64_stream_round_trip [of "[77, 97]"] by simp

end
