(* ===== verification/Spec2Isabelle.thy ===== *)
theory Spec2Isabelle
  imports Poll_Server Message_Processor Message_Dispatcher Tls_Machine Stream_Modes Cts Key_Wrap
    Lhash Dtls_Records Tls_Write Rsa_Padding Asn1_Header Asn1_Utf8 Base64
begin

text \<open>
  This development models the web server in src/src/open-server and parts of the copy of
  OpenSSL 1.1.0g in src/src/OpenSSL-1.1.0g that is kept beside it. The server uses the
  poll system call in one thread and passes the requests to twelve worker threads; its TLS
  calls are commented out at this commit, so the two halves do not call each other.

  \<^bold>\<open>The server.\<close> \<open>PollServer\<close> (theory Poll_Server, poll_server.cpp) owns the listening socket and
  the table \<open>fds\<close> of polled descriptors. One pass through its loop is \<open>poll_iteration\<close>: the
  sessions that the dispatchers have queued for closing are closed, then every descriptor
  with an event is handled (\<open>handle_fd\<close>: accept, receive, or drop), then the table is
  compressed. What it receives goes to \<open>MessageComposer\<close> (Message_Composer,
  html_messagecomposer.cpp), which joins the fragments of a request per socket. A complete
  request is a \<open>ClientSession\<close> (Http_Session, clientsession.cpp and http_header_parser.cpp)
  and goes to the queue of \<open>HTML_MessageProcessor\<close> (Message_Processor,
  html_messageprocessor.cpp), whose thread deals the queue out to twelve
  \<open>HTTP_Message_Dispatcher\<close>s in turn (Message_Dispatcher, http_message_dispatcher.cpp); a
  dispatcher parses the request, builds the response from a file, a directory or the
  cache, and sends it. This theory composes these parts.

  \<^bold>\<open>OpenSSL: the handshake.\<close> Tls_Types, Tls_Client, Tls_Server, Tls_Machine model the handshake
  state machine of libssl (ssl/statem: statem.h, statem_locl.h, statem.c, statem_clnt.c,
  statem_srvr.c, and the processing of ChangeCipherSpec and Finished in statem_lib.c);
  Tls_Protocol states what it promises about the order of messages.

  \<^bold>\<open>OpenSSL: records.\<close> Constant_Time models the branch-free comparisons
  (include/internal/constant_time_locl.h, \<open>CRYPTO_memcmp\<close> in crypto/cryptlib.c), Cbc_Padding the
  functions on them that remove the padding of a CBC record and find its MAC
  (record/ssl3_record.c). Pqueue models the priority queue of DTLS (ssl/pqueue.c), and
  Dtls_Records the receiving half of the DTLS record layer that uses both
  (record/dtls1_bitmap.c, record/rec_layer_d1.c, \<open>dtls1_get_record\<close> and
  \<open>dtls1_process_record\<close> in record/ssl3_record.c): the record \<open>record_layer\<close> is the state,
  \<open>dtls1_get_record\<close> and \<open>dtls1_reset_read\<close> are the operations.

  \<^bold>\<open>OpenSSL: libcrypto.\<close> Lhash models the dynamic hash table (crypto/lhash). Seed models the SEED
  block cipher (crypto/seed); Cbc, Cts, Stream_Modes and Key_Wrap model the modes of
  operation in crypto/modes (cbc128.c, cts128.c, cfb128.c, ofb128.c, ctr128.c, wrap128.c).
  Rsa_Padding models the padding schemes of RSA (crypto/rsa/rsa_pk1.c, rsa_ssl.c, rsa_x931.c,
  rsa_none.c) on the constant-time functions. Asn1_Integer, Asn1_Header and Asn1_Utf8 model
  the octets of ASN.1: INTEGER (crypto/asn1/a_int.c), identifiers and lengths
  (crypto/asn1/asn1_lib.c) and UTF-8 (crypto/asn1/a_utf8.c). Base64 models crypto/evp/encode.c.
  Buffers, Byte_Words and Dev_Prelude hold the byte buffers and the conversions that they share.

  \<^bold>\<open>Interfaces.\<close> Locales state contracts, and the model's own functions interpret them:
  \<open>data_sink\<close> (Message_Composer) is what the poll server expects of a composer;
  \<open>block_cipher\<close> (Cbc) and \<open>stream_mode\<close> (Stream_Modes) what the modes of operation expect
  of a cipher and what a stream mode promises; \<open>seq_queue\<close> (Pqueue) what a queue ordered
  by sequence numbers promises; \<open>hash_key\<close> (Lhash) what the hash and comparison functions
  of a table must satisfy; \<open>layer_invariant\<close> (Dtls_Records) what an invariant of the record
  layer needs to be kept by all its operations.

  \<^bold>\<open>Conventions.\<close> A class or struct is a record, a method a function from the old to the new
  record; a handler that can fail or whose behaviour is undefined has an \<open>option\<close> or a sum
  as its result. Machine words have their width; \<open>size_t\<close> lengths of buffers are natural
  numbers, and the conversions to \<open>int\<close> are written out where they matter. Code outside the
  repository is a parameter: Qt and the file system are the record \<open>qt_env\<close>, the results of
  system calls are the records and functions \<open>poll_env\<close>, \<open>startup_env\<close> and \<open>net\<close>, the
  functions called by the handshake state machine are the record \<open>tls_ops\<close>. The random generator and
  the outcome of an allocation are arguments too. Sample instances
  of these parameters in the theories show that the hypotheses on them can hold. Loops
  that can run for ever are partial functions with the result None; no fuel is used, and
  the other loops have a termination proof. An \<open>unsigned int\<close> that is a natural number in
  a record is a word where it is computed with. Members of a record that the code does not
  have, such as the log of accepted records, are named in the text before it.

  \<^bold>\<open>What is shown.\<close> For the server: the invariant of the descriptor table over an iteration,
  the refinement of the compression to a filter, the isolation of connections, the
  delivery of requests in the order of arrival and their even distribution, the contents
  of responses, their resumption after \<open>EWOULDBLOCK\<close>, and where each of these ends:
  requests in two reads, files above a megabyte, neighbouring dead entries, reused
  descriptors, lost notifications. For the handshake: the language of message sequences
  that either side accepts, by a simulation of an automaton; no ChangeCipherSpec before the
  key exchange, CertificateVerify after a client certificate, unexpected messages are
  fatal, limits on message sizes. For records: no sequence number is accepted twice under the
  same keys, accepted records carry their MAC, the buffers stay bounded, the replay window
  and the constant-time code equal their specifications with sets and branches, and a
  record of the next epoch that arrives twice makes reading fail. For the hash table: it is
  a map under all operations, keeps its form, and survives failed allocations except in a
  contraction. For the ciphers: the table-driven and the small build of
  SEED compute the same, decryption inverts encryption in every mode, optimised loops
  equal the byte-wise ones, counters count, and key unwrapping accepts exactly the wrapped
  keys. For the codes: the RSA checks accept exactly the well-formed blocks, in constant time
  or not; the octets of INTEGER are a bijection to canonical numbers and have their values;
  headers are read as written and only from the bytes that are allowed; a character is read
  exactly from the shortest form; Base64 lines do not depend on the chunks and decode to the
  data.

  \<^bold>\<open>Not modelled.\<close> Thread start-up, logging and the command line of the server; parsing and
  construction of the bodies of handshake messages, the stream record layer and the writing
  half of DTLS, sessions and extensions, certificates, public-key arithmetic, ASN.1 templates
  and the other ciphers and modes of OpenSSL, which are not called by the server; assembly code, applications, tests and the
  build system.
\<close>

section \<open>A request from the socket to the response\<close>

text \<open>
  C1: the components together answer a request. A complete GET request that arrives in one
  read on a fresh connection is handed on by the composer, given to the next dispatcher in
  turn, parsed there and answered, on the same socket, by the header with the file's size
  and the contents of the file, if the file has at most one megabyte, is not cached and the
  socket takes all bytes.
\<close>

lemma request_answered:
  fixes p :: Message_Processor.processor and data :: string
  assumes "messages c sd = None"
    and request: "take n data = ''GET '' @ path @ '' '' @ proto @ [x] @ CRLF @ headers @ CRLF"
    and last: "headers = [] \<or> (\<exists>h. headers = h @ CRLF)"
    and line: "\<forall>y \<in> set (path @ proto @ [x]). y \<notin> set CRLF" "CHR '' '' \<notin> set proto"
    and "n < 2 ^ 31"
    and turn: "qclients p = []" "worker p < 12"
    and idle: "req_queue st = []"
    and "key = q_replace qt (fromStdString qt path) (fromStdString qt ''%20'') (fromStdString qt '' '')"
    and "file_ok qt (cwd st) key content" and "int (length content) \<le> FILE_CHUNK"
    and "cache st key = None"
    and "\<forall>k. \<exists>m. net k = Sent m \<and> length (file_response qt (cwd st) key content) \<le> m"
  shows "\<exists>s p' st'. outbox (onClientDataArrived sd idx data n c) = outbox c @ [s] \<and>
    distribute (p\<lparr>qclients := qclients p @ [s]\<rparr>) = Some p' \<and>
    dispatched p' = dispatched p @ [(worker p, s)] \<and>
    dispatch_round qt uninit net (onNewMessageArrived s st) = Some st' \<and> req_queue st' = [] \<and>
    wire st' = wire st @ [(sd, response_header (mimeName qt (cwd st) key) (length content) @ content)]"
proof -
  obtain req where req: "take n data = req @ CRLF @ CRLF"
    using request last by (elim disjE) auto
  obtain s where s: "onClientDataArrived sd idx data n c =
      c\<lparr>messages := (messages c)(sd := None), outbox := outbox c @ [s]\<rparr>"
    "fresh_session s" "socket s = sd" "request_header (request s) = take n data"
    using single_read_delivered [OF assms(1) req] req by metis
  have "length (request_header (request s)) < 2 ^ 31" using s(4) \<open>n < 2 ^ 31\<close> by simp
  then have "parse qt (request s) = Some (0, (request s)\<lparr>request_path := key, is_dirty := False\<rparr>)"
    unfolding \<open>key = _\<close> using s(2,4) request line
    by (intro parse_get_line [where version = proto and c = x and rest = "headers @ CRLF"])
      (auto simp: fresh_session_def)
  moreover from s(3) have "\<exists>st'. dispatch_round qt uninit net (onNewMessageArrived s st) = Some st' \<and>
      req_queue st' = [] \<and> wire st' = wire (onNewMessageArrived s st) @
      [(socket s, response_header (mimeName qt (cwd st) key) (length content) @ content)]"
    using small_file_served [OF s(2) calculation, of "onNewMessageArrived s st" content net uninit] assms
    by (simp add: onNewMessageArrived_def)
  moreover have "\<exists>p'. distribute (p\<lparr>qclients := qclients p @ [s]\<rparr>) = Some p' \<and>
      dispatched p' = dispatched p @ [(worker p, s)]"
    using turn distribute_closed [of "p\<lparr>qclients := [s]\<rparr>"] by (simp add: round_robin_def)
  ultimately show ?thesis using s(1,3) by (auto simp: onNewMessageArrived_def)
qed

text \<open>A request for a file of five bytes, with a longer receive buffer.\<close>

theorem request_answered_witness:
  "\<exists>s p' st'. distribute \<lparr>qclients = [s], worker = 11, dispatched = []\<rparr> = Some p' \<and>
     dispatched p' = [(11, s)] \<and>
     dispatch_round (sample_qt ''hello'') False (\<lambda>k. Sent 1000)
       (onNewMessageArrived s ((sample_state s)\<lparr>req_queue := []\<rparr>)) = Some st' \<and>
     wire st' = [(7, response_header ''text/plain'' 5 @ ''hello'')]"
proof -
  let ?qt = "sample_qt ''hello''"
  let ?data = "''GET /a HTTP/1.1'' @ CRLF @ CRLF @ ''left over''"
  let ?p = "\<lparr>qclients = [], worker = 11, dispatched = []\<rparr>"
  let ?st = "\<lparr>req_queue = [], cache = Map.empty, cwd = [], qclients_close = [], wire = []\<rparr>"
  have five: "length (to_string (Suc (Suc (Suc (Suc (Suc 0)))))) = 1" by (simp add: to_string.simps)
  have len: "length (file_response ?qt [] [47, 97] ''hello'') \<le> 1000"
    by (simp add: file_response_def length_response_header sample_qt_def five FILE_CHUNK_def)
  have key: "[47, 97] = q_replace ?qt (fromStdString ?qt ''/a'') (fromStdString ?qt ''%20'') (fromStdString ?qt '' '')"
    by (simp add: sample_qt_def)
  have "\<exists>s p' st'. outbox (onClientDataArrived 7 1 ?data 19 new_composer) = outbox new_composer @ [s] \<and>
    distribute (?p\<lparr>qclients := qclients ?p @ [s]\<rparr>) = Some p' \<and> dispatched p' = dispatched ?p @ [(worker ?p, s)] \<and>
    dispatch_round ?qt False (\<lambda>k. Sent 1000) (onNewMessageArrived s ?st) = Some st' \<and> req_queue st' = [] \<and>
    wire st' = wire ?st @ [(7, response_header (mimeName ?qt (cwd ?st) [47, 97]) (length ''hello'') @ ''hello'')]"
  proof (rule request_answered [where path = "''/a''" and proto = "''HTTP/1.''" and x = "CHR ''1''" and headers = "[]"])
    show "[47, 97] = q_replace ?qt (fromStdString ?qt ''/a'') (fromStdString ?qt ''%20'') (fromStdString ?qt '' '')"
      by (rule key)
    show "\<forall>k. \<exists>m. Sent 1000 = Sent m \<and> length (file_response ?qt (cwd ?st) [47, 97] ''hello'') \<le> m"
      using len by simp
    show "file_ok ?qt (cwd ?st) [47, 97] ''hello''" by (rule sample_file(1))
  qed (simp_all add: new_composer_def CRLF_def FILE_CHUNK_def)
  then show ?thesis by (auto simp: sample_qt_def sample_state_def numeral_eq_Suc)
qed

end
